(* ===== verification/Prelude.thy ===== *)
theory Prelude
  imports Main "HOL-Library.Word"
begin

text \<open>
  Shared vocabulary of the development: the byte and word types of the wire, Go's signed 64-bit
  arithmetic, the error values of the program, the pseudo-random source, the big-endian codecs of
  \<open>encoding/binary\<close> and \<open>io.ReadFull\<close>.  Everything here models the Go language and the parts
  of its standard library the program uses; the components of the program are in the other
  theories.
\<close>

unbundle bit_operations_syntax

named_theorems wire_simps
named_theorems go_defs

section \<open>Types of the model\<close>

type_synonym byte = "8 word"
type_synonym bytes = "8 word list"
type_synonym u16 = "16 word"
type_synonym u32 = "32 word"
type_synonym u64 = "64 word"

text \<open>Durations and instants are nanosecond counts (Go's \<open>time.Duration\<close> is an int64).\<close>

type_synonym duration = int

text \<open>
  The error values the program creates or passes on.  \<open>RemoteError\<close> is
  \<open>fmt.Errorf("remote: %s", ...)\<close>, \<open>OtherError\<close> an error whose text is never inspected.
\<close>

datatype go_error =
    EOF
  | ErrUnexpectedEOF
  | ErrClosedPipe
  | NetErrClosed
  | ErrDeadlineExceeded
  | ErrInvalid
  | SynAckTimeoutError
  | RemoteError string
  | OtherError string

section \<open>Go's int\<close>

text \<open>
  A Go \<open>int\<close> is a 64-bit two's complement number.  The model computes with \<open>int\<close> and wraps
  explicitly where an operand is not bounded by a buffer length.
\<close>

definition int64_min :: int where "int64_min = - (2 ^ 63)"

definition int64_max :: int where "int64_max = 2 ^ 63 - 1"

definition wrap64 :: "int \<Rightarrow> int" where
  "wrap64 x = (x + 2 ^ 63) mod 2 ^ 64 - 2 ^ 63"

lemma wrap64_id [simp]: "int64_min \<le> x \<Longrightarrow> x \<le> int64_max \<Longrightarrow> wrap64 x = x"
  by (simp add: wrap64_def int64_min_def int64_max_def)

lemma wrap64_range: "int64_min \<le> wrap64 x \<and> wrap64 x \<le> int64_max"
proof -
  have "0 \<le> (x + 2 ^ 63) mod 2 ^ 64" "(x + 2 ^ 63) mod 2 ^ 64 < 2 ^ 64"
    by (simp_all del: power_numeral numeral_power_eq_of_int_cancel_iff)
  then show ?thesis by (simp add: wrap64_def int64_min_def int64_max_def)
qed

lemma wrap64_add_left [simp]: "wrap64 (wrap64 a + b) = wrap64 (a + b)"
proof -
  have "((a + 2 ^ 63) mod 2 ^ 64 + b) mod 2 ^ 64 = (a + 2 ^ 63 + b) mod (2 ^ 64 :: int)"
    by (rule mod_add_left_eq)
  then show ?thesis by (simp add: wrap64_def algebra_simps)
qed

lemma wrap64_le: "0 \<le> x \<Longrightarrow> wrap64 x \<le> x"
  using zmod_le_nonneg_dividend [of "x + 2 ^ 63" "2 ^ 64"] by (simp add: wrap64_def)

section \<open>The pseudo-random source\<close>

text \<open>
  The draws the shared ChaCha8 generator (or a skip list's own generator) still has to hand out.
  A finite list suffices for any one run, and a theorem that holds for every list holds for every
  behaviour of the generator.  An exhausted list keeps answering 0.
\<close>

type_synonym rand = "nat list"

fun draw :: "rand \<Rightarrow> nat \<times> rand" where
  "draw [] = (0, [])"
| "draw (x # r) = (x, r)"

text \<open>\<open>mrand.Uint64\<close> and \<open>mrand.IntN\<close>; the latter panics for \<open>n \<le> 0\<close>, which its only caller excludes.\<close>

definition randUint64 :: "rand \<Rightarrow> u64 \<times> rand" where
  "randUint64 r = (let (x, r') = draw r in (of_nat x, r'))"

definition randIntN :: "int \<Rightarrow> rand \<Rightarrow> int \<times> rand" where
  "randIntN n r = (let (x, r') = draw r in (int x mod n, r'))"

lemma randIntN_range:
  assumes "0 < n" "randIntN n r = (v, r')"
  shows "0 \<le> v \<and> v < n"
  using assms by (auto simp: randIntN_def split: prod.splits)

section \<open>Big-endian codecs\<close>

definition putUint16 :: "u16 \<Rightarrow> bytes" where
  "putUint16 v = [ucast (drop_bit 8 v), ucast v]"

definition putUint32 :: "u32 \<Rightarrow> bytes" where
  "putUint32 v = [ucast (drop_bit 24 v), ucast (drop_bit 16 v), ucast (drop_bit 8 v), ucast v]"

definition getUint16 :: "byte \<Rightarrow> byte \<Rightarrow> u16" where
  "getUint16 a b = push_bit 8 (ucast a) OR ucast b"

definition getUint32 :: "byte \<Rightarrow> byte \<Rightarrow> byte \<Rightarrow> byte \<Rightarrow> u32" where
  "getUint32 a b c d =
     push_bit 24 (ucast a) OR push_bit 16 (ucast b) OR push_bit 8 (ucast c) OR ucast d"

lemma length_putUint16 [simp]: "length (putUint16 v) = 2"
  by (simp add: putUint16_def)

lemma length_putUint32 [simp]: "length (putUint32 v) = 4"
  by (simp add: putUint32_def)

lemma getUint16_ucast [wire_simps]:
  "getUint16 (ucast (drop_bit 8 v)) (ucast v) = v"
  unfolding getUint16_def
  by (rule bit_word_eqI) (auto simp: bit_simps)

lemma getUint32_ucast [wire_simps]:
  "getUint32 (ucast (drop_bit 24 v)) (ucast (drop_bit 16 v)) (ucast (drop_bit 8 v)) (ucast v) = v"
  unfolding getUint32_def
proof (rule bit_word_eqI)
  fix n
  assume "n < LENGTH(32)"
  then consider "n < 8" | "8 \<le> n" "n < 16" | "16 \<le> n" "n < 24" | "24 \<le> n" "n < 32"
    by fastforce
  then show "bit (push_bit 24 (ucast (ucast (drop_bit 24 v) :: byte)) OR
      push_bit 16 (ucast (ucast (drop_bit 16 v) :: byte)) OR
      push_bit 8 (ucast (ucast (drop_bit 8 v) :: byte)) OR
      (ucast (ucast v :: byte) :: u32)) n = bit v n"
    by cases (auto simp: bit_simps)
qed

lemma byte_bit_beyond [simp]: "\<not> bit (b :: byte) (8 + n)"
  by (auto dest: bit_imp_le_length)

lemma putUint16_getUint16 [wire_simps]: "putUint16 (getUint16 a b) = [a, b]"
  unfolding putUint16_def getUint16_def
  by (auto intro!: bit_word_eqI simp: bit_simps)

lemma unat_of_nat16: "n \<le> 65535 \<Longrightarrow> unat (word_of_nat n :: u16) = n"
  by (simp add: unat_of_nat take_bit_eq_mod)

lemma getUint16_len [wire_simps]:
  "n \<le> 65535 \<Longrightarrow> unat (getUint16 (ucast (drop_bit 8 (word_of_nat n :: u16)))
      (ucast (word_of_nat n :: u16))) = n"
  by (simp add: getUint16_ucast unat_of_nat16)

section \<open>Reading from a connection\<close>

text \<open>
  The bytes a connection still delivers are a list, its end the end of the connection.
  \<open>io.ReadFull(conn, buf)\<close> with \<open>len(buf) = n\<close>: all \<open>n\<close> bytes, or \<open>io.EOF\<close> when nothing
  was read, or \<open>io.ErrUnexpectedEOF\<close> after a short read.
\<close>

definition ReadFull :: "nat \<Rightarrow> bytes \<Rightarrow> go_error + bytes \<times> bytes" where
  "ReadFull n inp =
     (if n \<le> length inp then Inr (take n inp, drop n inp)
      else if inp = [] then Inl EOF
      else Inl ErrUnexpectedEOF)"

lemma ReadFull_append [wire_simps, simp]:
  "length xs = n \<Longrightarrow> ReadFull n (xs @ ys) = Inr (xs, ys)"
  by (simp add: ReadFull_def)

lemma ReadFull_InrD:
  assumes "ReadFull n inp = Inr (xs, ys)"
  shows "inp = xs @ ys \<and> length xs = n"
  using assms by (auto simp: ReadFull_def split: if_splits)

lemma ReadFull_Inl_iff: "(\<exists>e. ReadFull n inp = Inl e) \<longleftrightarrow> length inp < n"
  by (auto simp: ReadFull_def)

section \<open>Generic facts\<close>

lemma hd_append_singleton [simp]: "hd (xs @ [x]) = (if xs = [] then x else hd xs)"
  by (cases xs) auto

end
