(* ===== verification/Go_Strings.thy ===== *)
theory Go_Strings
  imports Prelude
begin

text \<open>
  The functions of Go's \<open>strings\<close> and \<open>strconv\<close> packages the program calls, on byte strings
  (a \<open>char\<close> is one byte), and the conversions between \<open>string\<close> and \<open>[]byte\<close>.
\<close>

section \<open>Strings and byte slices\<close>

definition byte_of_char :: "char \<Rightarrow> byte" where
  "byte_of_char c = word_of_nat (of_char c)"

definition char_of_byte :: "byte \<Rightarrow> char" where
  "char_of_byte b = char_of (unat b)"

abbreviation bytes_of :: "string \<Rightarrow> bytes" where
  "bytes_of s \<equiv> map byte_of_char s"

abbreviation string_of :: "bytes \<Rightarrow> string" where
  "string_of b \<equiv> map char_of_byte b"

lemma of_char_less_256: "(of_char c :: nat) < 256"
proof -
  have "of_char c = (of_char c :: nat) mod 256" by (simp add: of_char_mod_256)
  then show ?thesis by (metis mod_less_divisor zero_less_numeral)
qed

lemma char_of_byte_of_char [simp]: "char_of_byte (byte_of_char c) = c"
  using of_char_less_256 [of c]
  by (simp add: char_of_byte_def byte_of_char_def unat_of_nat take_bit_eq_mod)

lemma byte_of_char_of_byte [simp]: "byte_of_char (char_of_byte b) = b"
proof -
  have "unat b < 256" using unsigned_less [of b, where ?'a = nat] by simp
  then show ?thesis by (simp add: char_of_byte_def byte_of_char_def)
qed

lemma char_byte_comp [simp]:
  "char_of_byte \<circ> byte_of_char = id" "byte_of_char \<circ> char_of_byte = id"
  by (auto simp: fun_eq_iff)

section \<open>Splitting and joining\<close>

text \<open>\<open>strings.Split(s, sep)\<close> for a one-byte separator.\<close>

fun splitOn :: "char \<Rightarrow> string \<Rightarrow> string list" where
  "splitOn sep [] = [[]]"
| "splitOn sep (c # cs) =
     (if c = sep then [] # splitOn sep cs
      else (case splitOn sep cs of [] \<Rightarrow> [[c]] | p # ps \<Rightarrow> (c # p) # ps))"

text \<open>\<open>strings.SplitN(s, sep, 2)\<close>.\<close>

definition splitN2 :: "char \<Rightarrow> string \<Rightarrow> string list" where
  "splitN2 sep s =
     (if sep \<in> set s then [takeWhile (\<lambda>c. c \<noteq> sep) s, tl (dropWhile (\<lambda>c. c \<noteq> sep) s)]
      else [s])"

text \<open>\<open>strings.Join(parts, sep)\<close>.\<close>

fun joinWith :: "char \<Rightarrow> string list \<Rightarrow> string" where
  "joinWith sep [] = []"
| "joinWith sep [p] = p"
| "joinWith sep (p # q # ps) = p @ sep # joinWith sep (q # ps)"

lemma splitOn_not_Nil [simp]: "splitOn sep s \<noteq> []"
  by (induction s) (auto split: list.splits)

lemma splitOn_no_sep: "sep \<notin> set s \<Longrightarrow> splitOn sep s = [s]"
  by (induction s) auto

lemma splitOn_append_sep:
  "sep \<notin> set p \<Longrightarrow> splitOn sep (p @ sep # s) = p # splitOn sep s"
  by (induction p) auto

lemma splitOn_joinWith:
  assumes "ps \<noteq> []" "\<forall>p \<in> set ps. sep \<notin> set p"
  shows "splitOn sep (joinWith sep ps) = ps"
  using assms
  by (induction sep ps rule: joinWith.induct) (auto simp: splitOn_no_sep splitOn_append_sep)

lemma splitN2_pair: "sep \<notin> set k \<Longrightarrow> splitN2 sep (k @ sep # v) = [k, v]"
  by (simp add: splitN2_def takeWhile_append dropWhile_append)

text \<open>\<open>strings.LastIndex(s, sep)\<close> with the cut it is used for: the parts before and after the last \<open>sep\<close>.\<close>

definition cutLast :: "char \<Rightarrow> string \<Rightarrow> (string \<times> string) option" where
  "cutLast sep s =
     (if sep \<in> set s
      then Some (rev (tl (dropWhile (\<lambda>c. c \<noteq> sep) (rev s))), rev (takeWhile (\<lambda>c. c \<noteq> sep) (rev s)))
      else None)"

section \<open>Trimming white space\<close>

text \<open>
  \<open>strings.TrimSpace\<close> removes leading and trailing runes with \<open>unicode.IsSpace\<close>: the six ASCII
  spaces, U+0085, U+00A0, U+1680, U+2000 to U+200A, U+2028, U+2029, U+202F, U+205F and U+3000, here
  by their UTF-8 encodings.  The encodings are self-synchronising, so a string starts (ends) with
  such a rune exactly when it starts (ends) with its encoding.
\<close>

definition utf8_spaces :: "string list" where
  "utf8_spaces =
     [[CHR 0x09], [CHR 0x0A], [CHR 0x0B], [CHR 0x0C], [CHR 0x0D], [CHR 0x20],
      [CHR 0xC2, CHR 0x85], [CHR 0xC2, CHR 0xA0], [CHR 0xE1, CHR 0x9A, CHR 0x80],
      [CHR 0xE2, CHR 0x80, CHR 0x80], [CHR 0xE2, CHR 0x80, CHR 0x81], [CHR 0xE2, CHR 0x80, CHR 0x82],
      [CHR 0xE2, CHR 0x80, CHR 0x83], [CHR 0xE2, CHR 0x80, CHR 0x84], [CHR 0xE2, CHR 0x80, CHR 0x85],
      [CHR 0xE2, CHR 0x80, CHR 0x86], [CHR 0xE2, CHR 0x80, CHR 0x87], [CHR 0xE2, CHR 0x80, CHR 0x88],
      [CHR 0xE2, CHR 0x80, CHR 0x89], [CHR 0xE2, CHR 0x80, CHR 0x8A], [CHR 0xE2, CHR 0x80, CHR 0xA8],
      [CHR 0xE2, CHR 0x80, CHR 0xA9], [CHR 0xE2, CHR 0x80, CHR 0xAF], [CHR 0xE2, CHR 0x81, CHR 0x9F],
      [CHR 0xE3, CHR 0x80, CHR 0x80]]"

fun is_prefix :: "string \<Rightarrow> string \<Rightarrow> bool" where
  "is_prefix [] s = True"
| "is_prefix (c # cs) [] = False"
| "is_prefix (c # cs) (d # ds) = (c = d \<and> is_prefix cs ds)"

fun trimPrefixes :: "string list \<Rightarrow> nat \<Rightarrow> string \<Rightarrow> string" where
  "trimPrefixes ws 0 s = s"
| "trimPrefixes ws (Suc n) s =
     (case find (\<lambda>w. is_prefix w s) ws of
        None \<Rightarrow> s
      | Some w \<Rightarrow> trimPrefixes ws n (drop (length w) s))"

text \<open>One pass per byte is enough: every pass that does not stop removes at least one byte.\<close>

definition TrimSpace :: "string \<Rightarrow> string" where
  "TrimSpace s =
     (let l = trimPrefixes utf8_spaces (length s) s
      in rev (trimPrefixes (map rev utf8_spaces) (length l) (rev l)))"

lemma is_prefix_hd: "is_prefix w s \<Longrightarrow> w \<noteq> [] \<Longrightarrow> s \<noteq> [] \<and> hd w = hd s"
  by (cases w; cases s) auto

lemma find_prefix_None:
  assumes "\<forall>w \<in> set ws. w \<noteq> [] \<and> (s = [] \<or> hd w \<noteq> hd s)"
  shows "find (\<lambda>w. is_prefix w s) ws = None"
  using assms is_prefix_hd by (fastforce simp: find_None_iff)

lemma trimPrefixes_id:
  assumes "\<forall>w \<in> set ws. w \<noteq> [] \<and> (s = [] \<or> hd w \<noteq> hd s)"
  shows "trimPrefixes ws n s = s"
  using find_prefix_None [OF assms] by (cases n) simp_all

text \<open>A string that neither starts nor ends with a byte of a space rune is left alone.\<close>

definition space_free_ends :: "string \<Rightarrow> bool" where
  "space_free_ends s \<longleftrightarrow>
     s = [] \<or> (\<forall>w \<in> set utf8_spaces. hd w \<noteq> hd s \<and> last w \<noteq> last s)"

lemma utf8_spaces_not_Nil: "w \<in> set utf8_spaces \<Longrightarrow> w \<noteq> []"
  by (auto simp: utf8_spaces_def)

lemma TrimSpace_id:
  assumes "space_free_ends s"
  shows "TrimSpace s = s"
proof -
  from assms have "\<forall>w \<in> set utf8_spaces. w \<noteq> [] \<and> (s = [] \<or> hd w \<noteq> hd s)"
    by (auto simp: space_free_ends_def dest: utf8_spaces_not_Nil)
  then have l: "trimPrefixes utf8_spaces n s = s" for n by (rule trimPrefixes_id)
  from assms have "\<forall>w \<in> set (map rev utf8_spaces). w \<noteq> [] \<and> (rev s = [] \<or> hd w \<noteq> hd (rev s))"
    by (auto simp: space_free_ends_def hd_rev dest: utf8_spaces_not_Nil)
  then have r: "trimPrefixes (map rev utf8_spaces) n (rev s) = rev s" for n
    by (rule trimPrefixes_id)
  show ?thesis by (simp only: TrimSpace_def Let_def l r rev_rev_ident)
qed

section \<open>strconv.Atoi\<close>

definition is_digit :: "char \<Rightarrow> bool" where
  "is_digit c \<longleftrightarrow> 48 \<le> (of_char c :: nat) \<and> (of_char c :: nat) \<le> 57"

definition digits_val :: "string \<Rightarrow> int" where
  "digits_val ds = foldl (\<lambda>acc c. acc * 10 + (of_char c - 48)) 0 ds"

text \<open>\<open>None\<close> is a syntax or range error (the program never distinguishes them).\<close>

definition Atoi :: "string \<Rightarrow> int option" where
  "Atoi s =
     (let (neg, ds) = (case s of
            [] \<Rightarrow> (False, [])
          | c # cs \<Rightarrow> if c = CHR ''-'' then (True, cs)
                       else if c = CHR ''+'' then (False, cs)
                       else (False, s))
      in if ds = [] \<or> \<not> list_all is_digit ds then None
         else let v = (if neg then - digits_val ds else digits_val ds)
              in if int64_min \<le> v \<and> v \<le> int64_max then Some v else None)"

lemma Atoi_range: "Atoi s = Some v \<Longrightarrow> int64_min \<le> v \<and> v \<le> int64_max"
  by (auto simp: Atoi_def Let_def split: list.splits if_splits)

end
