(* ===== verification/Util.thy ===== *)
theory Util
  imports Go_Strings "HOL-Library.AList"
begin

text \<open>
  Package \<open>util\<close>: the random helpers (\<open>rand.go\<close>) and the textual key/value map
  (\<open>string_map.go\<close>) that carries the settings and the padding scheme.
\<close>

section \<open>rand.go\<close>

definition FastIntn :: "int \<Rightarrow> rand \<Rightarrow> int \<times> rand" where
  "FastIntn n r = (if n \<le> 1 then (0, r) else randIntN n r)"

definition putLE64 :: "u64 \<Rightarrow> bytes" where
  "putLE64 v = map (\<lambda>i. ucast (drop_bit (8 * i) v)) [0 ..< 8]"

text \<open>The tail loop of \<open>FillRandom\<close>: one byte per position, low byte first.\<close>

fun fillTail :: "nat \<Rightarrow> u64 \<Rightarrow> bytes" where
  "fillTail 0 val = []"
| "fillTail (Suc n) val = ucast val # fillTail n (drop_bit 8 val)"

text \<open>
  \<open>FillRandom\<close> overwrites every byte of its slice, so it is a function of the slice's length.
\<close>

function FillRandom :: "nat \<Rightarrow> rand \<Rightarrow> bytes \<times> rand" where
  "FillRandom n r =
     (if 8 \<le> n then
        let (v, r1) = randUint64 r; (bs, r2) = FillRandom (n - 8) r1 in (putLE64 v @ bs, r2)
      else if 0 < n then let (v, r1) = randUint64 r in (fillTail n v, r1)
      else ([], r))"
  by pat_completeness auto
termination by (relation "measure (\<lambda>(n, r). n)") auto

declare FillRandom.simps [simp del]

lemma FastIntn_range:
  assumes "FastIntn n r = (v, r')"
  shows "0 \<le> v" and "1 \<le> n \<Longrightarrow> v < n"
  using assms randIntN_range [of n r v r'] by (auto simp: FastIntn_def split: if_splits)

lemma FastIntn_nonneg [simp]: "0 \<le> fst (FastIntn n r)"
  by (cases "FastIntn n r") (simp add: FastIntn_range(1))

lemma FastIntn_less [simp]: "1 \<le> n \<Longrightarrow> fst (FastIntn n r) < n"
  by (cases "FastIntn n r") (simp add: FastIntn_range(2))

lemma FastIntn_one [simp]: "FastIntn 1 r = (0, r)"
  by (simp add: FastIntn_def)

lemma length_fillTail [simp]: "length (fillTail n v) = n"
  by (induction n arbitrary: v) auto

lemma length_FillRandom [simp]: "length (fst (FillRandom n r)) = n"
proof (induction n r rule: FillRandom.induct)
  case (1 n r)
  show ?case
    using "1.IH" by (subst FillRandom.simps) (auto simp: putLE64_def split: prod.splits)
qed

section \<open>string_map.go\<close>

text \<open>
  A \<open>StringMap\<close> is an association list with distinct keys; Go leaves the iteration order of a map
  open, and the order of the list is the order one particular run iterates in.
\<close>

type_synonym StringMap = "(string \<times> string) list"

text \<open>\<open>m[k]\<close>: the zero value for a missing key.\<close>

definition sm_get :: "StringMap \<Rightarrow> string \<Rightarrow> string" where
  "sm_get m k = (case map_of m k of None \<Rightarrow> [] | Some v \<Rightarrow> v)"

definition ToBytes :: "StringMap \<Rightarrow> bytes" where
  "ToBytes s = bytes_of (joinWith (CHR 0x0A) (map (\<lambda>(k, v). k @ CHR ''='' # v) s))"

fun fromLines :: "string list \<Rightarrow> StringMap \<Rightarrow> StringMap" where
  "fromLines [] m = m"
| "fromLines (line # lines) m =
     (let v = splitN2 (CHR ''='') line
      in fromLines lines (if length v = 2 then AList.update (v ! 0) (v ! 1) m else m))"

definition StringMapFromBytes :: "bytes \<Rightarrow> StringMap" where
  "StringMapFromBytes b = fromLines (splitOn (CHR 0x0A) (string_of b)) []"

text \<open>What a map must satisfy to survive the textual form.\<close>

definition clean_map :: "StringMap \<Rightarrow> bool" where
  "clean_map m \<longleftrightarrow> distinct (map fst m) \<and>
     (\<forall>(k, v) \<in> set m. CHR ''='' \<notin> set k \<and> CHR 0x0A \<notin> set k \<and> CHR 0x0A \<notin> set v)"

lemma AList_update_new: "k \<notin> fst ` set m \<Longrightarrow> AList.update k v m = m @ [(k, v)]"
  by (induction m) auto

lemma fromLines_pairs:
  assumes "distinct (map fst (acc @ m))" "\<forall>(k, v) \<in> set m. CHR ''='' \<notin> set k"
  shows "fromLines (map (\<lambda>(k, v). k @ CHR ''='' # v) m) acc = acc @ m"
  using assms
proof (induction m arbitrary: acc)
  case Nil
  then show ?case by simp
next
  case (Cons p m)
  obtain k v where p: "p = (k, v)" by (cases p)
  from Cons.prems p have "k \<notin> fst ` set acc" "CHR ''='' \<notin> set k" by auto
  with p Cons show ?case
    by (simp add: splitN2_pair AList_update_new)
qed

lemma splitOn_lines:
  assumes "m \<noteq> []" "clean_map m"
  shows "splitOn (CHR 0x0A) (joinWith (CHR 0x0A) (map (\<lambda>(k, v). k @ CHR ''='' # v) m))
    = map (\<lambda>(k, v). k @ CHR ''='' # v) m"
  using assms by (intro splitOn_joinWith) (auto simp: clean_map_def)

lemma fromBytes_ToBytes:
  assumes "clean_map m"
  shows "StringMapFromBytes (ToBytes m) = m"
proof (cases "m = []")
  case True
  then show ?thesis
    by (simp add: StringMapFromBytes_def ToBytes_def splitN2_def)
next
  case False
  from assms have "distinct (map fst m)" "\<forall>(k, v) \<in> set m. CHR ''='' \<notin> set k"
    by (auto simp: clean_map_def)
  with False assms fromLines_pairs [of "[]" m] show ?thesis
    by (simp add: StringMapFromBytes_def ToBytes_def splitOn_lines)
qed

text \<open>
  Property C40.  A map whose keys contain neither a newline nor an equals sign and whose values
  contain no newline is read back unchanged from its wire form, for every iteration order.
\<close>

theorem StringMap_roundtrip:
  assumes "clean_map m"
  shows "StringMapFromBytes (ToBytes m) = m"
  using assms by (rule fromBytes_ToBytes)

theorem StringMap_roundtrip_witness:
  "clean_map [(''v'', ''2''), (''rs'', ''1'')] \<and>
   StringMapFromBytes (ToBytes [(''v'', ''2''), (''rs'', ''1'')]) = [(''v'', ''2''), (''rs'', ''1'')]"
proof -
  have c: "clean_map [(''v'', ''2''), (''rs'', ''1'')]" by (simp add: clean_map_def)
  show ?thesis using c StringMap_roundtrip [OF c] by simp
qed

lemma fromLines_distinct: "distinct (map fst m) \<Longrightarrow> distinct (map fst (fromLines ls m))"
  by (induction ls arbitrary: m) (auto simp: Let_def distinct_update)

lemma StringMapFromBytes_distinct: "distinct (map fst (StringMapFromBytes b))"
  by (simp add: StringMapFromBytes_def fromLines_distinct)

end
