(* ===== verification/Frame.thy ===== *)
theory Frame
  imports Util
begin

text \<open>
  \<open>session/frame.go\<close>: the command bytes, the frame and its seven-byte header.  The second half of
  the theory gives the receiver's view of a byte stream, \<open>decodeFrames\<close>, against which the
  components that write frames are verified.
\<close>

section \<open>Commands and sizes\<close>

definition cmdWaste :: byte where [simp]: "cmdWaste = 0"
definition cmdSYN :: byte where [simp]: "cmdSYN = 1"
definition cmdPSH :: byte where [simp]: "cmdPSH = 2"
definition cmdFIN :: byte where [simp]: "cmdFIN = 3"
definition cmdSettings :: byte where [simp]: "cmdSettings = 4"
definition cmdAlert :: byte where [simp]: "cmdAlert = 5"
definition cmdUpdatePaddingScheme :: byte where [simp]: "cmdUpdatePaddingScheme = 6"
definition cmdSYNACK :: byte where [simp]: "cmdSYNACK = 7"
definition cmdHeartRequest :: byte where [simp]: "cmdHeartRequest = 8"
definition cmdHeartResponse :: byte where [simp]: "cmdHeartResponse = 9"
definition cmdServerSettings :: byte where [simp]: "cmdServerSettings = 10"
definition cmdMigrateReady :: byte where [simp]: "cmdMigrateReady = 11"
definition cmdMigrateGo :: byte where [simp]: "cmdMigrateGo = 12"
definition cmdMigrateCarrier :: byte where [simp]: "cmdMigrateCarrier = 13"
definition cmdUplinkFin :: byte where [simp]: "cmdUplinkFin = 14"

definition headerOverHeadSize :: nat where [simp]: "headerOverHeadSize = 1 + 4 + 2"
definition maxFrameDataLen :: nat where [simp]: "maxFrameDataLen = 0xFFFF"
definition h2MaxFramePayload :: nat where [simp]: "h2MaxFramePayload = 16384"

section \<open>Frames and headers\<close>

record frame =
  f_cmd :: byte
  f_sid :: u32
  f_data :: bytes

definition newFrame :: "byte \<Rightarrow> u32 \<Rightarrow> frame" where
  "newFrame c s = \<lparr>f_cmd = c, f_sid = s, f_data = []\<rparr>"

type_synonym rawHeader = bytes

definition Cmd :: "rawHeader \<Rightarrow> byte" where
  "Cmd h = h ! 0"

definition StreamID :: "rawHeader \<Rightarrow> u32" where
  "StreamID h = getUint32 (h ! 1) (h ! 2) (h ! 3) (h ! 4)"

definition Length :: "rawHeader \<Rightarrow> u16" where
  "Length h = getUint16 (h ! 5) (h ! 6)"

text \<open>
  The byte layout every frame writer of \<open>session.go\<close> produces: command, big-endian stream id,
  big-endian length truncated to 16 bits, payload.
\<close>

definition frameHeader :: "byte \<Rightarrow> u32 \<Rightarrow> nat \<Rightarrow> bytes" where
  "frameHeader c s n = c # putUint32 s @ putUint16 (word_of_nat n)"

definition encodeFrame :: "frame \<Rightarrow> bytes" where
  "encodeFrame f = frameHeader (f_cmd f) (f_sid f) (length (f_data f)) @ f_data f"

lemma length_frameHeader [simp]: "length (frameHeader c s n) = 7"
  by (simp add: frameHeader_def)

lemma length_encodeFrame [simp]: "length (encodeFrame f) = 7 + length (f_data f)"
  by (simp add: encodeFrame_def)

lemma frameHeader_fields [wire_simps, simp]:
  "Cmd (frameHeader c s n) = c"
  "StreamID (frameHeader c s n) = s"
  "n \<le> 65535 \<Longrightarrow> unat (Length (frameHeader c s n)) = n"
  by (simp_all add: Cmd_def StreamID_def Length_def frameHeader_def putUint32_def putUint16_def
      unat_of_nat16 wire_simps)

section \<open>The receiver's view of a byte stream\<close>

function decodeFrames :: "bytes \<Rightarrow> frame list \<times> bytes" where
  "decodeFrames b =
     (case ReadFull 7 b of
        Inl _ \<Rightarrow> ([], b)
      | Inr (h, r) \<Rightarrow>
          (case ReadFull (unat (Length h)) r of
             Inl _ \<Rightarrow> ([], b)
           | Inr (d, r') \<Rightarrow>
               (let (fs, rest) = decodeFrames r'
                in (\<lparr>f_cmd = Cmd h, f_sid = StreamID h, f_data = d\<rparr> # fs, rest))))"
  by pat_completeness auto
termination
  by (relation "measure length") (auto dest!: ReadFull_InrD)

declare decodeFrames.simps [simp del]

lemma decodeFrames_Nil [simp]: "decodeFrames [] = ([], [])"
  by (subst decodeFrames.simps) (simp add: ReadFull_def)

lemma decodeFrames_encode [wire_simps]:
  assumes "length (f_data f) \<le> 65535"
  shows "decodeFrames (encodeFrame f @ b) =
    (let (fs, rest) = decodeFrames b in (f # fs, rest))"
  using assms
  by (cases f, subst decodeFrames.simps) (simp add: encodeFrame_def)

definition encodeFrames :: "frame list \<Rightarrow> bytes" where
  "encodeFrames fs = concat (map encodeFrame fs)"

lemma encodeFrames_simps [simp]:
  "encodeFrames [] = []"
  "encodeFrames (f # fs) = encodeFrame f @ encodeFrames fs"
  "encodeFrames (fs @ gs) = encodeFrames fs @ encodeFrames gs"
  by (simp_all add: encodeFrames_def)

definition wire_ok :: "frame \<Rightarrow> bool" where
  "wire_ok f \<longleftrightarrow> length (f_data f) \<le> maxFrameDataLen"

lemma decodeFrames_append:
  assumes "\<forall>f \<in> set fs. wire_ok f"
  shows "decodeFrames (encodeFrames fs @ b) =
    (let (gs, rest) = decodeFrames b in (fs @ gs, rest))"
  using assms
  by (induction fs) (auto simp: wire_ok_def decodeFrames_encode Let_def split: prod.splits)



end
