(* ===== verification/Conn.thy ===== *)
theory Conn
  imports Frame
begin

text \<open>
  The \<open>net.Conn\<close> under a session.  The connection (a TLS connection in production) is not code of
  the repository: what it will do is a schedule of write results, over which every theorem
  quantifies, and the bytes it will deliver.  What the program did to it is recorded: the bytes
  each \<open>Write\<close> call put on the wire with the write deadline in force, and whether it was closed.
\<close>

text \<open>\<open>WErr n e\<close>: the call wrote \<open>n\<close> bytes and returned the error \<open>e\<close>.\<close>

datatype wres = WOk | WErr nat go_error

record conn =
  c_in :: bytes
  c_out :: "(bytes \<times> int option) list"
  c_sched :: "wres list"
  c_deadline :: "int option"
  c_closed :: bool

definition SetWriteDeadline :: "int option \<Rightarrow> conn \<Rightarrow> conn" where
  "SetWriteDeadline t c = c\<lparr>c_deadline := t\<rparr>"

text \<open>A write on a closed connection or under an expired deadline fails with nothing written.\<close>

definition connWrite :: "int \<Rightarrow> bytes \<Rightarrow> conn \<Rightarrow> (nat \<times> go_error option) \<times> conn" where
  "connWrite now b c =
     (if c_closed c then ((0, Some NetErrClosed), c)
      else if (case c_deadline c of None \<Rightarrow> False | Some t \<Rightarrow> t \<le> now)
      then ((0, Some ErrDeadlineExceeded), c)
      else case c_sched c of
             WErr n e # rs \<Rightarrow>
               ((min n (length b), Some e),
                c\<lparr>c_out := c_out c @ [(take n b, c_deadline c)], c_sched := rs\<rparr>)
           | sch \<Rightarrow>
               ((length b, None),
                c\<lparr>c_out := c_out c @ [(b, c_deadline c)], c_sched := tl sch\<rparr>))"

definition connClose :: "conn \<Rightarrow> go_error option \<times> conn" where
  "connClose c = ((if c_closed c then Some NetErrClosed else None), c\<lparr>c_closed := True\<rparr>)"

text \<open>All bytes the peer has been sent.\<close>

definition wire :: "conn \<Rightarrow> bytes" where
  "wire c = concat (map fst (c_out c))"

lemma SetWriteDeadline_simps [simp]:
  "c_in (SetWriteDeadline t c) = c_in c" "c_out (SetWriteDeadline t c) = c_out c"
  "c_sched (SetWriteDeadline t c) = c_sched c" "c_closed (SetWriteDeadline t c) = c_closed c"
  "c_deadline (SetWriteDeadline t c) = t" "wire (SetWriteDeadline t c) = wire c"
  by (simp_all add: SetWriteDeadline_def wire_def)

lemma connWrite_ok:
  assumes "connWrite now b c = ((n, None), c')"
  shows "n = length b" "c_out c' = c_out c @ [(b, c_deadline c)]" "wire c' = wire c @ b"
    "c_in c' = c_in c" "c_closed c' = c_closed c" "c_deadline c' = c_deadline c" "\<not> c_closed c"
  using assms
  by (auto simp: connWrite_def wire_def split: if_splits list.splits wres.splits)

lemma connWrite_err:
  assumes "connWrite now b c = ((n, Some e), c')"
  shows "n \<le> length b" "wire c' = wire c @ take n b"
    "c_in c' = c_in c" "c_closed c' = c_closed c" "c_deadline c' = c_deadline c"
  using assms
  by (auto simp: connWrite_def wire_def min_def split: if_splits list.splits wres.splits)

lemma connWrite_frame [simp]:
  "c_in (snd (connWrite now b c)) = c_in c"
  "c_closed (snd (connWrite now b c)) = c_closed c"
  "c_deadline (snd (connWrite now b c)) = c_deadline c"
  by (auto simp: connWrite_def split: list.splits wres.splits)

lemma connClose_simps [simp]:
  "c_closed (snd (connClose c))" "c_out (snd (connClose c)) = c_out c"
  "c_in (snd (connClose c)) = c_in c" "wire (snd (connClose c)) = wire c"
  by (simp_all add: connClose_def wire_def)

end
