(* ===== verification/Padding.thy ===== *)
theory Padding
  imports Util
begin

text \<open>
  Package \<open>padding\<close> (\<open>padding/padding.go\<close>): the padding scheme, its parser, the factory built
  from it and the sampler of the authentication packet's padding length.  The MD5 digest of the
  scheme, printed in hexadecimal, is a parameter \<open>md5\<close>: the program only compares digests.
\<close>

section \<open>Data\<close>

record PaddingBucket =
  pb_Min :: int
  pb_Max :: int
  pb_Weight :: int

record PadTarget =
  pt_Min :: int
  pt_Max :: int

record RecordShaperConfig =
  PadTargets :: "PadTarget list"
  HeadersTarget :: PadTarget
  IdleSizes :: "int list"
  IdleIntervalMs :: "int \<times> int"
  IdleThresholdMs :: int
  WndUpdateInterval :: int

record PaddingFactory =
  RawScheme :: bytes
  Md5 :: string
  PadBuckets :: "PaddingBucket list"
  totalWeight :: int
  RecordConfig :: RecordShaperConfig

definition padTarget :: "int \<Rightarrow> int \<Rightarrow> PadTarget" where
  "padTarget lo hi = \<lparr>pt_Min = lo, pt_Max = hi\<rparr>"

definition paddingBucket :: "int \<Rightarrow> int \<Rightarrow> int \<Rightarrow> PaddingBucket" where
  "paddingBucket lo hi w = \<lparr>pb_Min = lo, pb_Max = hi, pb_Weight = w\<rparr>"

definition DefaultPaddingScheme :: bytes where
  "DefaultPaddingScheme = bytes_of (joinWith (CHR 0x0A)
     [''pad_dist=35-35:100'', ''pad_targets=14,14,17,17,17,45,22-30'',
      ''headers_target=90-140'', ''wnd_update_interval=131072''])"

definition DefaultRecordShaperConfig :: RecordShaperConfig where
  "DefaultRecordShaperConfig =
     \<lparr>PadTargets = [padTarget 14 14, padTarget 14 14, padTarget 17 17, padTarget 17 17,
                     padTarget 17 17, padTarget 45 45, padTarget 22 30],
      HeadersTarget = padTarget 90 140,
      IdleSizes = [],
      IdleIntervalMs = (0, 0),
      IdleThresholdMs = 0,
      WndUpdateInterval = 131072\<rparr>"

section \<open>Parsing\<close>

text \<open>The two integers of a \<open>lo-hi\<close> pair, positive and put in order.\<close>

definition orderedPair :: "string \<Rightarrow> string \<Rightarrow> (int \<times> int) option" where
  "orderedPair a b =
     (case (Atoi a, Atoi b) of
        (Some lo, Some hi) \<Rightarrow>
          if lo \<le> 0 \<or> hi \<le> 0 then None
          else if lo > hi then Some (hi, lo) else Some (lo, hi)
      | _ \<Rightarrow> None)"

text \<open>The loop bodies return \<open>None\<close> where the code says \<open>continue\<close>.\<close>

definition parsePadTarget1 :: "string \<Rightarrow> PadTarget option" where
  "parsePadTarget1 s =
     (let part = TrimSpace s; rangeParts = splitN2 (CHR ''-'') part
      in if length rangeParts = 1
         then (case Atoi (rangeParts ! 0) of
                 None \<Rightarrow> None
               | Some v \<Rightarrow> if v \<le> 0 then None else Some (padTarget v v))
         else (case orderedPair (rangeParts ! 0) (rangeParts ! 1) of
                 None \<Rightarrow> None
               | Some (lo, hi) \<Rightarrow> Some (padTarget lo hi)))"

definition parsePadTargets :: "string \<Rightarrow> PadTarget list" where
  "parsePadTargets s = List.map_filter parsePadTarget1 (splitOn (CHR '','') s)"

definition parseRange :: "string \<Rightarrow> (int \<times> int) option" where
  "parseRange s =
     (let parts = splitN2 (CHR ''-'') s
      in if length parts \<noteq> 2 then None else orderedPair (parts ! 0) (parts ! 1))"

definition parseIntList1 :: "string \<Rightarrow> int option" where
  "parseIntList1 s =
     (case Atoi (TrimSpace s) of
        Some v \<Rightarrow> if v > 0 then Some v else None
      | None \<Rightarrow> None)"

definition parseIntList :: "string \<Rightarrow> int list" where
  "parseIntList s = List.map_filter parseIntList1 (splitOn (CHR '','') s)"

definition parseBucket1 :: "string \<Rightarrow> PaddingBucket option" where
  "parseBucket1 s =
     (let part = TrimSpace s
      in case cutLast (CHR '':'') part of
           None \<Rightarrow> None
         | Some (rangePart, weightPart) \<Rightarrow>
             (case Atoi weightPart of
                None \<Rightarrow> None
              | Some weight \<Rightarrow>
                  if weight \<le> 0 then None
                  else let rangeParts = splitN2 (CHR ''-'') rangePart
                       in if length rangeParts \<noteq> 2 then None
                          else (case orderedPair (rangeParts ! 0) (rangeParts ! 1) of
                                  None \<Rightarrow> None
                                | Some (bMin, bMax) \<Rightarrow> Some (paddingBucket bMin bMax weight))))"

definition parseBuckets :: "string \<Rightarrow> PaddingBucket list" where
  "parseBuckets s = List.map_filter parseBucket1 (splitOn (CHR '','') s)"

text \<open>\<open>if s, ok := scheme[key]; ok \<dots>\<close>, one key of the scheme after the other.\<close>

definition withKey :: "StringMap \<Rightarrow> string \<Rightarrow> (string \<Rightarrow> 'a \<Rightarrow> 'a) \<Rightarrow> 'a \<Rightarrow> 'a" where
  "withKey scheme k f cfg = (case map_of scheme k of None \<Rightarrow> cfg | Some s \<Rightarrow> f s cfg)"

definition parseRecordShaperConfig :: "StringMap \<Rightarrow> RecordShaperConfig" where
  "parseRecordShaperConfig scheme =
     (let cfg = DefaultRecordShaperConfig;
          cfg = withKey scheme ''pad_targets''
                  (\<lambda>s c. let targets = parsePadTargets s
                         in if targets \<noteq> [] then c\<lparr>PadTargets := targets\<rparr> else c) cfg;
          cfg = withKey scheme ''headers_target''
                  (\<lambda>s c. case parseRange s of
                           Some (lo, hi) \<Rightarrow> c\<lparr>HeadersTarget := padTarget lo hi\<rparr>
                         | None \<Rightarrow> c) cfg;
          cfg = withKey scheme ''idle_sizes''
                  (\<lambda>s c. let sizes = parseIntList s
                         in if sizes \<noteq> [] then c\<lparr>IdleSizes := sizes\<rparr> else c) cfg;
          cfg = withKey scheme ''idle_interval''
                  (\<lambda>s c. case parseRange s of
                           Some (lo, hi) \<Rightarrow> c\<lparr>IdleIntervalMs := (lo, hi)\<rparr>
                         | None \<Rightarrow> c) cfg;
          cfg = withKey scheme ''idle_threshold''
                  (\<lambda>s c. case Atoi s of
                           Some v \<Rightarrow> if v > 0 then c\<lparr>IdleThresholdMs := v\<rparr> else c
                         | None \<Rightarrow> c) cfg
      in withKey scheme ''wnd_update_interval''
           (\<lambda>s c. case Atoi s of
                    Some v \<Rightarrow> if v > 0 then c\<lparr>WndUpdateInterval := v\<rparr> else c
                  | None \<Rightarrow> c) cfg)"

definition sumWeights :: "PaddingBucket list \<Rightarrow> int" where
  "sumWeights bs = foldl (\<lambda>acc b. wrap64 (acc + pb_Weight b)) 0 bs"

definition NewPaddingFactory :: "(bytes \<Rightarrow> string) \<Rightarrow> bytes \<Rightarrow> PaddingFactory option" where
  "NewPaddingFactory md5 rawScheme =
     (let scheme = StringMapFromBytes rawScheme
      in if length scheme = 0 then None
         else let parsed = (case map_of scheme ''pad_dist'' of
                              Some dist \<Rightarrow> parseBuckets dist
                            | None \<Rightarrow> []);
                  buckets = (if length parsed = 0 then [paddingBucket 35 35 100] else parsed)
              in Some \<lparr>RawScheme = rawScheme, Md5 = md5 rawScheme, PadBuckets = buckets,
                        totalWeight = sumWeights buckets,
                        RecordConfig = parseRecordShaperConfig scheme\<rparr>)"

text \<open>\<open>UpdatePaddingScheme\<close> stores into the shared atomic value; the model returns its new content.\<close>

definition UpdatePaddingScheme ::
    "(bytes \<Rightarrow> string) \<Rightarrow> bytes \<Rightarrow> PaddingFactory \<Rightarrow> bool \<times> PaddingFactory" where
  "UpdatePaddingScheme md5 rawScheme current =
     (case NewPaddingFactory md5 rawScheme of
        Some p \<Rightarrow> (True, p)
      | None \<Rightarrow> (False, current))"

section \<open>Sampling the padding length\<close>

text \<open>The loop over the buckets; without a hit the zero bucket remains.\<close>

fun pickBucket :: "PaddingBucket list \<Rightarrow> int \<Rightarrow> PaddingBucket" where
  "pickBucket [] pick = paddingBucket 0 0 0"
| "pickBucket (b # bs) pick =
     (if pick - pb_Weight b < 0 then b else pickBucket bs (pick - pb_Weight b))"

definition SamplePaddingLen :: "PaddingFactory \<Rightarrow> rand \<Rightarrow> int \<times> rand" where
  "SamplePaddingLen p r =
     (if length (PadBuckets p) = 0 \<or> totalWeight p \<le> 0 then (0, r)
      else let (pick, r1) = FastIntn (totalWeight p) r;
               bucket = pickBucket (PadBuckets p) pick
           in if pb_Min bucket = pb_Max bucket then (pb_Min bucket, r1)
              else let span = pb_Max bucket - pb_Min bucket + 1;
                       (off, r2) = FastIntn span r1;
                       result = pb_Min bucket + off
                   in (if result > 1100 then 1100 else result, r2))"

section \<open>Well-formed configurations\<close>

definition wf_target :: "PadTarget \<Rightarrow> bool" where
  "wf_target t \<longleftrightarrow> 1 \<le> pt_Min t \<and> pt_Min t \<le> pt_Max t \<and> pt_Max t \<le> int64_max"

definition wf_bucket :: "PaddingBucket \<Rightarrow> bool" where
  "wf_bucket b \<longleftrightarrow> 1 \<le> pb_Min b \<and> pb_Min b \<le> pb_Max b \<and> pb_Max b \<le> int64_max
     \<and> 1 \<le> pb_Weight b \<and> pb_Weight b \<le> int64_max"

definition wf_interval :: "int \<times> int \<Rightarrow> bool" where
  "wf_interval iv \<longleftrightarrow> iv = (0, 0) \<or> (1 \<le> fst iv \<and> fst iv \<le> snd iv \<and> snd iv \<le> int64_max)"

definition wf_config :: "RecordShaperConfig \<Rightarrow> bool" where
  "wf_config cfg \<longleftrightarrow>
     PadTargets cfg \<noteq> [] \<and> list_all wf_target (PadTargets cfg) \<and> wf_target (HeadersTarget cfg)
     \<and> list_all (\<lambda>n. 1 \<le> n \<and> n \<le> int64_max) (IdleSizes cfg) \<and> wf_interval (IdleIntervalMs cfg)
     \<and> 0 \<le> IdleThresholdMs cfg \<and> IdleThresholdMs cfg \<le> int64_max
     \<and> 1 \<le> WndUpdateInterval cfg \<and> WndUpdateInterval cfg \<le> int64_max"

definition wf_factory :: "PaddingFactory \<Rightarrow> bool" where
  "wf_factory p \<longleftrightarrow>
     PadBuckets p \<noteq> [] \<and> list_all wf_bucket (PadBuckets p)
     \<and> totalWeight p = sumWeights (PadBuckets p) \<and> wf_config (RecordConfig p)"

lemma list_all_map_filter:
  "(\<And>x y. f x = Some y \<Longrightarrow> P y) \<Longrightarrow> list_all P (List.map_filter f xs)"
  by (induction xs) (auto split: option.splits)

lemma orderedPair_wf:
  "orderedPair a b = Some (lo, hi) \<Longrightarrow> 1 \<le> lo \<and> lo \<le> hi \<and> hi \<le> int64_max"
  by (auto simp: orderedPair_def split: option.splits if_splits dest!: Atoi_range)

lemma parsePadTargets_wf: "list_all wf_target (parsePadTargets s)"
  unfolding parsePadTargets_def
  by (rule list_all_map_filter)
    (auto simp: parsePadTarget1_def wf_target_def padTarget_def Let_def
      split: option.splits if_splits dest!: orderedPair_wf Atoi_range)

lemma parseBuckets_wf: "list_all wf_bucket (parseBuckets s)"
  unfolding parseBuckets_def
  by (rule list_all_map_filter)
    (auto simp: parseBucket1_def wf_bucket_def paddingBucket_def Let_def
      split: option.splits if_splits dest!: orderedPair_wf Atoi_range)

lemma parseIntList_wf: "list_all (\<lambda>n. 1 \<le> n \<and> n \<le> int64_max) (parseIntList s)"
  unfolding parseIntList_def
  by (rule list_all_map_filter)
    (auto simp: parseIntList1_def split: option.splits if_splits dest!: Atoi_range)

lemma parseRange_wf: "parseRange s = Some (lo, hi) \<Longrightarrow> 1 \<le> lo \<and> lo \<le> hi \<and> hi \<le> int64_max"
  by (auto simp: parseRange_def Let_def split: if_splits dest!: orderedPair_wf)

lemma withKey_pres:
  "P cfg \<Longrightarrow> (\<And>s c. P c \<Longrightarrow> P (f s c)) \<Longrightarrow> P (withKey scheme k f cfg)"
  by (auto simp: withKey_def split: option.splits)

lemma wf_default: "wf_config DefaultRecordShaperConfig"
  by (simp add: wf_config_def DefaultRecordShaperConfig_def wf_target_def padTarget_def
      wf_interval_def int64_max_def)

text \<open>Each of the six key handlers keeps a configuration well-formed.\<close>

lemma parseRecordShaperConfig_wf: "wf_config (parseRecordShaperConfig scheme)"
  unfolding parseRecordShaperConfig_def Let_def
  by (intro withKey_pres [where P = wf_config] wf_default)
    (auto simp: wf_config_def wf_interval_def wf_target_def padTarget_def parsePadTargets_wf
      parseIntList_wf [simplified] split: option.splits
      dest!: parseRange_wf Atoi_range)

section \<open>Properties of the factory\<close>

lemma NewPaddingFactory_wf_factory:
  assumes "NewPaddingFactory md5 raw = Some p"
  shows "wf_factory p"
proof -
  have "wf_bucket (paddingBucket 35 35 100)"
    by (simp add: wf_bucket_def paddingBucket_def int64_max_def)
  with assms show ?thesis
    by (auto simp: NewPaddingFactory_def wf_factory_def parseRecordShaperConfig_wf Let_def
        parseBuckets_wf split: if_splits option.splits)
qed

text \<open>
  Property C39.  Whatever scheme a server pushes, a factory that is accepted is well-formed: it has
  at least one bucket, every bucket, target and interval is a positive ordered range, weights are
  positive, and every absent or malformed key has fallen back to a usable default.
\<close>

theorem NewPaddingFactory_wf:
  assumes "NewPaddingFactory md5 raw = Some p"
  shows "wf_factory p \<and> RawScheme p = raw \<and> Md5 p = md5 raw"
  using assms NewPaddingFactory_wf_factory [OF assms]
  by (auto simp: NewPaddingFactory_def Let_def split: if_splits)

theorem NewPaddingFactory_wf_witness:
  "\<exists>p. NewPaddingFactory (\<lambda>_. ''x'') (bytes_of ''k=v'') = Some p \<and> wf_factory p"
proof -
  have "length (StringMapFromBytes (bytes_of ''k=v'')) \<noteq> 0"
    by (simp add: StringMapFromBytes_def splitN2_def)
  then obtain p where p: "NewPaddingFactory (\<lambda>_. ''x'') (bytes_of ''k=v'') = Some p"
    by (auto simp: NewPaddingFactory_def Let_def)
  from NewPaddingFactory_wf [OF p] p show ?thesis by blast
qed

lemma fromLines_Nil_iff:
  "fromLines ls m = [] \<longleftrightarrow> m = [] \<and> (\<forall>l \<in> set ls. CHR ''='' \<notin> set l)"
proof (induction ls arbitrary: m)
  case Nil
  then show ?case by simp
next
  case (Cons l ls)
  have "AList.update a b m \<noteq> []" for a b by (cases m) auto
  with Cons show ?case by (auto simp: Let_def splitN2_def)
qed

lemma splitOn_member: "c \<noteq> sep \<Longrightarrow> (\<exists>l \<in> set (splitOn sep s). c \<in> set l) \<longleftrightarrow> c \<in> set s"
proof (induction s)
  case Nil
  then show ?case by simp
next
  case (Cons a s)
  then show ?case by (cases "splitOn sep s") auto
qed

text \<open>
  The only schemes that are rejected are those without a single equals sign; then
  \<open>UpdatePaddingScheme\<close> reports failure and leaves the current factory in place.
\<close>

theorem UpdatePaddingScheme_rejects_iff:
  "UpdatePaddingScheme md5 raw cur = (False, cur) \<longleftrightarrow> CHR ''='' \<notin> set (string_of raw)"
proof -
  have "NewPaddingFactory md5 raw = None \<longleftrightarrow> CHR ''='' \<notin> set (string_of raw)"
    using splitOn_member [of "CHR ''=''" "CHR 0x0A" "string_of raw"]
    by (auto simp: NewPaddingFactory_def StringMapFromBytes_def fromLines_Nil_iff Let_def)
  then show ?thesis by (auto simp: UpdatePaddingScheme_def split: option.splits)
qed

section \<open>Properties of the sampler\<close>

lemma sumWeights_wrap: "sumWeights bs = wrap64 (sum_list (map pb_Weight bs))"
proof -
  have "foldl (\<lambda>acc b. wrap64 (acc + pb_Weight b)) (wrap64 a) bs
      = wrap64 (a + sum_list (map pb_Weight bs))" for a
  proof (induction bs arbitrary: a)
    case Nil
    then show ?case by simp
  next
    case (Cons b bs)
    then show ?case by (simp add: add.assoc)
  qed
  from this [of 0] show ?thesis by (simp add: sumWeights_def wrap64_def)
qed

lemma sum_weights_nonneg: "list_all wf_bucket bs \<Longrightarrow> 0 \<le> sum_list (map pb_Weight bs)"
  by (induction bs) (auto simp: wf_bucket_def)

lemma totalWeight_le_sum:
  "wf_factory p \<Longrightarrow> totalWeight p \<le> sum_list (map pb_Weight (PadBuckets p))"
  by (simp add: wf_factory_def sumWeights_wrap wrap64_le sum_weights_nonneg)

lemma pickBucket_interval:
  assumes "i < length bs" "\<forall>b \<in> set bs. 0 \<le> pb_Weight b"
    "sum_list (map pb_Weight (take i bs)) \<le> pick"
    "pick < sum_list (map pb_Weight (take (Suc i) bs))"
  shows "pickBucket bs pick = bs ! i"
  using assms
proof (induction bs arbitrary: i pick)
  case Nil
  then show ?case by simp
next
  case (Cons b bs)
  show ?case
  proof (cases i)
    case 0
    with Cons.prems show ?thesis by simp
  next
    case (Suc j)
    have "0 \<le> sum_list (map pb_Weight (take j bs))"
      using Cons.prems(2) by (intro sum_list_nonneg) (auto dest: in_set_takeD)
    with Suc Cons.prems Cons.IH [of j "pick - pb_Weight b"] show ?thesis by simp
  qed
qed

lemma pickBucket_in_set:
  assumes "pick < sum_list (map pb_Weight bs)" "0 \<le> pick"
  shows "pickBucket bs pick \<in> set bs"
  using assms
proof (induction bs arbitrary: pick)
  case Nil
  then show ?case by simp
next
  case (Cons b bs)
  then show ?case using Cons.IH [of "pick - pb_Weight b"] by auto
qed

text \<open>
  The bucket loop realises the configured weights exactly: of the possible values
  of the uniform draw, those that select bucket \<open>i\<close> are the \<open>Weight\<close> consecutive ones that start
  after the weights of the buckets before it.
\<close>

theorem pickBucket_weight:
  assumes "i < length bs" "list_all wf_bucket bs"
    and "sum_list (map pb_Weight (take i bs)) \<le> pick"
    and "pick < sum_list (map pb_Weight (take i bs)) + pb_Weight (bs ! i)"
  shows "pickBucket bs pick = bs ! i"
proof (rule pickBucket_interval)
  show "\<forall>b \<in> set bs. 0 \<le> pb_Weight b"
    using assms(2) by (auto simp: list_all_iff wf_bucket_def)
  show "pick < sum_list (map pb_Weight (take (Suc i) bs))"
    using assms(1,4) by (simp add: take_Suc_conv_app_nth)
qed (use assms in auto)

theorem pickBucket_weight_witness:
  "pickBucket [paddingBucket 10 20 70, paddingBucket 100 200 30] 75 = paddingBucket 100 200 30"
  using pickBucket_weight [of 1 "[paddingBucket 10 20 70, paddingBucket 100 200 30]" 75]
  by (simp add: wf_bucket_def paddingBucket_def int64_max_def)

text \<open>What one sample can be, given the bucket it came from.\<close>

definition sample_of :: "PaddingBucket \<Rightarrow> int \<Rightarrow> bool" where
  "sample_of b v \<longleftrightarrow>
     (if pb_Min b = pb_Max b then v = pb_Min b
      else min (pb_Min b) 1100 \<le> v \<and> v \<le> min (pb_Max b) 1100)"

lemma SamplePaddingLen_bucket:
  assumes "wf_factory p" "0 < totalWeight p"
  shows "\<exists>b \<in> set (PadBuckets p). sample_of b (fst (SamplePaddingLen p r))"
proof -
  obtain pick r1 where d: "FastIntn (totalWeight p) r = (pick, r1)" by fastforce
  let ?b = "pickBucket (PadBuckets p) pick"
  have "0 \<le> pick" "pick < totalWeight p"
    using FastIntn_range [OF d] assms(2) by auto
  then have b: "?b \<in> set (PadBuckets p)"
    using totalWeight_le_sum [OF assms(1)] by (intro pickBucket_in_set) auto
  with assms(1) have wf: "pb_Min ?b \<le> pb_Max ?b" "PadBuckets p \<noteq> []"
    by (auto simp: wf_factory_def list_all_iff wf_bucket_def)
  obtain off r2 where o: "FastIntn (pb_Max ?b - pb_Min ?b + 1) r1 = (off, r2)" by fastforce
  have "0 \<le> off" "off < pb_Max ?b - pb_Min ?b + 1"
    using FastIntn_range [OF o] wf(1) by auto
  then have "sample_of ?b (fst (SamplePaddingLen p r))"
    using assms(2) wf d o by (auto simp: SamplePaddingLen_def sample_of_def Let_def)
  with b show ?thesis ..
qed

text \<open>
  For every accepted scheme whose fixed-size buckets are at most 1100 bytes (and
  every mixture of ranges), the sampled padding is positive and at most 1100 bytes, so the
  authentication packet (34 bytes plus padding) fits the first TLS record.
\<close>

theorem SamplePaddingLen_bounded:
  assumes "NewPaddingFactory md5 raw = Some p" "0 < totalWeight p"
    and "\<forall>b \<in> set (PadBuckets p). pb_Min b = pb_Max b \<longrightarrow> pb_Min b \<le> 1100"
  shows "1 \<le> fst (SamplePaddingLen p r) \<and> fst (SamplePaddingLen p r) \<le> 1100"
proof -
  have wf: "wf_factory p" using assms(1) by (rule NewPaddingFactory_wf_factory)
  then obtain b where b: "b \<in> set (PadBuckets p)" "sample_of b (fst (SamplePaddingLen p r))"
    using SamplePaddingLen_bucket [OF wf assms(2)] by blast
  moreover from wf b(1) have "1 \<le> pb_Min b"
    by (auto simp: wf_factory_def list_all_iff wf_bucket_def)
  ultimately show ?thesis using assms(3) by (auto simp: sample_of_def split: if_splits)
qed

theorem SamplePaddingLen_bounded_witness:
  "\<exists>p. NewPaddingFactory (\<lambda>_. ''x'') (bytes_of ''k=v'') = Some p \<and>
     fst (SamplePaddingLen p [7]) \<le> 1100"
proof -
  have "StringMapFromBytes (bytes_of ''k=v'') = [(''k'', ''v'')]"
    by (simp add: StringMapFromBytes_def splitN2_def)
  then obtain p where p: "NewPaddingFactory (\<lambda>_. ''x'') (bytes_of ''k=v'') = Some p"
      "PadBuckets p = [paddingBucket 35 35 100]" "totalWeight p = 100"
    by (auto simp: NewPaddingFactory_def sumWeights_wrap paddingBucket_def int64_min_def int64_max_def
        Let_def)
  with SamplePaddingLen_bounded [OF p(1), of "[7]"] show ?thesis by (simp add: paddingBucket_def)
qed

section \<open>The built-in scheme and two deviations from the documentation\<close>

lemma default_scheme_map:
  "StringMapFromBytes DefaultPaddingScheme =
     [(''pad_dist'', ''35-35:100''), (''pad_targets'', ''14,14,17,17,17,45,22-30''),
      (''headers_target'', ''90-140''), (''wnd_update_interval'', ''131072'')]" (is "_ = ?m")
proof -
  have "DefaultPaddingScheme = ToBytes ?m"
    by (simp add: DefaultPaddingScheme_def ToBytes_def)
  moreover have "clean_map ?m" by (simp add: clean_map_def)
  ultimately show ?thesis by (metis fromBytes_ToBytes)
qed

lemmas parse_eval = splitN2_def splitOn.simps TrimSpace_id space_free_ends_def utf8_spaces_def
  Atoi_def is_digit_def digits_val_def orderedPair_def int64_min_def int64_max_def cutLast_def
  parsePadTargets_def parsePadTarget1_def parseBuckets_def parseBucket1_def parseRange_def
  Let_def

lemma parse_defaults:
  "parsePadTargets ''14,14,17,17,17,45,22-30'' =
     [padTarget 14 14, padTarget 14 14, padTarget 17 17, padTarget 17 17, padTarget 17 17,
      padTarget 45 45, padTarget 22 30]"
  "parseBuckets ''35-35:100'' = [paddingBucket 35 35 100]"
  "parseRange ''90-140'' = Some (90, 140)"
  "Atoi ''131072'' = Some 131072"
  by (simp_all add: parse_eval)

text \<open>
  The textual default scheme and the built-in default configuration agree, and
  every authentication packet under it is padded by exactly 35 bytes (69 bytes in all, the size of
  an HTTP/2 connection preface), whatever the generator answers.
\<close>

theorem default_scheme_parsed:
  "\<exists>p. NewPaddingFactory md5 DefaultPaddingScheme = Some p \<and>
     RecordConfig p = DefaultRecordShaperConfig \<and> PadBuckets p = [paddingBucket 35 35 100] \<and>
     totalWeight p = 100 \<and> (\<forall>r. 32 + 2 + fst (SamplePaddingLen p r) = 69)"
proof -
  have "sumWeights [paddingBucket 35 35 100] = 100"
    by (simp add: sumWeights_wrap paddingBucket_def int64_min_def int64_max_def)
  then show ?thesis
    by (auto simp: NewPaddingFactory_def default_scheme_map parse_defaults withKey_def
        parseRecordShaperConfig_def DefaultRecordShaperConfig_def SamplePaddingLen_def
        paddingBucket_def Let_def split: prod.splits dest: FastIntn_range(2))
qed

lemma single_key_map:
  assumes "CHR ''='' \<notin> set k" "CHR 0x0A \<notin> set k" "CHR 0x0A \<notin> set v"
  shows "StringMapFromBytes (bytes_of (k @ ''='' @ v)) = [(k, v)]"
  using assms fromBytes_ToBytes [of "[(k, v)]"] by (simp add: clean_map_def ToBytes_def)

text \<open>
  Unlike what README and the comment in \<open>SamplePaddingLen\<close> say, the 1100-byte cap is
  not applied to a bucket with equal ends: the scheme \<open>pad_dist=5000-5000:1\<close> is accepted and pads
  every authentication packet by 5000 bytes.
\<close>

theorem fixed_bucket_escapes_cap:
  "\<exists>p. NewPaddingFactory md5 (bytes_of ''pad_dist=5000-5000:1'') = Some p \<and>
     (\<forall>r. fst (SamplePaddingLen p r) = 5000)"
proof -
  have m: "StringMapFromBytes (bytes_of ''pad_dist=5000-5000:1'') = [(''pad_dist'', ''5000-5000:1'')]"
    using single_key_map [of "''pad_dist''" "''5000-5000:1''"] by simp
  have b: "parseBuckets ''5000-5000:1'' = [paddingBucket 5000 5000 1]"
    by (simp add: parse_eval)
  have "sumWeights [paddingBucket 5000 5000 1] = 1"
    by (simp add: sumWeights_wrap paddingBucket_def int64_min_def int64_max_def)
  then show ?thesis
    using m b by (auto simp: NewPaddingFactory_def SamplePaddingLen_def paddingBucket_def Let_def)
qed

text \<open>
  Deviation (README, where 0 disables the injection).  The scheme line
  \<open>wnd_update_interval=0\<close> does not disable the WINDOW_UPDATE injection but leaves the default
  interval in force.
\<close>

theorem wnd_update_interval_zero_ignored:
  "\<exists>p. NewPaddingFactory md5 (bytes_of ''wnd_update_interval=0'') = Some p \<and>
     WndUpdateInterval (RecordConfig p) = 131072"
proof -
  have m: "StringMapFromBytes (bytes_of ''wnd_update_interval=0'') = [(''wnd_update_interval'', ''0'')]"
    using single_key_map [of "''wnd_update_interval''" "''0''"] by simp
  then show ?thesis
    by (auto simp: NewPaddingFactory_def parseRecordShaperConfig_def withKey_def parse_eval
        DefaultRecordShaperConfig_def)
qed

end
