(* ===== verification/RecordShaper.thy ===== *)
theory RecordShaper
  imports Conn Padding
begin

text \<open>
  \<open>session/record_shaper.go\<close>: the layer between the frame writers and the TLS connection that pads
  control frames and the initial flush with trailing \<open>cmdWaste\<close> frames and builds idle frames.
  The shared atomic pointer \<open>paddingSrc\<close> is read as the argument \<open>pf\<close>, the clock as \<open>now\<close>, the
  generator is threaded as \<open>rand\<close>.  The shaper owns the session's connection.
\<close>

section \<open>State\<close>

definition padRetries :: nat where [simp]: "padRetries = 3"
definition maxPadTargetsStack :: nat where [simp]: "maxPadTargetsStack = 16"
definition writeDeadline :: duration where [simp]: "writeDeadline = 5 * 1000000000"
definition millisecond :: duration where [simp]: "millisecond = 1000000"

record RecordShaper =
  rs_conn :: conn
  rs_LastWrite :: int
  rs_cfg :: RecordShaperConfig
  rs_lastCfgMd5 :: string
  rs_maxTarget :: int

definition computeMaxTarget :: "RecordShaperConfig \<Rightarrow> int" where
  "computeMaxTarget cfg = foldl (\<lambda>m t. if pt_Max t > m then pt_Max t else m) 0 (PadTargets cfg)"

definition newRecordShaper :: "conn \<Rightarrow> PaddingFactory \<Rightarrow> int \<Rightarrow> RecordShaper" where
  "newRecordShaper c pf now =
     \<lparr>rs_conn = c, rs_LastWrite = now, rs_cfg = RecordConfig pf, rs_lastCfgMd5 = Md5 pf,
      rs_maxTarget = computeMaxTarget (RecordConfig pf)\<rparr>"

definition maybeRefreshConfig :: "PaddingFactory \<Rightarrow> RecordShaper \<Rightarrow> RecordShaper" where
  "maybeRefreshConfig pf rs =
     (if Md5 pf \<noteq> rs_lastCfgMd5 rs
      then rs\<lparr>rs_cfg := RecordConfig pf, rs_lastCfgMd5 := Md5 pf,
              rs_maxTarget := computeMaxTarget (RecordConfig pf)\<rparr>
      else rs)"

section \<open>Waste frames\<close>

text \<open>
  The two-byte length is written byte by byte.  Reusing the spare capacity of \<open>b\<close> and allocating a
  fresh slice write the same bytes, so the capacity is not part of the model.
\<close>

definition clampWaste :: "int \<Rightarrow> nat" where
  "clampWaste n = nat (if n < 0 then 0 else if n > int maxFrameDataLen then int maxFrameDataLen else n)"

definition randomPayload :: "nat \<Rightarrow> rand \<Rightarrow> bytes \<times> rand" where
  "randomPayload n r = (if n > 0 then FillRandom n r else ([], r))"

lemma length_randomPayload [simp]: "length (fst (randomPayload n r)) = n"
  by (simp add: randomPayload_def)

definition appendWasteFrame :: "bytes \<Rightarrow> int \<Rightarrow> rand \<Rightarrow> bytes \<times> rand" where
  "appendWasteFrame b targetSize r =
     (let wastePayload = clampWaste (targetSize - int (length b) - int headerOverHeadSize);
          (filler, r') = randomPayload wastePayload r
      in (b @ [cmdWaste, 0, 0, 0, 0, word_of_nat (wastePayload div 256), word_of_nat (wastePayload mod 256)]
            @ filler, r'))"

definition padToHeadersTarget ::
    "PaddingFactory \<Rightarrow> bytes \<Rightarrow> RecordShaper \<Rightarrow> rand \<Rightarrow> bytes option \<times> RecordShaper \<times> rand" where
  "padToHeadersTarget pf b rs0 r =
     (let rs = maybeRefreshConfig pf rs0;
          target = HeadersTarget (rs_cfg rs);
          minTarget = int (length b) + int headerOverHeadSize
      in if pt_Max target \<le> 0 then (None, rs, r)
         else if minTarget > pt_Max target then (None, rs, r)
         else let lo = (if pt_Min target < minTarget then minTarget else pt_Min target)
              in if lo > pt_Max target then (None, rs, r)
                 else let (chosen, r1) =
                            (if lo = pt_Max target then (lo, r)
                             else let (off, r') = FastIntn (pt_Max target - lo + 1) r
                                  in (lo + off, r'));
                          (out, r2) = appendWasteFrame b chosen r1
                      in (Some out, rs, r2))"

text \<open>The rejection-sampling loop of \<open>padControlFrame\<close>, \<open>attempts\<close> rounds left.\<close>

fun sampleTarget :: "nat \<Rightarrow> PadTarget list \<Rightarrow> int \<Rightarrow> rand \<Rightarrow> PadTarget option \<times> rand" where
  "sampleTarget 0 targets minTarget r = (None, r)"
| "sampleTarget (Suc attempts) targets minTarget r =
     (let (i, r') = FastIntn (int (length targets)) r; candidate = targets ! nat i
      in if pt_Max candidate \<ge> minTarget then (Some candidate, r')
         else sampleTarget attempts targets minTarget r')"

definition feasibleTargets :: "PadTarget list \<Rightarrow> int \<Rightarrow> PadTarget list" where
  "feasibleTargets targets minTarget =
     take maxPadTargetsStack (filter (\<lambda>t. pt_Max t \<ge> minTarget) targets)"

definition chooseSize :: "PadTarget \<Rightarrow> int \<Rightarrow> rand \<Rightarrow> int \<times> rand" where
  "chooseSize picked minTarget r =
     (if pt_Min picked = pt_Max picked then (pt_Min picked, r)
      else let lo = (if pt_Min picked < minTarget then minTarget else pt_Min picked)
           in if lo > pt_Max picked then (pt_Max picked, r)
              else let (off, r') = FastIntn (pt_Max picked - lo + 1) r in (lo + off, r'))"

definition padControlFrame :: "RecordShaper \<Rightarrow> bytes \<Rightarrow> rand \<Rightarrow> bytes option \<times> rand" where
  "padControlFrame rs b r =
     (let targets = PadTargets (rs_cfg rs); minTarget = int (length b) + int headerOverHeadSize
      in if length targets = 0 then (None, r)
         else let (found, r1) = sampleTarget padRetries targets minTarget r;
                  (picked, r2) =
                    (case found of
                       Some t \<Rightarrow> (Some t, r1)
                     | None \<Rightarrow>
                         (let feasible = feasibleTargets targets minTarget; nFeasible = length feasible
                          in if nFeasible = 0 then (None, r1)
                             else let (i, r') = FastIntn (int nFeasible) r1
                                  in (Some (feasible ! nat i), r')))
              in case picked of
                   None \<Rightarrow> (None, r2)
                 | Some t \<Rightarrow>
                     (let (target, r3) = chooseSize t minTarget r2;
                          (out, r4) = appendWasteFrame b target r3
                      in (Some out, r4)))"

section \<open>Writing\<close>

definition WriteData :: "int \<Rightarrow> bytes \<Rightarrow> RecordShaper \<Rightarrow> (nat \<times> go_error option) \<times> RecordShaper" where
  "WriteData now b rs =
     (let ((n, err), c) = connWrite now b (rs_conn rs);
          rs = rs\<lparr>rs_conn := c\<rparr>
      in ((n, err), if err = None then rs\<lparr>rs_LastWrite := now\<rparr> else rs))"

text \<open>
  Set the five-second deadline, write, clear it: the common tail of \<open>WriteInitialFlush\<close> and
  \<open>WriteControl\<close>.
\<close>

definition writeWithDeadline :: "int \<Rightarrow> bytes \<Rightarrow> RecordShaper \<Rightarrow> go_error option \<times> RecordShaper" where
  "writeWithDeadline now b rs =
     (let c1 = SetWriteDeadline (Some (now + writeDeadline)) (rs_conn rs);
          ((_, err), c2) = connWrite now b c1;
          rs = rs\<lparr>rs_conn := SetWriteDeadline None c2\<rparr>
      in (err, if err = None then rs\<lparr>rs_LastWrite := now\<rparr> else rs))"

definition WriteInitialFlush ::
    "PaddingFactory \<Rightarrow> int \<Rightarrow> bytes \<Rightarrow> RecordShaper \<Rightarrow> rand
     \<Rightarrow> (nat \<times> go_error option) \<times> RecordShaper \<times> rand" where
  "WriteInitialFlush pf now b rs0 r =
     (let total = length b;
          (padded, rs, r1) = padToHeadersTarget pf b rs0 r;
          out = (case padded of Some p \<Rightarrow> p | None \<Rightarrow> b);
          (err, rs') = writeWithDeadline now out rs
      in ((total, err), rs', r1))"

definition WriteControl ::
    "PaddingFactory \<Rightarrow> int \<Rightarrow> bytes \<Rightarrow> RecordShaper \<Rightarrow> rand
     \<Rightarrow> (nat \<times> go_error option) \<times> RecordShaper \<times> rand" where
  "WriteControl pf now b rs0 r =
     (let total = length b;
          rs = maybeRefreshConfig pf rs0;
          (padded, r1) = (if int (length b) < rs_maxTarget rs then padControlFrame rs b r else (None, r));
          out = (case padded of Some p \<Rightarrow> p | None \<Rightarrow> b);
          (err, rs') = writeWithDeadline now out rs
      in ((total, err), rs', r1))"

section \<open>Idle injection\<close>

definition BuildIdleFrame ::
    "PaddingFactory \<Rightarrow> int \<Rightarrow> RecordShaper \<Rightarrow> rand \<Rightarrow> bytes option \<times> RecordShaper \<times> rand" where
  "BuildIdleFrame pf now rs0 r =
     (let rs = maybeRefreshConfig pf rs0
      in if length (IdleSizes (rs_cfg rs)) = 0 then (None, rs, r)
         else let thresholdMs = (if IdleThresholdMs (rs_cfg rs) \<le> 0 then fst (IdleIntervalMs (rs_cfg rs))
                                 else IdleThresholdMs (rs_cfg rs))
              in if thresholdMs \<le> 0 then (None, rs, r)
                 else let idleThreshold = wrap64 (thresholdMs * millisecond)
                      in if now - rs_LastWrite rs < idleThreshold then (None, rs, r)
                         else let sizes = IdleSizes (rs_cfg rs);
                                  (i, r1) = FastIntn (int (length sizes)) r;
                                  wastePayload = clampWaste (sizes ! nat i - int headerOverHeadSize);
                                  (filler, r2) = randomPayload wastePayload r1
                              in (Some (frameHeader cmdWaste 0 wastePayload @ filler), rs, r2))"

definition IdleEnabled :: "RecordShaper \<Rightarrow> bool" where
  "IdleEnabled rs \<longleftrightarrow> length (IdleSizes (rs_cfg rs)) > 0 \<and> snd (IdleIntervalMs (rs_cfg rs)) > 0"

definition IdleInterval :: "RecordShaper \<Rightarrow> rand \<Rightarrow> duration \<times> rand" where
  "IdleInterval rs r =
     (let lo = fst (IdleIntervalMs (rs_cfg rs)); hi = snd (IdleIntervalMs (rs_cfg rs))
      in if lo \<le> 0 \<or> hi \<le> 0 \<or> lo > hi then (wrap64 (lo * millisecond), r)
         else let (off, r') = FastIntn (hi - lo + 1) r in (wrap64 ((lo + off) * millisecond), r'))"

section \<open>Waste frames are frames\<close>

definition wasteFrame :: "bytes \<Rightarrow> frame" where
  "wasteFrame w = \<lparr>f_cmd = cmdWaste, f_sid = 0, f_data = w\<rparr>"

lemma byte_split16:
  assumes "n \<le> 65535"
  shows "(ucast (drop_bit 8 (word_of_nat n :: u16)) :: byte) = word_of_nat (n div 256)"
    and "(ucast (word_of_nat n :: u16) :: byte) = word_of_nat (n mod 256)"
proof -
  let ?w = "word_of_nat n :: u16"
  have u: "unat ?w = n" using assms by (rule unat_of_nat16)
  have "(ucast (drop_bit 8 ?w) :: byte) = word_of_nat (unat (drop_bit 8 ?w))"
    by simp
  also have "unat (drop_bit 8 ?w) = drop_bit 8 (unat ?w)" by (rule unat_drop_bit_eq)
  also have "\<dots> = n div 256" by (simp only: u drop_bit_eq_div) simp
  finally show "(ucast (drop_bit 8 ?w) :: byte) = word_of_nat (n div 256)" .
  have "(ucast ?w :: byte) = word_of_nat (unat ?w)" by simp
  then show "(ucast ?w :: byte) = word_of_nat (n mod 256)"
    by (simp only: u) (simp add: word_of_nat_eq_iff take_bit_eq_mod)
qed

lemma waste_header:
  assumes "n \<le> 65535"
  shows "[cmdWaste, 0, 0, 0, 0, word_of_nat (n div 256), word_of_nat (n mod 256)] = frameHeader cmdWaste 0 n"
  using assms by (simp add: frameHeader_def putUint32_def putUint16_def byte_split16)

lemma clampWaste_le [simp]: "clampWaste n \<le> 65535"
  by (auto simp: clampWaste_def nat_le_iff)

lemma clampWaste_id: "0 \<le> n \<Longrightarrow> n \<le> 65535 \<Longrightarrow> clampWaste n = nat n"
  by (simp add: clampWaste_def)

lemma appendWasteFrame_frame:
  obtains w where "fst (appendWasteFrame b t r) = b @ encodeFrame (wasteFrame w)"
    and "length w = clampWaste (t - int (length b) - 7)"
proof -
  let ?n = "clampWaste (t - int (length b) - 7)"
  let ?w = "fst (randomPayload ?n r)"
  have "length ?w = ?n" by simp
  moreover have "fst (appendWasteFrame b t r) = b @ frameHeader cmdWaste 0 ?n @ ?w"
    by (simp only: waste_header [symmetric, OF clampWaste_le])
      (simp add: appendWasteFrame_def Let_def split: prod.splits)
  ultimately show thesis
    using that [of ?w] by (simp add: encodeFrame_def wasteFrame_def del: fst_conv)
qed

section \<open>The contract of a padder\<close>

text \<open>
  What the frame layer relies on: a padder either declines or appends exactly one waste frame of
  legal length.  Then the receiver decodes the frames of the unpadded blob and possibly one waste
  frame, and nothing else.
\<close>

definition payload_frames :: "frame list \<Rightarrow> frame list" where
  "payload_frames fs = filter (\<lambda>f. f_cmd f \<noteq> cmdWaste) fs"

lemma payload_frames_append [simp]: "payload_frames (fs @ gs) = payload_frames fs @ payload_frames gs"
  by (simp add: payload_frames_def)

lemma payload_frames_waste [simp]: "payload_frames [wasteFrame w] = []"
  by (simp add: payload_frames_def wasteFrame_def)

locale waste_padder =
  fixes pad :: "bytes \<Rightarrow> 's \<Rightarrow> bytes option"
  assumes pad_appends:
    "pad b s = Some out \<Longrightarrow> \<exists>w. length w \<le> maxFrameDataLen \<and> out = b @ encodeFrame (wasteFrame w)"
begin

lemma pad_frames:
  assumes "\<forall>f \<in> set fs. wire_ok f"
  shows "\<exists>ws. (ws = [] \<or> (\<exists>w. ws = [wasteFrame w])) \<and>
    decodeFrames (case pad (encodeFrames fs) s of Some p \<Rightarrow> p | None \<Rightarrow> encodeFrames fs) = (fs @ ws, [])"
proof (cases "pad (encodeFrames fs) s")
  case None
  then show ?thesis using decodeFrames_append [OF assms, of "[]"] by simp
next
  case (Some out)
  from pad_appends [OF Some] obtain w where w: "length w \<le> maxFrameDataLen"
    and out: "out = encodeFrames fs @ encodeFrame (wasteFrame w)" by blast
  have "decodeFrames out = (fs @ [wasteFrame w], [])"
    using decodeFrames_append [OF assms, of "encodeFrame (wasteFrame w)"]
      decodeFrames_encode [of "wasteFrame w" "[]"] w out
    by (simp add: wasteFrame_def)
  with Some show ?thesis by auto
qed

lemma pad_grows: "pad b s = Some out \<Longrightarrow> length b + 7 \<le> length out"
  by (auto dest: pad_appends)

end

interpretation hdrs: waste_padder "\<lambda>b (rs, r). fst (padToHeadersTarget pf b rs r)" for pf
proof (unfold_locales, clarsimp)
  fix b rs r out
  assume "fst (padToHeadersTarget pf b rs r) = Some out"
  then obtain t r' where "out = fst (appendWasteFrame b t r')"
    by (auto simp: padToHeadersTarget_def Let_def split: if_splits prod.splits) (metis fst_conv)+
  then show "\<exists>w. length w \<le> 65535 \<and> out = b @ encodeFrame (wasteFrame w)"
    by (metis appendWasteFrame_frame clampWaste_le)
qed

interpretation ctl: waste_padder "\<lambda>b (rs, r). fst (padControlFrame rs b r)"
proof (unfold_locales, clarsimp)
  fix b rs r out
  assume "fst (padControlFrame rs b r) = Some out"
  then obtain t r' where "out = fst (appendWasteFrame b t r')"
    by (auto simp: padControlFrame_def Let_def split: if_splits prod.splits option.splits) (metis fst_conv)+
  then show "\<exists>w. length w \<le> 65535 \<and> out = b @ encodeFrame (wasteFrame w)"
    by (metis appendWasteFrame_frame clampWaste_le)
qed

section \<open>What the writers put on the wire\<close>

lemma maybeRefreshConfig_conn [simp]:
  "rs_conn (maybeRefreshConfig pf rs) = rs_conn rs"
  "rs_LastWrite (maybeRefreshConfig pf rs) = rs_LastWrite rs"
  by (simp_all add: maybeRefreshConfig_def)

lemma padToHeadersTarget_state [simp]:
  "fst (snd (padToHeadersTarget pf b rs r)) = maybeRefreshConfig pf rs"
  by (auto simp: padToHeadersTarget_def Let_def split: prod.splits)

lemma writeWithDeadline_ok:
  assumes "writeWithDeadline now b rs = (None, rs')"
  shows "c_out (rs_conn rs') = c_out (rs_conn rs) @ [(b, Some (now + 5 * 1000000000))]"
    and "c_deadline (rs_conn rs') = None" and "rs_LastWrite rs' = now"
  using assms
  by (auto simp: writeWithDeadline_def Let_def dest: connWrite_ok split: prod.splits if_splits)

definition optional_waste :: "frame list \<Rightarrow> bool" where
  "optional_waste ws \<longleftrightarrow> ws = [] \<or> (\<exists>w. ws = [wasteFrame w])"

lemma WriteControl_out:
  assumes "WriteControl pf now b rs r = ((n, None), rs', r')"
  obtains padded where
    "padded = None \<or> padded = fst (padControlFrame (maybeRefreshConfig pf rs) b r)"
    "c_out (rs_conn rs') = c_out (rs_conn rs)
       @ [(case padded of Some p \<Rightarrow> p | None \<Rightarrow> b, Some (now + 5 * 1000000000))]"
    "n = length b"
proof -
  let ?rs = "maybeRefreshConfig pf rs"
  let ?p = "fst (if int (length b) < rs_maxTarget ?rs then padControlFrame ?rs b r else (None, r))"
  from assms have w: "writeWithDeadline now (case ?p of Some p \<Rightarrow> p | None \<Rightarrow> b) ?rs = (None, rs')"
    and n: "n = length b"
    by (auto simp: WriteControl_def Let_def split: prod.splits if_splits)
  show thesis
    using that [of ?p] writeWithDeadline_ok(1) [OF w] n by simp
qed

text \<open>
  Property C36.  A successful control write puts exactly one record on the connection, under the
  five-second deadline, and the receiver decodes from it the frames that were handed in followed
  by at most one waste frame: padding is invisible to the frame layer.
\<close>

theorem WriteControl_transparent:
  assumes "\<forall>f \<in> set fs. wire_ok f"
    and "WriteControl pf now (encodeFrames fs) rs r = ((n, None), rs', r')"
  shows "\<exists>out ws. c_out (rs_conn rs') = c_out (rs_conn rs) @ [(out, Some (now + 5 * 1000000000))]
    \<and> decodeFrames out = (fs @ ws, []) \<and> optional_waste ws \<and> n = length (encodeFrames fs)"
proof -
  obtain padded where p: "padded = None \<or> padded = fst (padControlFrame (maybeRefreshConfig pf rs) (encodeFrames fs) r)"
    and o: "c_out (rs_conn rs') = c_out (rs_conn rs)
       @ [(case padded of Some p \<Rightarrow> p | None \<Rightarrow> encodeFrames fs, Some (now + 5 * 1000000000))]"
    and n: "n = length (encodeFrames fs)"
    by (rule WriteControl_out [OF assms(2)])
  have "\<exists>ws. optional_waste ws \<and>
      decodeFrames (case padded of Some p \<Rightarrow> p | None \<Rightarrow> encodeFrames fs) = (fs @ ws, [])"
    using p
  proof
    assume "padded = None"
    then show ?thesis using decodeFrames_append [OF assms(1), of "[]"] by (simp add: optional_waste_def)
  next
    assume "padded = fst (padControlFrame (maybeRefreshConfig pf rs) (encodeFrames fs) r)"
    then show ?thesis
      using ctl.pad_frames [OF assms(1), of "(maybeRefreshConfig pf rs, r)"]
      by (simp add: optional_waste_def)
  qed
  with o n show ?thesis by blast
qed

text \<open>
  Property C37.  The initial flush is transparent in the same way.
\<close>

theorem WriteInitialFlush_transparent:
  assumes "\<forall>f \<in> set fs. wire_ok f"
    and "WriteInitialFlush pf now (encodeFrames fs) rs r = ((n, None), rs', r')"
  shows "\<exists>out ws. c_out (rs_conn rs') = c_out (rs_conn rs) @ [(out, Some (now + 5 * 1000000000))]
    \<and> decodeFrames out = (fs @ ws, []) \<and> optional_waste ws \<and> n = length (encodeFrames fs)"
proof -
  let ?p = "fst (padToHeadersTarget pf (encodeFrames fs) rs r)"
  let ?out = "case ?p of Some p \<Rightarrow> p | None \<Rightarrow> encodeFrames fs"
  obtain padded r1 where p: "padToHeadersTarget pf (encodeFrames fs) rs r = (padded, maybeRefreshConfig pf rs, r1)"
    using padToHeadersTarget_state [of pf "encodeFrames fs" rs r] by (metis prod.collapse)
  have "writeWithDeadline now ?out (maybeRefreshConfig pf rs) = (None, rs')" "n = length (encodeFrames fs)"
    using assms(2) p by (auto simp: WriteInitialFlush_def Let_def split: prod.splits)
  then have o: "c_out (rs_conn rs') = c_out (rs_conn rs) @ [(?out, Some (now + 5 * 1000000000))]"
    and n: "n = length (encodeFrames fs)"
    by (auto dest: writeWithDeadline_ok(1))
  from hdrs.pad_frames [OF assms(1), of pf "(rs, r)"] obtain ws where
    "optional_waste ws" "decodeFrames ?out = (fs @ ws, [])"
    by (auto simp: optional_waste_def)
  with o n show ?thesis by blast
qed

section \<open>Sizes\<close>

lemma sampleTarget_in:
  assumes "sampleTarget k targets m r = (Some t, r')" "targets \<noteq> []"
  shows "t \<in> set targets \<and> m \<le> pt_Max t"
  using assms
proof (induction k arbitrary: r)
  case 0
  then show ?case by simp
next
  case (Suc k)
  obtain i r1 where i: "FastIntn (int (length targets)) r = (i, r1)" by fastforce
  have "nat i < length targets"
    using FastIntn_range [OF i] Suc.prems(2) by (cases targets) auto
  then show ?case using Suc i by (auto simp: Let_def split: if_splits)
qed

lemma chooseSize_range:
  assumes "wf_target t" "m \<le> pt_Max t" "chooseSize t m r = (v, r')"
  shows "pt_Min t \<le> v \<and> v \<le> pt_Max t \<and> m \<le> v"
proof -
  let ?lo = "if pt_Min t < m then m else pt_Min t"
  obtain off r1 where o: "FastIntn (pt_Max t - ?lo + 1) r = (off, r1)" by fastforce
  have "?lo \<le> pt_Max t" using assms(1,2) by (auto simp: wf_target_def)
  then have "0 \<le> off" "off \<le> pt_Max t - ?lo" using FastIntn_range [OF o] by auto
  then show ?thesis
    using assms o by (auto simp: chooseSize_def wf_target_def Let_def split: if_splits prod.splits)
qed

lemma feasibleTargets_Nil_iff: "feasibleTargets ts m = [] \<longleftrightarrow> (\<forall>t \<in> set ts. pt_Max t < m)"
  by (auto simp: feasibleTargets_def filter_empty_conv not_le)

text \<open>The two ways a control frame is treated: no target is large enough, or one was chosen.\<close>

lemma padControlFrame_cases:
  assumes "PadTargets (rs_cfg rs) \<noteq> []" "list_all wf_target (PadTargets (rs_cfg rs))"
  obtains
    (declined) "\<forall>t \<in> set (PadTargets (rs_cfg rs)). pt_Max t < int (length b) + 7"
      "fst (padControlFrame rs b r) = None"
  | (padded) t v r' where "t \<in> set (PadTargets (rs_cfg rs))" "int (length b) + 7 \<le> v"
      "pt_Min t \<le> v" "v \<le> pt_Max t"
      "fst (padControlFrame rs b r) = Some (fst (appendWasteFrame b v r'))"
proof -
  let ?ts = "PadTargets (rs_cfg rs)" and ?m = "int (length b) + 7"
  obtain found r1 where s: "sampleTarget padRetries ?ts ?m r = (found, r1)" by fastforce
  have choose: thesis if t: "t \<in> set ?ts" "?m \<le> pt_Max t"
    and p: "\<And>v r3. chooseSize t ?m r2 = (v, r3) \<Longrightarrow>
      fst (padControlFrame rs b r) = Some (fst (appendWasteFrame b v r3))" for t r2
  proof -
    obtain v r3 where c: "chooseSize t ?m r2 = (v, r3)" by fastforce
    have "wf_target t" using assms(2) t(1) by (auto simp: list_all_iff)
    from chooseSize_range [OF this t(2) c] p [OF c] t(1) show thesis by (auto intro: padded)
  qed
  show thesis
  proof (cases found)
    case (Some t)
    show thesis
    proof (rule choose)
      show "t \<in> set ?ts" "?m \<le> pt_Max t" using sampleTarget_in s Some assms(1) by auto
      show "\<And>v r3. chooseSize t ?m r1 = (v, r3) \<Longrightarrow>
          fst (padControlFrame rs b r) = Some (fst (appendWasteFrame b v r3))"
        using s Some assms(1) by (simp add: padControlFrame_def Let_def split: prod.splits)
    qed
  next
    case None
    let ?fs = "feasibleTargets ?ts ?m"
    show thesis
    proof (cases "?fs = []")
      case True
      then show thesis
        using None s assms(1)
        by (intro declined) (auto simp: padControlFrame_def Let_def feasibleTargets_Nil_iff)
    next
      case False
      obtain i r2 where i: "FastIntn (int (length ?fs)) r1 = (i, r2)" by fastforce
      have "nat i < length ?fs" using FastIntn_range [OF i] False by (cases ?fs) auto
      then have mem: "?fs ! nat i \<in> set ?fs" by (rule nth_mem)
      show thesis
      proof (rule choose)
        show "?fs ! nat i \<in> set ?ts" "?m \<le> pt_Max (?fs ! nat i)"
          using mem by (auto simp: feasibleTargets_def dest!: in_set_takeD)
        show "\<And>v r3. chooseSize (?fs ! nat i) ?m r2 = (v, r3) \<Longrightarrow>
            fst (padControlFrame rs b r) = Some (fst (appendWasteFrame b v r3))"
          using s None False i assms(1) by (simp add: padControlFrame_def Let_def split: prod.splits)
      qed
    qed
  qed
qed

text \<open>
  Property C38.  Under every well-formed configuration whose targets fit one frame, a padded
  control frame has a size from the configured distribution: it lies inside one of the configured
  targets (so a fixed target is hit exactly).
\<close>

theorem padControlFrame_size:
  assumes "wf_config (rs_cfg rs)" "\<forall>t \<in> set (PadTargets (rs_cfg rs)). pt_Max t \<le> 65535"
    and "fst (padControlFrame rs b r) = Some out"
  shows "\<exists>t \<in> set (PadTargets (rs_cfg rs)). pt_Min t \<le> int (length out) \<and> int (length out) \<le> pt_Max t"
proof -
  have ne: "PadTargets (rs_cfg rs) \<noteq> []" and wf: "list_all wf_target (PadTargets (rs_cfg rs))"
    using assms(1) by (auto simp: wf_config_def)
  show ?thesis
  proof (rule padControlFrame_cases [OF ne wf, of b r])
    assume "fst (padControlFrame rs b r) = None"
    with assms(3) show ?thesis by simp
  next
    fix t v r'
    assume padded: "t \<in> set (PadTargets (rs_cfg rs))" "int (length b) + 7 \<le> v" "pt_Min t \<le> v"
      "v \<le> pt_Max t" "fst (padControlFrame rs b r) = Some (fst (appendWasteFrame b v r'))"
    obtain w where "out = b @ encodeFrame (wasteFrame w)" "length w = clampWaste (v - int (length b) - 7)"
      using padded(5) assms(3) by (metis appendWasteFrame_frame option.inject)
    moreover have "v \<le> 65535" using padded(1,4) assms(2) by force
    ultimately have "int (length out) = v"
      using padded(2) by (simp add: clampWaste_id wasteFrame_def)
    with padded show ?thesis by auto
  qed
qed

lemma fixed_target_padded:
  assumes "PadTargets (rs_cfg rs) = [padTarget n n]" "int (length b) + 7 \<le> n" "n \<le> int64_max"
  shows "\<exists>out. fst (padControlFrame rs b r) = Some out"
proof -
  have wf: "list_all wf_target (PadTargets (rs_cfg rs))"
    using assms by (simp add: wf_target_def padTarget_def)
  have ne: "PadTargets (rs_cfg rs) \<noteq> []" using assms(1) by simp
  show ?thesis
    by (rule padControlFrame_cases [OF ne wf, of b r]) (use assms in \<open>auto simp: padTarget_def\<close>)
qed

definition sample_shaper :: RecordShaper where
  "sample_shaper =
     \<lparr>rs_conn = \<lparr>c_in = [], c_out = [], c_sched = [], c_deadline = None, c_closed = False\<rparr>,
      rs_LastWrite = 0, rs_cfg = DefaultRecordShaperConfig\<lparr>PadTargets := [padTarget 17 17]\<rparr>,
      rs_lastCfgMd5 = ''d41d8'', rs_maxTarget = 17\<rparr>"

theorem padControlFrame_size_witness:
  "\<exists>out. fst (padControlFrame sample_shaper (encodeFrame (newFrame cmdFIN 3)) []) = Some out \<and> length out = 17"
proof -
  let ?b = "encodeFrame (newFrame cmdFIN 3)"
  have "PadTargets (rs_cfg sample_shaper) = [padTarget 17 17]" by (simp add: sample_shaper_def)
  then obtain out where out: "fst (padControlFrame sample_shaper ?b []) = Some out"
    using fixed_target_padded [of sample_shaper 17 ?b "[]"] by (auto simp: newFrame_def int64_max_def)
  have "wf_config (rs_cfg sample_shaper)"
    using wf_default by (simp add: sample_shaper_def wf_config_def wf_target_def padTarget_def int64_max_def)
  from padControlFrame_size [OF this _ out] out show ?thesis
    by (auto simp: sample_shaper_def padTarget_def)
qed

text \<open>
  A control frame is sent unpadded only if no configured target could hold it
  together with a waste header; the weighted rejection sampling never gives up on a feasible frame.
\<close>

theorem padControlFrame_declines_iff:
  assumes "wf_config (rs_cfg rs)"
  shows "fst (padControlFrame rs b r) = None \<longleftrightarrow>
    (\<forall>t \<in> set (PadTargets (rs_cfg rs)). pt_Max t < int (length b) + 7)"
proof -
  have ne: "PadTargets (rs_cfg rs) \<noteq> []" and wf: "list_all wf_target (PadTargets (rs_cfg rs))"
    using assms by (auto simp: wf_config_def)
  show ?thesis
    by (rule padControlFrame_cases [OF ne wf, of b r]) fastforce+
qed

theorem padControlFrame_declines_iff_witness:
  "wf_config (rs_cfg sample_shaper) \<and>
   fst (padControlFrame sample_shaper (replicate 11 0) [5]) = None"
proof -
  have wf: "wf_config (rs_cfg sample_shaper)"
    using wf_default by (simp add: sample_shaper_def wf_config_def wf_target_def padTarget_def int64_max_def)
  show ?thesis
    using wf padControlFrame_declines_iff [OF wf, of "replicate 11 0" "[5]"]
    by (simp add: sample_shaper_def padTarget_def)
qed

section \<open>The shaper's invariant\<close>

definition shaper_ok :: "RecordShaper \<Rightarrow> bool" where
  "shaper_ok rs \<longleftrightarrow> wf_config (rs_cfg rs) \<and> rs_maxTarget rs = computeMaxTarget (rs_cfg rs)"

lemma foldl_max_ge:
  "m \<le> foldl (\<lambda>m t. if pt_Max t > m then pt_Max t else m) m ts"
  "t \<in> set ts \<Longrightarrow> pt_Max t \<le> foldl (\<lambda>m t. if pt_Max t > m then pt_Max t else m) m ts"
proof (induction ts arbitrary: m)
  case (Cons a ts)
  case 1
  then show ?case using Cons(1) [of "if pt_Max a > m then pt_Max a else m"] by (auto split: if_splits)
next
  case (Cons a ts)
  case 2
  then show ?case
    using Cons(1) [of "if pt_Max a > m then pt_Max a else m"]
      Cons(2) [of "if pt_Max a > m then pt_Max a else m"] by (auto split: if_splits)
qed simp_all

lemma computeMaxTarget_ge: "t \<in> set (PadTargets cfg) \<Longrightarrow> pt_Max t \<le> computeMaxTarget cfg"
  by (simp add: computeMaxTarget_def foldl_max_ge(2))

lemma writeWithDeadline_cfg:
  "rs_cfg (snd (writeWithDeadline now b rs)) = rs_cfg rs"
  "rs_maxTarget (snd (writeWithDeadline now b rs)) = rs_maxTarget rs"
  by (auto simp: writeWithDeadline_def Let_def split: prod.splits)

lemma maybeRefreshConfig_ok: "wf_factory pf \<Longrightarrow> shaper_ok rs \<Longrightarrow> shaper_ok (maybeRefreshConfig pf rs)"
  by (simp add: maybeRefreshConfig_def shaper_ok_def wf_factory_def)

lemma shaper_ok_write: "shaper_ok (snd (writeWithDeadline now b rs)) \<longleftrightarrow> shaper_ok rs"
  by (simp add: shaper_ok_def writeWithDeadline_cfg)

text \<open>
  The cached configuration stays well-formed and the cached maximum stays the
  maximum of the configured targets: the constructor establishes this and every operation keeps it,
  whatever scheme the atomic pointer currently holds.
\<close>

theorem shaper_invariant:
  assumes "wf_factory pf" "shaper_ok rs"
  shows "shaper_ok (newRecordShaper c pf now) \<and> shaper_ok (maybeRefreshConfig pf rs)
    \<and> shaper_ok (fst (snd (WriteControl pf now b rs r)))
    \<and> shaper_ok (fst (snd (WriteInitialFlush pf now b rs r)))
    \<and> shaper_ok (snd (WriteData now b rs)) \<and> shaper_ok (fst (snd (BuildIdleFrame pf now rs r)))"
proof (intro conjI)
  show ref: "shaper_ok (maybeRefreshConfig pf rs)"
    using assms by (rule maybeRefreshConfig_ok)
  show "shaper_ok (newRecordShaper c pf now)"
    using assms by (simp add: newRecordShaper_def shaper_ok_def wf_factory_def)
  show "shaper_ok (fst (snd (WriteControl pf now b rs r)))"
    using ref shaper_ok_write
    by (auto simp: WriteControl_def Let_def split: prod.splits if_splits) (metis snd_conv)+
  obtain padded r1 where p: "padToHeadersTarget pf b rs r = (padded, maybeRefreshConfig pf rs, r1)"
    using padToHeadersTarget_state [of pf b rs r] by (metis prod.collapse)
  then show "shaper_ok (fst (snd (WriteInitialFlush pf now b rs r)))"
    using ref shaper_ok_write
    by (auto simp: WriteInitialFlush_def Let_def split: prod.splits) (metis snd_conv)
  show "shaper_ok (snd (WriteData now b rs))"
    using assms(2) by (auto simp: WriteData_def shaper_ok_def Let_def split: prod.splits)
  show "shaper_ok (fst (snd (BuildIdleFrame pf now rs r)))"
    using ref by (auto simp: BuildIdleFrame_def Let_def split: prod.splits)
qed

lemma sample_shaper_ok: "shaper_ok sample_shaper"
  using wf_default
  by (simp add: sample_shaper_def shaper_ok_def wf_config_def wf_target_def padTarget_def
      int64_max_def computeMaxTarget_def)

definition sample_factory :: PaddingFactory where
  "sample_factory =
     \<lparr>RawScheme = DefaultPaddingScheme, Md5 = ''d41d8'', PadBuckets = [paddingBucket 35 35 100],
      totalWeight = 100, RecordConfig = DefaultRecordShaperConfig\<rparr>"

lemma sample_factory_wf: "wf_factory sample_factory"
  using wf_default
  by (simp add: sample_factory_def wf_factory_def wf_bucket_def paddingBucket_def sumWeights_wrap
      int64_max_def int64_min_def)

theorem shaper_invariant_witness:
  "shaper_ok (fst (snd (WriteControl sample_factory 0 (replicate 9 1) sample_shaper [4])))"
  using shaper_invariant [OF sample_factory_wf sample_shaper_ok, of undefined 0 "replicate 9 1" "[4]"]
  by blast

text \<open>
  The length test in front of \<open>padControlFrame\<close> is only a shortcut: with the
  invariant, a frame it skips would not have been padded anyway.
\<close>

theorem maxTarget_shortcut_sound:
  assumes "shaper_ok rs" "rs_maxTarget rs \<le> int (length b)"
  shows "fst (padControlFrame rs b r) = None"
proof -
  have ne: "PadTargets (rs_cfg rs) \<noteq> []" and wf: "list_all wf_target (PadTargets (rs_cfg rs))"
    using assms by (auto simp: shaper_ok_def wf_config_def)
  show ?thesis
  proof (rule padControlFrame_cases [OF ne wf, of b r])
    fix t v r'
    assume "t \<in> set (PadTargets (rs_cfg rs))" "int (length b) + 7 \<le> v" "v \<le> pt_Max t"
    then show ?thesis
      using assms computeMaxTarget_ge [of t "rs_cfg rs"] by (auto simp: shaper_ok_def)
  qed auto
qed

theorem maxTarget_shortcut_sound_witness:
  "fst (padControlFrame sample_shaper (replicate 20 7) [1, 2, 3]) = None"
  by (rule maxTarget_shortcut_sound [OF sample_shaper_ok]) (simp add: sample_shaper_def)

lemma writeWithDeadline_succeeds:
  "\<not> c_closed (rs_conn rs) \<Longrightarrow> c_sched (rs_conn rs) = [] \<Longrightarrow> \<exists>rs'. writeWithDeadline now b rs = (None, rs')"
  by (auto simp: writeWithDeadline_def connWrite_def Let_def)

lemma WriteControl_succeeds:
  assumes "\<not> c_closed (rs_conn rs)" "c_sched (rs_conn rs) = []"
  shows "\<exists>n rs' r'. WriteControl pf now b rs r = ((n, None), rs', r')"
proof -
  have "\<exists>rs'. writeWithDeadline now out (maybeRefreshConfig pf rs) = (None, rs')" for out
    using assms by (intro writeWithDeadline_succeeds) simp_all
  then show ?thesis by (simp add: WriteControl_def Let_def split: prod.splits) (metis prod.inject)
qed

lemma WriteInitialFlush_succeeds:
  assumes "\<not> c_closed (rs_conn rs)" "c_sched (rs_conn rs) = []"
  shows "\<exists>n rs' r'. WriteInitialFlush pf now b rs r = ((n, None), rs', r')"
proof -
  obtain padded r1 where p: "padToHeadersTarget pf b rs r = (padded, maybeRefreshConfig pf rs, r1)"
    using padToHeadersTarget_state [of pf b rs r] by (metis prod.collapse)
  have "\<exists>rs'. writeWithDeadline now out (maybeRefreshConfig pf rs) = (None, rs')" for out
    using assms by (intro writeWithDeadline_succeeds) simp_all
  then show ?thesis using p
    by (simp add: WriteInitialFlush_def Let_def split: prod.splits) (metis prod.inject)
qed

lemma sample_shaper_conn: "\<not> c_closed (rs_conn sample_shaper)" "c_sched (rs_conn sample_shaper) = []"
  by (simp_all add: sample_shaper_def)

theorem WriteControl_transparent_witness:
  "\<exists>out ws n rs' r'. WriteControl sample_factory 0 (encodeFrames [newFrame cmdFIN 3]) sample_shaper [9]
      = ((n, None), rs', r') \<and>
     c_out (rs_conn rs') = c_out (rs_conn sample_shaper) @ [(out, Some (0 + 5 * 1000000000))] \<and>
     decodeFrames out = ([newFrame cmdFIN 3] @ ws, []) \<and> optional_waste ws"
proof -
  obtain n rs' r' where
    w: "WriteControl sample_factory 0 (encodeFrames [newFrame cmdFIN 3]) sample_shaper [9] = ((n, None), rs', r')"
    using WriteControl_succeeds [OF sample_shaper_conn] by blast
  have "\<forall>f \<in> set [newFrame cmdFIN 3]. wire_ok f" by (simp add: wire_ok_def newFrame_def)
  from WriteControl_transparent [OF this w] w show ?thesis by blast
qed

theorem WriteInitialFlush_transparent_witness:
  "\<exists>out ws n rs' r'. WriteInitialFlush sample_factory 0 (encodeFrames [newFrame cmdSYN 3]) sample_shaper [9]
      = ((n, None), rs', r') \<and>
     c_out (rs_conn rs') = c_out (rs_conn sample_shaper) @ [(out, Some (0 + 5 * 1000000000))] \<and>
     decodeFrames out = ([newFrame cmdSYN 3] @ ws, []) \<and> optional_waste ws"
proof -
  obtain n rs' r' where
    w: "WriteInitialFlush sample_factory 0 (encodeFrames [newFrame cmdSYN 3]) sample_shaper [9]
      = ((n, None), rs', r')"
    using WriteInitialFlush_succeeds [OF sample_shaper_conn] by blast
  have "\<forall>f \<in> set [newFrame cmdSYN 3]. wire_ok f" by (simp add: wire_ok_def newFrame_def)
  from WriteInitialFlush_transparent [OF this w] w show ?thesis by blast
qed

section \<open>Initial flush and idle frames\<close>

text \<open>
  A flush blob that fits is shaped to a size inside the configured \<open>headers_target\<close>
  range; a blob too large for the range is sent as it is.
\<close>

theorem padToHeadersTarget_size:
  assumes "wf_factory pf" "shaper_ok rs"
    and "pt_Max (HeadersTarget (rs_cfg (maybeRefreshConfig pf rs))) \<le> 65535"
  shows "case fst (padToHeadersTarget pf b rs r) of
      None \<Rightarrow> pt_Max (HeadersTarget (rs_cfg (maybeRefreshConfig pf rs))) < int (length b) + 7
    | Some out \<Rightarrow> pt_Min (HeadersTarget (rs_cfg (maybeRefreshConfig pf rs))) \<le> int (length out)
        \<and> int (length out) \<le> pt_Max (HeadersTarget (rs_cfg (maybeRefreshConfig pf rs)))"
proof -
  let ?t = "HeadersTarget (rs_cfg (maybeRefreshConfig pf rs))"
  let ?m = "int (length b) + 7"
  have wf: "wf_target ?t"
    using maybeRefreshConfig_ok [OF assms(1,2)] by (simp add: shaper_ok_def wf_config_def)
  show ?thesis
  proof (cases "pt_Max ?t < ?m")
    case True
    then show ?thesis using wf by (simp add: padToHeadersTarget_def Let_def wf_target_def)
  next
    case False
    let ?lo = "if pt_Min ?t < ?m then ?m else pt_Min ?t"
    obtain off r1 where o: "FastIntn (pt_Max ?t - ?lo + 1) r = (off, r1)" by fastforce
    let ?v = "if ?lo = pt_Max ?t then ?lo else ?lo + off"
    let ?r = "if ?lo = pt_Max ?t then r else r1"
    have lo: "?lo \<le> pt_Max ?t" using False wf by (auto simp: wf_target_def)
    then have v: "pt_Min ?t \<le> ?v" "?v \<le> pt_Max ?t" "?m \<le> ?v"
      using FastIntn_range [OF o] by (auto split: if_splits)
    obtain w where w: "fst (appendWasteFrame b ?v ?r) = b @ encodeFrame (wasteFrame w)"
      "length w = clampWaste (?v - int (length b) - 7)" by (rule appendWasteFrame_frame)
    have "int (length (fst (appendWasteFrame b ?v ?r))) = ?v"
      using w v assms(3) by (simp add: clampWaste_id wasteFrame_def)
    moreover have "fst (padToHeadersTarget pf b rs r) = Some (fst (appendWasteFrame b ?v ?r))"
      using False lo wf o
      by (auto simp: padToHeadersTarget_def Let_def wf_target_def split: prod.splits if_splits)
    ultimately show ?thesis using v by simp
  qed
qed

lemma sample_refresh: "maybeRefreshConfig sample_factory sample_shaper = sample_shaper"
  by (simp add: maybeRefreshConfig_def sample_factory_def sample_shaper_def)

theorem padToHeadersTarget_size_witness:
  "\<exists>out. fst (padToHeadersTarget sample_factory (replicate 40 0) sample_shaper [3]) = Some out
     \<and> 90 \<le> length out \<and> length out \<le> 140"
proof -
  have "HeadersTarget (rs_cfg sample_shaper) = padTarget 90 140"
    by (simp add: sample_shaper_def DefaultRecordShaperConfig_def)
  then show ?thesis
    using padToHeadersTarget_size [OF sample_factory_wf sample_shaper_ok, of "replicate 40 0" "[3]"]
    by (auto simp: sample_refresh padTarget_def split: option.splits)
qed

text \<open>
  An idle frame is produced only for an enabled configuration and only after a
  silence of at least the effective threshold (the configured one or, without it, the minimum
  interval, never zero); it is one well-formed waste frame on stream 0, whatever size is configured.
\<close>

theorem BuildIdleFrame_frame:
  assumes "fst (BuildIdleFrame pf now rs r) = Some out"
  shows "let cfg = rs_cfg (maybeRefreshConfig pf rs);
             ms = (if IdleThresholdMs cfg \<le> 0 then fst (IdleIntervalMs cfg) else IdleThresholdMs cfg)
         in IdleSizes cfg \<noteq> [] \<and> 0 < ms \<and> wrap64 (ms * 1000000) \<le> now - rs_LastWrite rs
            \<and> (\<exists>w. out = encodeFrame (wasteFrame w) \<and> length w \<le> 65535)"
proof -
  let ?cfg = "rs_cfg (maybeRefreshConfig pf rs)"
  obtain i r1 where i: "FastIntn (int (length (IdleSizes ?cfg))) r = (i, r1)" by fastforce
  let ?n = "clampWaste (IdleSizes ?cfg ! nat i - 7)"
  obtain filler r2 where f: "randomPayload ?n r1 = (filler, r2)" by fastforce
  then have "length filler = ?n" by (metis length_randomPayload fst_conv)
  then have "\<exists>w. frameHeader cmdWaste 0 ?n @ filler = encodeFrame (wasteFrame w) \<and> length w \<le> 65535"
    by (intro exI [of _ filler]) (simp add: encodeFrame_def wasteFrame_def)
  with assms i f show ?thesis
    by (auto simp: BuildIdleFrame_def Let_def split: if_splits) metis+
qed

theorem BuildIdleFrame_frame_witness:
  "\<exists>out w. fst (BuildIdleFrame sample_factory 2000000
       (sample_shaper\<lparr>rs_cfg := DefaultRecordShaperConfig\<lparr>IdleSizes := [20], IdleThresholdMs := 1\<rparr>\<rparr>) [5])
     = Some out \<and> out = encodeFrame (wasteFrame w)"
proof -
  let ?rs = "sample_shaper\<lparr>rs_cfg := DefaultRecordShaperConfig\<lparr>IdleSizes := [20], IdleThresholdMs := 1\<rparr>\<rparr>"
  have "maybeRefreshConfig sample_factory ?rs = ?rs"
    by (simp add: maybeRefreshConfig_def sample_factory_def sample_shaper_def)
  then have "fst (BuildIdleFrame sample_factory 2000000 ?rs [5]) \<noteq> None"
    by (simp add: BuildIdleFrame_def Let_def sample_shaper_def int64_min_def int64_max_def split: prod.splits)
  then obtain out where out: "fst (BuildIdleFrame sample_factory 2000000 ?rs [5]) = Some out" by blast
  from BuildIdleFrame_frame [OF out] out show ?thesis by (auto simp: Let_def)
qed

text \<open>
  Deviation (README: ``pads any control frame smaller than the largest configured
  target'').  Under the default targets a 40-byte control frame, although smaller than the largest
  target of 45 bytes, is sent unpadded, because no waste header fits any more.
\<close>

theorem control_frame_below_max_unpadded:
  assumes "rs_cfg rs = DefaultRecordShaperConfig" "length b = 40"
  shows "int (length b) < computeMaxTarget (rs_cfg rs) \<and> fst (padControlFrame rs b r) = None"
proof -
  have wf: "wf_config (rs_cfg rs)" using assms(1) wf_default by simp
  have ne: "PadTargets (rs_cfg rs) \<noteq> []" and wft: "list_all wf_target (PadTargets (rs_cfg rs))"
    using wf by (auto simp: wf_config_def)
  have "int (length b) < computeMaxTarget (rs_cfg rs)"
    using assms by (simp add: computeMaxTarget_def DefaultRecordShaperConfig_def padTarget_def)
  moreover have "fst (padControlFrame rs b r) = None"
    by (rule padControlFrame_cases [OF ne wft, of b r])
      (use assms in \<open>auto simp: DefaultRecordShaperConfig_def padTarget_def\<close>)
  ultimately show ?thesis ..
qed

theorem control_frame_below_max_unpadded_witness:
  "fst (padControlFrame (sample_shaper\<lparr>rs_cfg := DefaultRecordShaperConfig\<rparr>) (replicate 40 1) [2, 5]) = None"
  using control_frame_below_max_unpadded
    [of "sample_shaper\<lparr>rs_cfg := DefaultRecordShaperConfig\<rparr>" "replicate 40 1" "[2, 5]"] by simp

end
