(* ===== verification/Session.thy ===== *)
theory Session
  imports RecordShaper "HOL-Library.AList"
begin

text \<open>
  \<open>session/session.go\<close> and the stream operations of \<open>session/stream.go\<close>: the state of a session, its
  frame writers, opening and closing.  One operation is one step on the session's state; the clock
  and the random draws of a run are part of the state.  Code outside the session that an operation
  calls or starts (the pool's and the stream acceptor's hooks, the pipe of a stream, the migration
  code) is recorded as an event.
\<close>

section \<open>State\<close>

text \<open>
  Streams are objects that outlive their entry in the session's map; they are referred to by their
  index in \<open>ss_objs\<close>.  \<open>st_synTimer\<close> says that the SYNACK timer is running.
\<close>

record Stream =
  st_id :: u32
  st_dieErr :: "go_error option"
  st_synTimer :: bool
  st_frameSeq :: u32
  st_reported :: bool
  st_mig :: bool

datatype event =
    EvSessionDied
  | EvStreamDied nat
  | EvMigStreamEnd nat
  | EvAccept nat
  | EvDeliver nat bytes
  | EvAlert bytes
  | EvStartCarrier nat bytes
  | EvMigrateGo nat
  | EvUplinkFin nat
  | EvStartIdleLoop

record Session =
  ss_shaper :: RecordShaper
  ss_streams :: "(u32 \<times> nat) list"
  ss_objs :: "Stream list"
  ss_streamId :: u32
  ss_activeStreams :: int
  ss_closed :: bool
  ss_consecutiveSynAckTimeouts :: u32
  ss_connBroken :: bool
  ss_lastHeartRespNano :: int
  ss_padding :: PaddingFactory
  ss_peerVersion :: u32
  ss_isClient :: bool
  ss_buffering :: bool
  ss_buffer :: bytes
  ss_idleReady :: bool
  ss_idleLoop :: bool
  ss_recvBytes :: int
  ss_wndUpdateBase :: int
  ss_wndUpdateTrigger :: int
  ss_migActive :: bool
  ss_migRegistry :: bool
  ss_receivedSettings :: bool
  ss_connLocked :: bool
  ss_trace :: "event list"
  ss_now :: int
  ss_rand :: rand

abbreviation ss_conn :: "Session \<Rightarrow> conn" where
  "ss_conn s \<equiv> rs_conn (ss_shaper s)"

definition setConn :: "conn \<Rightarrow> Session \<Rightarrow> Session" where
  "setConn c s = s\<lparr>ss_shaper := (ss_shaper s)\<lparr>rs_conn := c\<rparr>\<rparr>"

definition emit :: "event \<Rightarrow> Session \<Rightarrow> Session" where
  "emit e s = s\<lparr>ss_trace := ss_trace s @ [e]\<rparr>"

definition IsClosed :: "Session \<Rightarrow> bool" where
  "IsClosed s \<longleftrightarrow> ss_closed s"

definition signalIdleReady :: "Session \<Rightarrow> Session" where
  "signalIdleReady s = s\<lparr>ss_idleReady := True\<rparr>"

text \<open>\<open>base +/- 25 %\<close>; on a 64-bit \<open>int\<close> the sum wraps for a base near its end.\<close>

definition nextWndInterval :: "int \<Rightarrow> rand \<Rightarrow> int \<times> rand" where
  "nextWndInterval base r =
     (if base \<le> 0 then (0, r)
      else let jitter = base div 4;
               (off, r) = FastIntn (2 * jitter + 1) r
           in (wrap64 (base - jitter + off), r))"

text \<open>The common part of \<open>NewClientSession\<close> and \<open>NewServerSession\<close>.\<close>

definition newSession :: "bool \<Rightarrow> conn \<Rightarrow> PaddingFactory \<Rightarrow> int \<Rightarrow> rand \<Rightarrow> Session" where
  "newSession client c pf now r =
     (let base = WndUpdateInterval (RecordConfig pf);
          (trigger, r) = (if base > 0 then nextWndInterval base r else (0, r))
      in \<lparr>ss_shaper = newRecordShaper c pf now, ss_streams = [], ss_objs = [], ss_streamId = 0,
          ss_activeStreams = 0, ss_closed = False, ss_consecutiveSynAckTimeouts = 0,
          ss_connBroken = False, ss_lastHeartRespNano = 0, ss_padding = pf, ss_peerVersion = 0,
          ss_isClient = client, ss_buffering = False, ss_buffer = [], ss_idleReady = False,
          ss_idleLoop = False, ss_recvBytes = 0, ss_wndUpdateBase = (if base > 0 then base else 0),
          ss_wndUpdateTrigger = trigger, ss_migActive = False, ss_migRegistry = False,
          ss_receivedSettings = False, ss_connLocked = False, ss_trace = [], ss_now = now, ss_rand = r\<rparr>)"

definition NewClientSession :: "conn \<Rightarrow> PaddingFactory \<Rightarrow> int \<Rightarrow> rand \<Rightarrow> Session" where
  "NewClientSession = newSession True"

definition NewServerSession :: "conn \<Rightarrow> PaddingFactory \<Rightarrow> int \<Rightarrow> rand \<Rightarrow> Session" where
  "NewServerSession = newSession False"

section \<open>Closing\<close>

definition newStream :: "u32 \<Rightarrow> Session \<Rightarrow> nat \<times> Session" where
  "newStream sid s =
     (length (ss_objs s),
      s\<lparr>ss_objs := ss_objs s @ [\<lparr>st_id = sid, st_dieErr = None, st_synTimer = False, st_frameSeq = 0,
          st_reported = False, st_mig = ss_migActive s\<rparr>]\<rparr>)"

definition updStream :: "nat \<Rightarrow> (Stream \<Rightarrow> Stream) \<Rightarrow> Session \<Rightarrow> Session" where
  "updStream i f s = s\<lparr>ss_objs := (ss_objs s)[i := f (ss_objs s ! i)]\<rparr>"

text \<open>
  The \<open>dieOnce\<close> body shared by \<open>closeLocally\<close> and \<open>closeWithError\<close>, with the die hook that follows it:
  the first caller stops the timer, stores the error, closes the pipe and runs the hook.
\<close>

definition dieStream :: "nat \<Rightarrow> go_error \<Rightarrow> Session \<Rightarrow> bool \<times> Session" where
  "dieStream i e s =
     (if st_dieErr (ss_objs s ! i) \<noteq> None then (False, s)
      else let s = updStream i (\<lambda>st. st\<lparr>st_synTimer := False, st_dieErr := Some e\<rparr>) s;
               s = (if st_mig (ss_objs s ! i) then emit (EvMigStreamEnd i) s else s)
           in (True, emit (EvStreamDied i) s))"

definition closeLocally :: "nat \<Rightarrow> Session \<Rightarrow> Session" where
  "closeLocally i s = snd (dieStream i NetErrClosed s)"

definition second :: duration where [simp]: "second = 1000000000"

definition writeFrameBytes :: "byte \<Rightarrow> u32 \<Rightarrow> nat \<Rightarrow> Session \<Rightarrow> Session" where
  "writeFrameBytes cmd sid n s =
     (let (filler, r) = randomPayload n (ss_rand s);
          c = SetWriteDeadline (Some (ss_now s + second)) (ss_conn s);
          (_, c) = connWrite (ss_now s) (frameHeader cmd sid n @ filler) c
      in setConn (SetWriteDeadline None c) (s\<lparr>ss_rand := r\<rparr>))"

text \<open>
  \<open>ss_connLocked\<close> tells whether another goroutine holds \<open>connLock\<close>, which decides the two \<open>TryLock\<close>
  calls of the source.
\<close>

definition Close :: "Session \<Rightarrow> go_error option \<times> Session" where
  "Close s =
     (if ss_closed s then (Some ErrClosedPipe, s)
      else let s = signalIdleReady (s\<lparr>ss_closed := True\<rparr>);
               s = emit EvSessionDied s;
               s = foldl (\<lambda>s i. closeLocally i s) s (map snd (ss_streams s));
               s = s\<lparr>ss_streams := []\<rparr>;
               s = setConn (SetWriteDeadline (Some (ss_now s - second)) (ss_conn s)) s;
               s = (if ss_connLocked s then s else writeFrameBytes cmdWaste 0 10 s);
               (err, c) = connClose (ss_conn s)
           in (err, setConn c s))"

section \<open>Writing frames\<close>

definition flushShaped :: "bytes \<Rightarrow> Session \<Rightarrow> (nat \<times> go_error option) \<times> Session" where
  "flushShaped b s =
     (let (res, rs, r) = WriteInitialFlush (ss_padding s) (ss_now s) b (ss_shaper s) (ss_rand s)
      in (res, s\<lparr>ss_shaper := rs, ss_rand := r\<rparr>))"

definition writeConn :: "bytes \<Rightarrow> bool \<Rightarrow> Session \<Rightarrow> (nat \<times> go_error option) \<times> Session" where
  "writeConn b isCtrl s =
     (if IsClosed s then ((0, Some ErrClosedPipe), s)
      else if ss_buffering s then ((length b, None), s\<lparr>ss_buffer := ss_buffer s @ b\<rparr>)
      else if length (ss_buffer s) > 0 then flushShaped (ss_buffer s @ b) (s\<lparr>ss_buffer := []\<rparr>)
      else if isCtrl \<and> length b > 0 \<and> b ! 0 = cmdSYN then flushShaped b s
      else if isCtrl
      then let (res, rs, r) = WriteControl (ss_padding s) (ss_now s) b (ss_shaper s) (ss_rand s)
           in (res, s\<lparr>ss_shaper := rs, ss_rand := r\<rparr>)
      else let (res, rs) = WriteData (ss_now s) b (ss_shaper s)
           in (res, s\<lparr>ss_shaper := rs\<rparr>))"

definition writeControlFrame :: "frame \<Rightarrow> Session \<Rightarrow> (nat \<times> go_error option) \<times> Session" where
  "writeControlFrame f s =
     (let dataLen = length (f_data f)
      in if dataLen > maxFrameDataLen then ((0, Some (OtherError ''control frame data too large'')), s)
         else let ((_, err), s) = writeConn (encodeFrame f) True s
              in case err of
                   Some e \<Rightarrow> ((0, Some e), snd (Close s))
                 | None \<Rightarrow> ((dataLen, None), s))"

definition pshFrame :: "u32 \<Rightarrow> bytes \<Rightarrow> frame" where
  "pshFrame sid chunk = \<lparr>f_cmd = cmdPSH, f_sid = sid, f_data = chunk\<rparr>"

definition sendPSH :: "u32 \<Rightarrow> bytes \<Rightarrow> Session \<Rightarrow> go_error option \<times> Session" where
  "sendPSH sid chunk s =
     (let ((_, err), s) = writeConn (encodeFrame (pshFrame sid chunk)) False s
      in (err, if err = None then s else s\<lparr>ss_connBroken := True\<rparr>))"

function writeDataLoop ::
    "u32 \<Rightarrow> bytes \<Rightarrow> nat \<Rightarrow> Session \<Rightarrow> (nat \<times> go_error option) \<times> Session" where
  "writeDataLoop sid data written s =
     (if data = [] then ((written, None), s)
      else let chunk = (if length data > h2MaxFramePayload then take h2MaxFramePayload data else data);
               (err, s) = sendPSH sid chunk s
           in if err \<noteq> None then ((written, err), s)
              else writeDataLoop sid (drop (length chunk) data) (written + length chunk) s)"
  by pat_completeness auto
termination by (relation "measure (\<lambda>(sid, data, written, s). length data)") auto

declare writeDataLoop.simps [simp del]

definition writeDataFrame :: "u32 \<Rightarrow> bytes \<Rightarrow> Session \<Rightarrow> (nat \<times> go_error option) \<times> Session" where
  "writeDataFrame sid data s =
     (let totalLen = length data; ((written, err), s) = writeDataLoop sid data 0 s
      in case err of Some e \<Rightarrow> ((written, Some e), s) | None \<Rightarrow> ((totalLen, None), s))"

definition earlyDataFrames :: nat where [simp]: "earlyDataFrames = 4"
definition earlySplitThresh :: nat where [simp]: "earlySplitThresh = 256"
definition earlySplitMin :: nat where [simp]: "earlySplitMin = 48"
definition maxPaddingSchemeLen :: nat where [simp]: "maxPaddingSchemeLen = 16 * 1024"

text \<open>The loop of \<open>writeDataFrameSplit\<close>; the first argument is \<open>parts - i\<close>.\<close>

primrec splitLoop :: "nat \<Rightarrow> u32 \<Rightarrow> bytes \<Rightarrow> nat \<Rightarrow> nat \<Rightarrow> Session \<Rightarrow> (nat \<times> go_error option) \<times> Session" where
  "splitLoop 0 sid data offset written s = ((length data, None), s)"
| "splitLoop (Suc k) sid data offset written s =
     (if k = 0
      then let (err, s) = sendPSH sid (drop offset data) s
           in if err \<noteq> None then ((written, err), s)
              else splitLoop k sid data offset (written + length (drop offset data)) s
      else let remaining = int (length data) - int offset;
               maxCut = remaining - int earlySplitMin * int k
           in if maxCut \<le> int earlySplitMin
              then let (err, s) = sendPSH sid (drop offset data) s
                   in if err \<noteq> None then ((written, err), s) else ((length data, None), s)
              else let (off, r) = FastIntn (maxCut - int earlySplitMin + 1) (ss_rand s);
                       cut = earlySplitMin + nat off;
                       chunk = take cut (drop offset data);
                       (err, s) = sendPSH sid chunk (s\<lparr>ss_rand := r\<rparr>)
                   in if err \<noteq> None then ((written, err), s)
                      else splitLoop k sid data (offset + cut) (written + length chunk) s)"

definition writeDataFrameSplit :: "u32 \<Rightarrow> bytes \<Rightarrow> Session \<Rightarrow> (nat \<times> go_error option) \<times> Session" where
  "writeDataFrameSplit sid data s =
     splitLoop (if length data > 600 then 3 else 2) sid data 0 0 s"

definition writeDataFrameShaped ::
    "u32 \<Rightarrow> bytes \<Rightarrow> bool \<Rightarrow> Session \<Rightarrow> (nat \<times> go_error option) \<times> Session" where
  "writeDataFrameShaped sid data early s =
     (if \<not> early \<or> length data \<le> earlySplitThresh \<or> length data > h2MaxFramePayload
      then writeDataFrame sid data s
      else writeDataFrameSplit sid data s)"

section \<open>Streams\<close>

definition streamClosed :: "u32 \<Rightarrow> Session \<Rightarrow> go_error option \<times> Session" where
  "streamClosed sid s =
     (if IsClosed s then (Some ErrClosedPipe, s)
      else let ((_, err), s) = writeControlFrame (newFrame cmdFIN sid) s
           in (err, s\<lparr>ss_streams := AList.delete sid (ss_streams s)\<rparr>))"

definition closeWithError :: "nat \<Rightarrow> go_error \<Rightarrow> Session \<Rightarrow> go_error option \<times> Session" where
  "closeWithError i e s =
     (let (once, s) = dieStream i e s
      in if once then streamClosed (st_id (ss_objs s ! i)) s
         else (st_dieErr (ss_objs s ! i), s))"

definition streamClose :: "nat \<Rightarrow> Session \<Rightarrow> go_error option \<times> Session" where
  "streamClose i s = closeWithError i ErrClosedPipe s"

text \<open>\<open>Stream.Write\<close> of a stream without migration state; \<open>expired\<close> is its write deadline.\<close>

definition streamWrite :: "nat \<Rightarrow> bool \<Rightarrow> bytes \<Rightarrow> Session \<Rightarrow> (nat \<times> go_error option) \<times> Session" where
  "streamWrite i expired b s =
     (if expired then ((0, Some ErrDeadlineExceeded), s)
      else case st_dieErr (ss_objs s ! i) of
             Some e \<Rightarrow> ((0, Some e), s)
           | None \<Rightarrow>
               let sq = st_frameSeq (ss_objs s ! i) + 1;
                   s = updStream i (\<lambda>st. st\<lparr>st_frameSeq := sq\<rparr>) s
               in writeDataFrameShaped (st_id (ss_objs s ! i)) b (unat sq \<le> earlyDataFrames) s)"

definition HandshakeFailure :: "nat \<Rightarrow> bytes option \<Rightarrow> Session \<Rightarrow> go_error option \<times> Session" where
  "HandshakeFailure i err s =
     (let once = (\<not> st_reported (ss_objs s ! i));
          s = updStream i (\<lambda>st. st\<lparr>st_reported := True\<rparr>) s
      in case err of
           Some msg \<Rightarrow>
             if once \<and> ss_peerVersion s \<ge> 2
             then let ((_, e), s) = writeControlFrame
                        ((newFrame cmdSYNACK (st_id (ss_objs s ! i)))\<lparr>f_data := msg\<rparr>) s
                  in (e, s)
             else (None, s)
         | None \<Rightarrow> (None, s))"

definition HandshakeSuccess :: "nat \<Rightarrow> Session \<Rightarrow> go_error option \<times> Session" where
  "HandshakeSuccess i s =
     (let once = (\<not> st_reported (ss_objs s ! i));
          s = updStream i (\<lambda>st. st\<lparr>st_reported := True\<rparr>) s
      in if once \<and> ss_peerVersion s \<ge> 2
         then let ((_, e), s) = writeControlFrame (newFrame cmdSYNACK (st_id (ss_objs s ! i))) s
              in (e, s)
         else (None, s))"

definition synAckTimeoutAlertThreshold :: nat where [simp]: "synAckTimeoutAlertThreshold = 5"

definition shouldReapOnSynAckTimeout :: "u32 \<Rightarrow> Session \<Rightarrow> bool" where
  "shouldReapOnSynAckTimeout n s \<longleftrightarrow>
     ss_activeStreams s \<le> 1 \<or> unat n \<ge> synAckTimeoutAlertThreshold"

text \<open>The timer callback of \<open>OpenStream\<close>, five seconds after the stream was opened.\<close>

definition synAckTimeout :: "nat \<Rightarrow> Session \<Rightarrow> Session" where
  "synAckTimeout i s =
     (let n = ss_consecutiveSynAckTimeouts s + 1;
          s = s\<lparr>ss_consecutiveSynAckTimeouts := n\<rparr>;
          reap = shouldReapOnSynAckTimeout n s;
          s = (if reap then s\<lparr>ss_connBroken := True\<rparr> else s);
          (_, s) = closeWithError i SynAckTimeoutError s
      in if reap then snd (Close s) else s)"

text \<open>
  \<open>OpenStream\<close>: the stream it registered, if any, and the error.  The session's lock keeps the second
  look at \<open>die\<close> from seeing anything new here.
\<close>

definition OpenStream :: "Session \<Rightarrow> (nat option \<times> go_error option) \<times> Session" where
  "OpenStream s =
     (if IsClosed s \<or> ss_connBroken s then ((None, Some ErrClosedPipe), s)
      else let sid = ss_streamId s + 1;
               s = s\<lparr>ss_streamId := sid\<rparr>;
               (i, s) = newStream sid s;
               s = (if sid \<ge> 2 \<and> ss_peerVersion s \<ge> 2
                    then updStream i (\<lambda>st. st\<lparr>st_synTimer := True\<rparr>) s else s);
               s = s\<lparr>ss_streams := AList.update sid i (ss_streams s)\<rparr>;
               ((_, err), s) = writeControlFrame (newFrame cmdSYN sid) s
           in case err of
                Some e \<Rightarrow>
                  ((Some i, Some e),
                   updStream i (\<lambda>st. st\<lparr>st_synTimer := False\<rparr>)
                     (s\<lparr>ss_streams := AList.delete sid (ss_streams s)\<rparr>))
              | None \<Rightarrow> ((Some i, None), s\<lparr>ss_buffering := False\<rparr>))"

end
