(* ===== verification/Session_Write.thy ===== *)
theory Session_Write
  imports Session
begin

text \<open>
  What the frame writers of a session put on the wire: every successful write adds exactly its frame
  to the sequence the peer decodes, whether it is buffered, flushed with a padded trailer, padded
  as a control frame or written as data; and \<open>Stream.Write\<close> transmits exactly its bytes.
\<close>

section \<open>The shaper's writers, as appended frames\<close>

abbreviation wasted :: "frame list \<Rightarrow> bool" where
  "wasted ws \<equiv> payload_frames ws = [] \<and> (\<forall>f \<in> set ws. wire_ok f)"

lemma wasted_waste: "length w \<le> maxFrameDataLen \<Longrightarrow> wasted [wasteFrame w]"
  by (simp add: wire_ok_def wasteFrame_def payload_frames_def)

lemma wasted_Nil: "wasted []"
  by (simp add: payload_frames_def)

lemma padded_wire:
  assumes "padded = None \<or> (\<exists>w. length w \<le> maxFrameDataLen \<and> padded = Some (b @ encodeFrame (wasteFrame w)))"
  shows "\<exists>ws. wasted ws \<and> (case padded of Some p \<Rightarrow> p | None \<Rightarrow> b) = b @ encodeFrames ws"
  using assms
proof
  assume "padded = None"
  then show ?thesis using wasted_Nil by (intro exI [of _ "[]"]) simp
next
  assume "\<exists>w. length w \<le> maxFrameDataLen \<and> padded = Some (b @ encodeFrame (wasteFrame w))"
  then obtain w where "length w \<le> maxFrameDataLen" "padded = Some (b @ encodeFrame (wasteFrame w))" by blast
  then show ?thesis using wasted_waste by (intro exI [of _ "[wasteFrame w]"]) simp
qed

lemma writeWithDeadline_wire:
  assumes "writeWithDeadline now b rs = (err, rs')"
  shows "err = None \<Longrightarrow> wire (rs_conn rs') = wire (rs_conn rs) @ b"
    and "\<exists>w. wire (rs_conn rs') = wire (rs_conn rs) @ w"
    and "c_in (rs_conn rs') = c_in (rs_conn rs)"
proof -
  obtain n e c where w: "connWrite now b (SetWriteDeadline (Some (now + writeDeadline)) (rs_conn rs)) = ((n, e), c)"
    by (metis prod.collapse)
  with assms have rs': "err = e" "rs_conn rs' = SetWriteDeadline None c"
    by (auto simp: writeWithDeadline_def Let_def split: if_splits)
  show "err = None \<Longrightarrow> wire (rs_conn rs') = wire (rs_conn rs) @ b"
    using connWrite_ok(3) [of now b _ n c] w rs' by auto
  show "\<exists>w. wire (rs_conn rs') = wire (rs_conn rs) @ w"
    using connWrite_ok(3) [of now b _ n c] connWrite_err(2) [of now b _ n _ c] w rs' by (cases e) auto
  show "c_in (rs_conn rs') = c_in (rs_conn rs)"
    using connWrite_frame(1) [of now b "SetWriteDeadline (Some (now + writeDeadline)) (rs_conn rs)"] rs'(2)
    unfolding w by simp
qed

lemma WriteInitialFlush_wire:
  assumes "WriteInitialFlush pf now b rs r = ((n, err), rs', r')"
  shows "err = None \<Longrightarrow> \<exists>ws. wasted ws \<and> wire (rs_conn rs') = wire (rs_conn rs) @ b @ encodeFrames ws"
    and "\<exists>w. wire (rs_conn rs') = wire (rs_conn rs) @ w"
    and "c_in (rs_conn rs') = c_in (rs_conn rs)"
proof -
  let ?p = "fst (padToHeadersTarget pf b rs r)"
  let ?out = "case ?p of Some p \<Rightarrow> p | None \<Rightarrow> b"
  obtain padded r1 where p: "padToHeadersTarget pf b rs r = (padded, maybeRefreshConfig pf rs, r1)"
    using padToHeadersTarget_state [of pf b rs r] by (metis prod.collapse)
  then have w: "writeWithDeadline now ?out (maybeRefreshConfig pf rs) = (err, rs')"
    using assms by (auto simp: WriteInitialFlush_def Let_def split: prod.splits)
  have "\<exists>ws. wasted ws \<and> ?out = b @ encodeFrames ws"
    using hdrs.pad_appends [where pf = pf and b = b and s = "(rs, r)"] by (intro padded_wire) (cases ?p, auto)
  then show "err = None \<Longrightarrow> \<exists>ws. wasted ws \<and> wire (rs_conn rs') = wire (rs_conn rs) @ b @ encodeFrames ws"
    using writeWithDeadline_wire(1) [OF w] by auto
  show "\<exists>w. wire (rs_conn rs') = wire (rs_conn rs) @ w" "c_in (rs_conn rs') = c_in (rs_conn rs)"
    using writeWithDeadline_wire(2,3) [OF w] by simp_all
qed

lemma WriteControl_wire:
  assumes "WriteControl pf now b rs r = ((n, err), rs', r')"
  shows "err = None \<Longrightarrow> \<exists>ws. wasted ws \<and> wire (rs_conn rs') = wire (rs_conn rs) @ b @ encodeFrames ws"
    and "\<exists>w. wire (rs_conn rs') = wire (rs_conn rs) @ w"
    and "c_in (rs_conn rs') = c_in (rs_conn rs)"
proof -
  let ?rs = "maybeRefreshConfig pf rs"
  let ?p = "fst (if int (length b) < rs_maxTarget ?rs then padControlFrame ?rs b r else (None, r))"
  let ?out = "case ?p of Some p \<Rightarrow> p | None \<Rightarrow> b"
  from assms have w: "writeWithDeadline now ?out ?rs = (err, rs')"
    by (auto simp: WriteControl_def Let_def split: prod.splits if_splits)
  have "\<exists>ws. wasted ws \<and> ?out = b @ encodeFrames ws"
    using ctl.pad_appends [of b "(?rs, r)"] by (intro padded_wire) (cases ?p, auto split: if_splits)
  then show "err = None \<Longrightarrow> \<exists>ws. wasted ws \<and> wire (rs_conn rs') = wire (rs_conn rs) @ b @ encodeFrames ws"
    using writeWithDeadline_wire(1) [OF w] by auto
  show "\<exists>w. wire (rs_conn rs') = wire (rs_conn rs) @ w" "c_in (rs_conn rs') = c_in (rs_conn rs)"
    using writeWithDeadline_wire(2,3) [OF w] by simp_all
qed

lemma WriteData_wire:
  assumes "WriteData now b rs = ((n, err), rs')"
  shows "err = None \<Longrightarrow> wire (rs_conn rs') = wire (rs_conn rs) @ b"
    and "\<exists>w. wire (rs_conn rs') = wire (rs_conn rs) @ w"
    and "c_in (rs_conn rs') = c_in (rs_conn rs)"
proof -
  obtain m e c where w: "connWrite now b (rs_conn rs) = ((m, e), c)" by (metis prod.collapse)
  with assms have rs': "err = e" "rs_conn rs' = c"
    by (auto simp: WriteData_def Let_def split: if_splits)
  show "err = None \<Longrightarrow> wire (rs_conn rs') = wire (rs_conn rs) @ b"
    using connWrite_ok(3) [of now b _ m c] w rs' by auto
  show "\<exists>w. wire (rs_conn rs') = wire (rs_conn rs) @ w"
    using connWrite_ok(3) [of now b _ m c] connWrite_err(2) [of now b _ m _ c] w rs' by (cases e) auto
  show "c_in (rs_conn rs') = c_in (rs_conn rs)"
    using connWrite_frame(1) [of now b "rs_conn rs"] rs'(2) unfolding w by simp
qed

section \<open>One frame through \<open>writeConn\<close>\<close>

text \<open>
  The frames the peer will decode from what was written and what is still buffered, without waste.
\<close>

definition framed :: "Session \<Rightarrow> bool" where
  "framed s \<longleftrightarrow> (\<exists>ws bs. (\<forall>f \<in> set (ws @ bs). wire_ok f) \<and> wire (ss_conn s) = encodeFrames ws
     \<and> ss_buffer s = encodeFrames bs)"

definition outgoing :: "Session \<Rightarrow> frame list" where
  "outgoing s = payload_frames (fst (decodeFrames (wire (ss_conn s) @ ss_buffer s)))"

lemma outgoing_encoded:
  assumes "\<forall>f \<in> set fs. wire_ok f" "wire (ss_conn s) @ ss_buffer s = encodeFrames fs"
  shows "outgoing s = payload_frames fs"
  using assms decodeFrames_append [of fs "[]"] by (simp add: outgoing_def)

lemma payload_frames_simps [simp]:
  "payload_frames [] = []"
  "payload_frames (f # fs) = (if f_cmd f = cmdWaste then payload_frames fs else f # payload_frames fs)"
  by (simp_all add: payload_frames_def)

text \<open>\<open>writeConn\<close> touches the shaper, the draws and the buffer only.\<close>

lemma writeConn_core:
  "\<exists>rs r b'. snd (writeConn b ctrl s) = s\<lparr>ss_shaper := rs, ss_rand := r, ss_buffer := b'\<rparr>"
proof (cases "IsClosed s \<or> ss_buffering s")
  case True
  then show ?thesis
    by (intro exI [of _ "ss_shaper s"] exI [of _ "ss_rand s"]
        exI [of _ "if IsClosed s then ss_buffer s else ss_buffer s @ b"]) (auto simp: writeConn_def)
next
  case False
  then show ?thesis
    by (intro exI [of _ "ss_shaper (snd (writeConn b ctrl s))"] exI [of _ "ss_rand (snd (writeConn b ctrl s))"]
        exI [of _ "[]"]) (simp add: writeConn_def flushShaped_def Let_def split_beta)
qed

lemma writeConn_frame [simp]:
  "ss_closed (snd (writeConn b ctrl s)) = ss_closed s"
  "ss_streams (snd (writeConn b ctrl s)) = ss_streams s"
  "ss_objs (snd (writeConn b ctrl s)) = ss_objs s"
  "ss_connBroken (snd (writeConn b ctrl s)) = ss_connBroken s"
  "ss_buffering (snd (writeConn b ctrl s)) = ss_buffering s"
  "ss_trace (snd (writeConn b ctrl s)) = ss_trace s"
  "ss_isClient (snd (writeConn b ctrl s)) = ss_isClient s"
  "ss_connLocked (snd (writeConn b ctrl s)) = ss_connLocked s"
  using writeConn_core [of b ctrl s] by auto

lemma writeConn_appends:
  assumes "framed s" "wire_ok f" "writeConn (encodeFrame f) ctrl s = ((n, None), s')"
  shows "framed s' \<and> outgoing s' = outgoing s @ payload_frames [f]"
proof -
  obtain ws bs where fr: "\<forall>f \<in> set (ws @ bs). wire_ok f" "wire (ss_conn s) = encodeFrames ws"
    "ss_buffer s = encodeFrames bs" using assms(1) by (auto simp: framed_def)
  have old: "outgoing s = payload_frames (ws @ bs)" using fr by (intro outgoing_encoded) auto
  have "\<exists>xs cs. wasted xs \<and> wire (ss_conn s') = encodeFrames (ws @ cs @ xs)
      \<and> (cs @ xs = [] \<and> ss_buffer s' = encodeFrames (bs @ [f]) \<or> cs = bs @ [f] \<and> ss_buffer s' = [])"
  proof (cases "ss_buffering s")
    case True
    with assms(3) fr show ?thesis by (auto simp: writeConn_def split: if_splits intro!: exI [of _ "[]"])
  next
    case False
    have "\<exists>xs. wasted xs \<and> wire (ss_conn s') = wire (ss_conn s) @ ss_buffer s @ encodeFrame f @ encodeFrames xs
        \<and> ss_buffer s' = []"
    proof (cases "ss_buffer s = []")
      case True
      note nb = this
      show ?thesis
      proof (cases "ctrl")
        case True
        with nb False assms(3) show ?thesis
          by (auto simp: writeConn_def flushShaped_def Let_def split: if_splits prod.splits
              dest!: WriteControl_wire(1) WriteInitialFlush_wire(1))
      next
        case ctrl: False
        with nb False assms(3) have "wire (ss_conn s') = wire (ss_conn s) @ encodeFrame f" "ss_buffer s' = []"
          by (auto simp: writeConn_def Let_def split: if_splits prod.splits dest!: WriteData_wire(1))
        with nb show ?thesis by (intro exI [of _ "[]"]) simp
      qed
    next
      case nb: False
      with False assms(3) show ?thesis
        by (auto simp: writeConn_def flushShaped_def Let_def split: if_splits prod.splits
            dest!: WriteInitialFlush_wire(1))
    qed
    then obtain xs where "wasted xs" "wire (ss_conn s') = encodeFrames (ws @ (bs @ [f]) @ xs)" "ss_buffer s' = []"
      using fr(2,3) by auto
    then show ?thesis by blast
  qed
  then obtain xs cs where x: "wasted xs" "wire (ss_conn s') = encodeFrames (ws @ cs @ xs)"
    and c: "cs @ xs = [] \<and> ss_buffer s' = encodeFrames (bs @ [f]) \<or> cs = bs @ [f] \<and> ss_buffer s' = []" by blast
  from c show ?thesis
  proof
    assume c: "cs @ xs = [] \<and> ss_buffer s' = encodeFrames (bs @ [f])"
    then have "outgoing s' = payload_frames (ws @ bs @ [f])"
      using x fr assms(2) by (intro outgoing_encoded) auto
    moreover have "framed s'" unfolding framed_def using c x fr assms(2)
      by (intro exI [of _ ws] exI [of _ "bs @ [f]"]) auto
    ultimately show ?thesis using old by simp
  next
    assume c: "cs = bs @ [f] \<and> ss_buffer s' = []"
    then have "outgoing s' = payload_frames (ws @ cs @ xs)"
      using x fr assms(2) by (intro outgoing_encoded) auto
    moreover have "framed s'" unfolding framed_def using c x fr assms(2)
      by (intro exI [of _ "ws @ cs @ xs"] exI [of _ "[]"]) auto
    ultimately show ?thesis using old c x(1) by simp
  qed
qed

lemma writeConn_grows:
  assumes "writeConn b ctrl s = ((n, err), s')"
  shows "\<exists>w. wire (ss_conn s') = wire (ss_conn s) @ w" and "c_in (ss_conn s') = c_in (ss_conn s)"
proof -
  have "(\<exists>w. wire (ss_conn s') = wire (ss_conn s) @ w) \<and> c_in (ss_conn s') = c_in (ss_conn s)"
  proof (cases "IsClosed s \<or> ss_buffering s")
    case True
    with assms show ?thesis by (auto simp: writeConn_def split: if_splits)
  next
    case False
    show ?thesis
    proof (cases "ss_buffer s \<noteq> [] \<or> ctrl \<and> length b > 0 \<and> b ! 0 = cmdSYN")
      case True
      with False assms obtain bb m r where
        "WriteInitialFlush (ss_padding s) (ss_now s) bb (ss_shaper s) (ss_rand s) = ((m, err), ss_shaper s', r)"
        by (auto simp: writeConn_def flushShaped_def Let_def split: if_splits prod.splits)
      from WriteInitialFlush_wire(2,3) [OF this] show ?thesis by simp
    next
      case nf: False
      show ?thesis
      proof (cases ctrl)
        case True
        with False nf assms obtain m r where
          "WriteControl (ss_padding s) (ss_now s) b (ss_shaper s) (ss_rand s) = ((m, err), ss_shaper s', r)"
          by (auto simp: writeConn_def Let_def split: if_splits prod.splits)
        from WriteControl_wire(2,3) [OF this] show ?thesis by simp
      next
        case c: False
        with False nf assms obtain m where "WriteData (ss_now s) b (ss_shaper s) = ((m, err), ss_shaper s')"
          by (auto simp: writeConn_def Let_def split: if_splits prod.splits)
        from WriteData_wire(2,3) [OF this] show ?thesis by simp
      qed
    qed
  qed
  then show "\<exists>w. wire (ss_conn s') = wire (ss_conn s) @ w" and "c_in (ss_conn s') = c_in (ss_conn s)" by simp_all
qed

section \<open>Data frames\<close>

text \<open>
  The data path leaves the session's life-cycle state alone, except that an error marks the
  connection broken.
\<close>

definition kept :: "Session \<Rightarrow> Session \<Rightarrow> bool" where
  "kept s s' \<longleftrightarrow> ss_closed s' = ss_closed s \<and> ss_streams s' = ss_streams s \<and> ss_objs s' = ss_objs s
     \<and> ss_trace s' = ss_trace s \<and> (\<exists>w. wire (ss_conn s') = wire (ss_conn s) @ w)"

lemma kept_refl: "kept s s"
  by (simp add: kept_def)

lemma kept_trans: "kept a b \<Longrightarrow> kept b c \<Longrightarrow> kept a c"
  by (auto simp: kept_def)

lemma kept_rand [simp]: "kept (s\<lparr>ss_rand := r\<rparr>) s' = kept s s'" "kept s (s'\<lparr>ss_rand := r\<rparr>) = kept s s'"
  by (simp_all add: kept_def)

lemma framed_rand [simp]: "framed (s\<lparr>ss_rand := r\<rparr>) = framed s" "outgoing (s\<lparr>ss_rand := r\<rparr>) = outgoing s"
  by (simp_all add: framed_def outgoing_def)

lemma writeConn_kept:
  assumes "writeConn b ctrl s = ((n, err), s')"
  shows "kept s s' \<and> ss_connBroken s' = ss_connBroken s"
  using writeConn_frame [of b ctrl s] writeConn_grows(1) [OF assms] unfolding assms by (simp add: kept_def)

lemma sendPSH_ok:
  assumes "framed s" "length chunk \<le> maxFrameDataLen" "sendPSH sid chunk s = (None, s')"
  shows "framed s' \<and> outgoing s' = outgoing s @ [pshFrame sid chunk] \<and> kept s s'
    \<and> ss_connBroken s' = ss_connBroken s"
proof -
  obtain n where w: "writeConn (encodeFrame (pshFrame sid chunk)) False s = ((n, None), s')"
    using assms(3) by (auto simp: sendPSH_def Let_def split: prod.splits if_splits)
  have "wire_ok (pshFrame sid chunk)" using assms(2) by (simp add: wire_ok_def pshFrame_def)
  from writeConn_appends [OF assms(1) this w] writeConn_kept [OF w]
  show ?thesis by (simp add: pshFrame_def)
qed

lemma sendPSH_err:
  assumes "sendPSH sid chunk s = (Some e, s')"
  shows "ss_connBroken s' \<and> kept s s'"
proof -
  obtain n s1 where w: "writeConn (encodeFrame (pshFrame sid chunk)) False s = ((n, Some e), s1)"
    and s': "s' = s1\<lparr>ss_connBroken := True\<rparr>"
    using assms by (auto simp: sendPSH_def Let_def split: prod.splits if_splits)
  from writeConn_kept [OF w] s' show ?thesis by (simp add: kept_def)
qed

text \<open>
  The outcome of sending \<open>data\<close> in pieces: the pieces that went out completely, and on success the
  whole of it.
\<close>

definition transmitted ::
    "u32 \<Rightarrow> bytes \<Rightarrow> bytes list \<Rightarrow> Session \<Rightarrow> nat \<times> go_error option \<Rightarrow> Session \<Rightarrow> bool" where
  "transmitted sid data chunks s res s' \<longleftrightarrow> kept s s' \<and> fst res = length (concat chunks) \<and>
     (case snd res of
        None \<Rightarrow> concat chunks = data \<and> framed s' \<and> outgoing s' = outgoing s @ map (pshFrame sid) chunks
          \<and> ss_connBroken s' = ss_connBroken s
      | Some e \<Rightarrow> ss_connBroken s' \<and> (\<exists>s1 rest. data = concat chunks @ rest \<and> rest \<noteq> [] \<and> framed s1
          \<and> outgoing s1 = outgoing s @ map (pshFrame sid) chunks \<and> kept s1 s'))"

lemma transmitted_rand [simp]:
  "transmitted sid data chunks (s\<lparr>ss_rand := r\<rparr>) res s' = transmitted sid data chunks s res s'"
  by (cases "snd res") (simp_all add: transmitted_def)

lemma transmitted_none: "framed s \<Longrightarrow> transmitted sid [] [] s (0, None) s"
  by (simp add: transmitted_def kept_refl)

lemma transmitted_fail:
  assumes "framed s" "data \<noteq> []" "sendPSH sid chunk s = (Some e, s')"
  shows "transmitted sid data [] s (0, Some e) s'"
  using assms sendPSH_err [OF assms(3)] unfolding transmitted_def by (auto simp: kept_refl)

lemma transmitted_step:
  assumes "framed s" "length chunk \<le> maxFrameDataLen" "sendPSH sid chunk s = (None, s1)"
    and "transmitted sid data chunks s1 (n, err) s'"
  shows "transmitted sid (chunk @ data) (chunk # chunks) s (length chunk + n, err) s'"
proof -
  note ok = sendPSH_ok [OF assms(1-3)]
  show ?thesis
  proof (cases err)
    case None
    with ok assms(4) kept_trans [of s s1 s'] show ?thesis by (simp add: transmitted_def)
  next
    case (Some e)
    with assms(4) obtain s2 rest where "data = concat chunks @ rest" "rest \<noteq> []" "framed s2"
      "outgoing s2 = outgoing s1 @ map (pshFrame sid) chunks" "kept s2 s'" by (auto simp: transmitted_def)
    with ok have "chunk @ data = concat (chunk # chunks) @ rest \<and> rest \<noteq> [] \<and> framed s2
      \<and> outgoing s2 = outgoing s @ map (pshFrame sid) (chunk # chunks) \<and> kept s2 s'" by simp
    then have "\<exists>s1 rest. chunk @ data = concat (chunk # chunks) @ rest \<and> rest \<noteq> [] \<and> framed s1
      \<and> outgoing s1 = outgoing s @ map (pshFrame sid) (chunk # chunks) \<and> kept s1 s'" by blast
    with Some ok assms(4) kept_trans [of s s1 s'] show ?thesis
      unfolding transmitted_def by auto
  qed
qed

lemma writeDataLoop_transmits:
  assumes "framed s" "writeDataLoop sid data written s = ((m, err), s')"
  shows "\<exists>chunks n. m = written + n \<and> transmitted sid data chunks s (n, err) s'
    \<and> (\<forall>c \<in> set chunks. c \<noteq> [] \<and> length c \<le> h2MaxFramePayload)"
  using assms
proof (induction sid data written s arbitrary: m rule: writeDataLoop.induct)
  case (1 sid data written s)
  show ?case
  proof (cases "data = []")
    case True
    then have "m = written" "err = None" "s' = s"
      using "1.prems"(2) by (simp_all add: writeDataLoop.simps [of sid "[]"])
    with True transmitted_none [OF "1.prems"(1), of sid] show ?thesis by (intro exI [of _ "[]"]) simp
  next
    case ne: False
    define chunk where "chunk = (if length data > h2MaxFramePayload then take h2MaxFramePayload data else data)"
    have ch: "chunk \<noteq> []" "length chunk \<le> h2MaxFramePayload" "data = chunk @ drop (length chunk) data"
      using ne by (auto simp: chunk_def)
    obtain err1 s1 where s1: "sendPSH sid chunk s = (err1, s1)" by fastforce
    have unf: "writeDataLoop sid data written s = (if err1 \<noteq> None then ((written, err1), s1)
        else writeDataLoop sid (drop (length chunk) data) (written + length chunk) s1)"
      using s1 unfolding chunk_def by (subst writeDataLoop.simps) (simp only: ne Let_def if_False split)
    show ?thesis
    proof (cases err1)
      case (Some e)
      then have "m = written" "err = Some e" "s' = s1"
        using "1.prems"(2) unf by simp_all
      with transmitted_fail [OF "1.prems"(1) ne, of sid chunk e s1] s1 Some show ?thesis
        by (intro exI [of _ "[]"]) simp
    next
      case None
      have len: "length chunk \<le> maxFrameDataLen" using ch(2) by simp
      have loop: "writeDataLoop sid (drop (length chunk) data) (written + length chunk) s1 = ((m, err), s')"
        using "1.prems"(2) unf None by simp
      have fr: "framed s1" using sendPSH_ok [OF "1.prems"(1) len] s1 None by simp
      from "1.IH" [OF ne chunk_def s1 [symmetric] _ _ fr loop] None obtain chunks n where
        c: "m = written + length chunk + n" "transmitted sid (drop (length chunk) data) chunks s1 (n, err) s'"
        "\<forall>c \<in> set chunks. c \<noteq> [] \<and> length c \<le> h2MaxFramePayload" by auto
      from transmitted_step [OF "1.prems"(1) len _ c(2)] s1 None ch(3)
      have "transmitted sid data (chunk # chunks) s (length chunk + n, err) s'" by simp
      with c(1,3) ch(1,2) show ?thesis
        by (intro exI [of _ "chunk # chunks"] exI [of _ "length chunk + n"]) simp
    qed
  qed
qed

lemma writeDataFrame_transmits:
  assumes "framed s" "writeDataFrame sid data s = (res, s')"
  shows "\<exists>chunks. transmitted sid data chunks s res s'
    \<and> (\<forall>c \<in> set chunks. c \<noteq> [] \<and> length c \<le> h2MaxFramePayload)"
proof -
  obtain m err s1 where l: "writeDataLoop sid data 0 s = ((m, err), s1)" by (metis prod.collapse)
  from writeDataLoop_transmits [OF assms(1) l] obtain chunks where
    c: "transmitted sid data chunks s (m, err) s1" "\<forall>c \<in> set chunks. c \<noteq> [] \<and> length c \<le> h2MaxFramePayload"
    by auto
  have "res = (m, err)" "s' = s1"
    using assms(2) l c(1) by (auto simp: writeDataFrame_def transmitted_def split: option.splits)
  with c show ?thesis by blast
qed

text \<open>
  The splitter.  With at least 48 bytes reserved for each remaining piece every piece has at least
  48 bytes, and the first cut is always made when there is room for it.
\<close>

lemma splitLoop_cut:
  assumes "k \<noteq> 0" "\<not> int (length data) - int offset - int earlySplitMin * int k \<le> int earlySplitMin"
    and "FastIntn (int (length data) - int offset - int earlySplitMin * int k - int earlySplitMin + 1) (ss_rand s) = (o', r)"
    and "sendPSH sid (take (earlySplitMin + nat o') (drop offset data)) (s\<lparr>ss_rand := r\<rparr>) = (err, s1)"
  shows "splitLoop (Suc k) sid data offset written s =
    (if err \<noteq> None then ((written, err), s1)
     else splitLoop k sid data (offset + (earlySplitMin + nat o'))
            (written + length (take (earlySplitMin + nat o') (drop offset data))) s1)"
  unfolding splitLoop.simps(2) Let_def using assms by (simp only: if_False split)

lemma splitLoop_transmits:
  assumes "framed s" "splitLoop (Suc k) sid data offset written s = ((m, err), s')"
    and "written = offset" "earlySplitMin * Suc k \<le> length data - offset" "length data \<le> h2MaxFramePayload"
  shows "\<exists>chunks. transmitted sid (drop offset data) chunks s (m - offset, err) s' \<and> offset \<le> m
    \<and> (\<forall>c \<in> set chunks. earlySplitMin \<le> length c)
    \<and> (err = None \<longrightarrow> length chunks \<le> Suc k
         \<and> (0 < k \<and> earlySplitMin * Suc k < length data - offset \<longrightarrow> 2 \<le> length chunks))"
  using assms
proof (induction k arbitrary: offset written s)
  case 0
  have off: "offset \<le> length data" and ne: "drop offset data \<noteq> []"
    and big: "earlySplitMin \<le> length (drop offset data)" using "0.prems"(4) by auto
  have len: "length (drop offset data) \<le> maxFrameDataLen" using "0.prems"(5) by simp
  obtain err1 s1 where s1: "sendPSH sid (drop offset data) s = (err1, s1)" by fastforce
  show ?case
  proof (cases err1)
    case (Some e)
    then have "m = offset" "err = Some e" "s' = s1" using "0.prems"(2,3) s1 by simp_all
    with transmitted_fail [OF "0.prems"(1) ne, of sid "drop offset data" e s1] s1 Some show ?thesis
      by (intro exI [of _ "[]"]) simp
  next
    case None
    then have r: "m = length data" "err = None" "s' = s1" using "0.prems"(2) s1 by simp_all
    have "framed s1" using sendPSH_ok [OF "0.prems"(1) len] s1 None by simp
    from transmitted_step [OF "0.prems"(1) len _ transmitted_none [OF this]] s1 None
    have "transmitted sid (drop offset data) [drop offset data] s (m - offset, err) s'" using r off by simp
    with r off big show ?thesis by (intro exI [of _ "[drop offset data]"]) simp
  qed
next
  case (Suc k)
  let ?maxCut = "int (length data) - int offset - int earlySplitMin * int (Suc k)"
  have off: "offset \<le> length data" and ne: "drop offset data \<noteq> []"
    and big: "earlySplitMin \<le> length (drop offset data)" using Suc.prems(4) by auto
  have len: "length (drop offset data) \<le> maxFrameDataLen" using Suc.prems(5) by simp
  show ?case
  proof (cases "?maxCut \<le> int earlySplitMin")
    case True
    have room: "\<not> earlySplitMin * Suc (Suc k) < length data - offset" using True by simp
    obtain err1 s1 where s1: "sendPSH sid (drop offset data) s = (err1, s1)" by fastforce
    have res: "((m, err), s') = (if err1 \<noteq> None then ((written, err1), s1) else ((length data, None), s1))"
      using Suc.prems(2) True s1 by (simp add: Let_def split: if_splits)
    show ?thesis
    proof (cases err1)
      case (Some e)
      then have "m = offset" "err = Some e" "s' = s1" using res Suc.prems(3) by simp_all
      with transmitted_fail [OF Suc.prems(1) ne, of sid "drop offset data" e s1] s1 Some show ?thesis
        by (intro exI [of _ "[]"]) simp
    next
      case None
      then have r: "m = length data" "err = None" "s' = s1" using res by simp_all
      have "framed s1" using sendPSH_ok [OF Suc.prems(1) len] s1 None by simp
      from transmitted_step [OF Suc.prems(1) len _ transmitted_none [OF this]] s1 None
      have "transmitted sid (drop offset data) [drop offset data] s (m - offset, err) s'" using r off by simp
      with r off big room show ?thesis by (intro exI [of _ "[drop offset data]"]) simp
    qed
  next
    case False
    obtain o' r where o': "FastIntn (?maxCut - int earlySplitMin + 1) (ss_rand s) = (o', r)" by fastforce
    define cut where "cut = earlySplitMin + nat o'"
    define chunk where "chunk = take cut (drop offset data)"
    have range: "0 \<le> o'" "o' \<le> ?maxCut - int earlySplitMin" using FastIntn_range [OF o'] False by auto
    then have "int cut \<le> ?maxCut" by (simp add: cut_def)
    then have "int (offset + cut + 48 * Suc k) \<le> int (length data)" by simp
    then have "offset + cut + 48 * Suc k \<le> length data" by (simp only: of_nat_le_iff)
    then have cut: "earlySplitMin \<le> cut" "offset + cut \<le> length data"
      "earlySplitMin * Suc k \<le> length data - (offset + cut)" by (simp_all add: cut_def)
    have cl: "length chunk = cut" using cut(2) by (simp add: chunk_def)
    then have chm: "length chunk \<le> maxFrameDataLen" using cut(2) Suc.prems(5) by simp
    have split: "drop offset data = chunk @ drop (offset + cut) data"
      by (simp add: chunk_def add.commute flip: drop_drop)
    have fr: "framed (s\<lparr>ss_rand := r\<rparr>)" using Suc.prems(1) by simp
    obtain err1 s1 where s1: "sendPSH sid chunk (s\<lparr>ss_rand := r\<rparr>) = (err1, s1)" by fastforce
    have res: "((m, err), s') = (if err1 \<noteq> None then ((written, err1), s1)
        else splitLoop (Suc k) sid data (offset + cut) (written + length chunk) s1)"
      using splitLoop_cut [OF _ False o', of sid err1 s1 written] s1 Suc.prems(2)
      unfolding cut_def chunk_def by auto
    show ?thesis
    proof (cases err1)
      case (Some e)
      then have "m = offset" "err = Some e" "s' = s1" using res Suc.prems(3) by simp_all
      moreover have "transmitted sid (drop offset data) [] s (0, Some e) s1"
        using transmitted_fail [OF fr ne, of sid chunk e s1] s1 Some by (simp add: transmitted_def)
      ultimately show ?thesis by (intro exI [of _ "[]"]) simp
    next
      case None
      have fr1: "framed s1" using sendPSH_ok [OF fr chm] s1 None by simp
      have loop: "splitLoop (Suc k) sid data (offset + cut) (written + length chunk) s1 = ((m, err), s')"
        using res None by simp
      have "written + length chunk = offset + cut" using Suc.prems(3) cl by simp
      from Suc.IH [OF fr1 loop this cut(3) Suc.prems(5)] obtain chunks where
        c: "transmitted sid (drop (offset + cut) data) chunks s1 (m - (offset + cut), err) s'" "offset + cut \<le> m"
        "\<forall>c \<in> set chunks. earlySplitMin \<le> length c" "err = None \<longrightarrow> length chunks \<le> Suc k" by auto
      have "transmitted sid (drop offset data) (chunk # chunks) (s\<lparr>ss_rand := r\<rparr>) (length chunk + (m - (offset + cut)), err) s'"
        unfolding split using transmitted_step [OF fr chm _ c(1)] s1 None by simp
      then have t: "transmitted sid (drop offset data) (chunk # chunks) s (m - offset, err) s'"
        using c(2) cl by simp
      moreover have "chunks \<noteq> []" if "err = None"
        using that c(1) cut(3) by (auto simp: transmitted_def)
      then have "err = None \<longrightarrow> 2 \<le> length (chunk # chunks)" by (cases chunks) auto
      ultimately show ?thesis using c cl cut(1) by (intro exI [of _ "chunk # chunks"]) auto
    qed
  qed
qed

lemma data_write_chunks:
  assumes "framed s" "writeDataFrameShaped sid data early s = (res, s')"
  shows "\<exists>chunks. transmitted sid data chunks s res s'
    \<and> (\<forall>c \<in> set chunks. c \<noteq> [] \<and> length c \<le> 16384)
    \<and> (early \<and> 256 < length data \<and> length data \<le> 16384 \<and> snd res = None \<longrightarrow>
         2 \<le> length chunks \<and> length chunks \<le> 3 \<and> (\<forall>c \<in> set chunks. 48 \<le> length c))"
proof (cases "early \<and> 256 < length data \<and> length data \<le> 16384")
  case False
  with assms(2) have "writeDataFrame sid data s = (res, s')" by (auto simp: writeDataFrameShaped_def)
  from writeDataFrame_transmits [OF assms(1) this] False show ?thesis by auto
next
  case True
  define k where "k = (if length data > 600 then 2 else (1::nat))"
  obtain m err where res: "res = (m, err)" by fastforce
  have loop: "splitLoop (Suc k) sid data 0 0 s = ((m, err), s')"
    using assms(2) True res
    by (simp add: writeDataFrameShaped_def writeDataFrameSplit_def k_def numeral_2_eq_2 numeral_3_eq_3 del: splitLoop.simps split: if_splits)
  have room: "0 < k" "k \<le> 2" "earlySplitMin * Suc k < length data - 0" using True by (auto simp: k_def)
  from splitLoop_transmits [OF assms(1) loop refl _ _] room True obtain chunks where
    c: "transmitted sid data chunks s res s'" "\<forall>c \<in> set chunks. 48 \<le> length c"
    "err = None \<longrightarrow> length chunks \<le> Suc k \<and> 2 \<le> length chunks" using res by auto
  have "length c \<le> 16384" if "c \<in> set chunks" for c
  proof -
    have "length c \<le> length (concat chunks)" using that by (induction chunks) auto
    also have "\<dots> \<le> length data" using c(1) by (auto simp: transmitted_def split: option.splits)
    finally show ?thesis using True by simp
  qed
  with c room(2) res show ?thesis by (intro exI [of _ chunks]) force
qed

text \<open>
  Property C3.  A data write transmits exactly its bytes: on success the peer decodes, after everything
  sent before, \<open>PSH\<close> frames of this stream whose payloads concatenate to the data, each between 1 and
  16384 bytes, and the reported count is the length of the data; early mid-sized data goes out in
  two or three pieces of at least 48 bytes.  On failure the count is the number of bytes in the pieces
  that went out completely (the rest was not), the connection is marked broken and the session is
  neither closed nor are its streams touched.
\<close>

theorem data_write_transmits:
  assumes "framed s" "writeDataFrameShaped sid data early s = (res, s')"
  shows "\<exists>chunks. transmitted sid data chunks s res s'
    \<and> (\<forall>c \<in> set chunks. c \<noteq> [] \<and> length c \<le> 16384)
    \<and> (early \<and> 256 < length data \<and> length data \<le> 16384 \<and> snd res = None \<longrightarrow>
         2 \<le> length chunks \<and> length chunks \<le> 3 \<and> (\<forall>c \<in> set chunks. 48 \<le> length c))"
  using assms by (rule data_write_chunks)

text \<open>A fresh connection that will accept every write.\<close>

definition quietConn :: "bytes \<Rightarrow> conn" where
  "quietConn inp = \<lparr>c_in = inp, c_out = [], c_sched = [], c_deadline = None, c_closed = False\<rparr>"

lemma framed_new: "c_out c = [] \<Longrightarrow> framed (newSession client c pf now r)"
  unfolding framed_def
  by (intro exI [of _ "[]"]) (simp add: newSession_def newRecordShaper_def wire_def Let_def split_beta)

theorem data_write_transmits_witness:
  "\<exists>chunks. transmitted 7 [1, 2, 3] chunks (NewServerSession (quietConn []) sample_factory 0 [])
     (fst (writeDataFrameShaped 7 [1, 2, 3] True (NewServerSession (quietConn []) sample_factory 0 [])))
     (snd (writeDataFrameShaped 7 [1, 2, 3] True (NewServerSession (quietConn []) sample_factory 0 [])))"
proof -
  have "framed (NewServerSession (quietConn []) sample_factory 0 [])"
    unfolding NewServerSession_def by (rule framed_new) (simp add: quietConn_def)
  from data_write_transmits [OF this, of 7 "[1, 2, 3]" True] show ?thesis by (metis prod.collapse)
qed

section \<open>Control frames\<close>

lemma closeLocally_frame [simp]:
  "ss_shaper (closeLocally i s) = ss_shaper s" "ss_closed (closeLocally i s) = ss_closed s"
  "ss_streams (closeLocally i s) = ss_streams s" "ss_buffer (closeLocally i s) = ss_buffer s"
  "ss_now (closeLocally i s) = ss_now s" "ss_connLocked (closeLocally i s) = ss_connLocked s"
  "ss_rand (closeLocally i s) = ss_rand s" "length (ss_objs (closeLocally i s)) = length (ss_objs s)"
  by (auto simp: closeLocally_def dieStream_def updStream_def emit_def Let_def)

lemma foldl_closeLocally_frame [simp]:
  "ss_shaper (foldl (\<lambda>s i. closeLocally i s) s is) = ss_shaper s"
  "ss_closed (foldl (\<lambda>s i. closeLocally i s) s is) = ss_closed s"
  "ss_now (foldl (\<lambda>s i. closeLocally i s) s is) = ss_now s"
  "ss_connLocked (foldl (\<lambda>s i. closeLocally i s) s is) = ss_connLocked s"
  "ss_rand (foldl (\<lambda>s i. closeLocally i s) s is) = ss_rand s"
  "length (ss_objs (foldl (\<lambda>s i. closeLocally i s) s is)) = length (ss_objs s)"
  by (induction "is" arbitrary: s) simp_all

lemma setConn_simps [simp]:
  "ss_conn (setConn c s) = c" "ss_closed (setConn c s) = ss_closed s" "ss_streams (setConn c s) = ss_streams s"
  "ss_objs (setConn c s) = ss_objs s" "ss_now (setConn c s) = ss_now s" "ss_trace (setConn c s) = ss_trace s"
  "ss_rand (setConn c s) = ss_rand s" "ss_connLocked (setConn c s) = ss_connLocked s"
  by (simp_all add: setConn_def)

lemma writeFrameBytes_frame [simp]:
  "ss_closed (writeFrameBytes cmd sid n s) = ss_closed s" "ss_streams (writeFrameBytes cmd sid n s) = ss_streams s"
  "ss_objs (writeFrameBytes cmd sid n s) = ss_objs s" "ss_trace (writeFrameBytes cmd sid n s) = ss_trace s"
  "c_in (ss_conn (writeFrameBytes cmd sid n s)) = c_in (ss_conn s)"
  by (simp_all add: writeFrameBytes_def Let_def split_beta)

lemma Close_closed [simp]: "ss_closed (snd (Close s))"
  by (simp add: Close_def Let_def split_beta signalIdleReady_def emit_def)

lemma foldl_closeLocally_connBroken [simp]:
  "ss_connBroken (foldl (\<lambda>s i. closeLocally i s) s is) = ss_connBroken s"
  by (induction "is" arbitrary: s)
    (simp_all add: closeLocally_def dieStream_def updStream_def emit_def Let_def)

lemma Close_connBroken: "ss_connBroken (snd (Close s)) = ss_connBroken s"
  by (simp add: Close_def writeFrameBytes_def setConn_def Let_def split_beta signalIdleReady_def emit_def)

lemma Close_in [simp]: "c_in (ss_conn (snd (Close s))) = c_in (ss_conn s)"
  by (simp add: Close_def Let_def split_beta signalIdleReady_def emit_def)

lemma Close_again: "ss_closed s \<Longrightarrow> Close s = (Some ErrClosedPipe, s)"
  by (simp add: Close_def)

lemma writeControlFrame_cases:
  assumes "writeControlFrame f s = ((n, err), s')" "wire_ok f"
  shows "\<exists>m s1. writeConn (encodeFrame f) True s = ((m, err), s1)
    \<and> (case err of None \<Rightarrow> s' = s1 \<and> n = length (f_data f) | Some e \<Rightarrow> s' = snd (Close s1) \<and> n = 0)"
  using assms by (auto simp: writeControlFrame_def wire_ok_def Let_def split: prod.splits option.splits)

end
