(* ===== verification/MigRegistry.thy ===== *)
theory MigRegistry
  imports Frame "HOL-Library.AList"
begin

text \<open>
  The carrier registry of \<open>session/migration.go\<close> and the frame that opens a carrier: a server stream
  that offers a cut-over registers a token, the client presents the token on a fresh connection, and
  \<open>MaybeAcceptCarrier\<close> matches the two.  A stream is referred to by a value of type \<open>'sm\<close>, a
  connection by the bytes it still has to deliver.
\<close>

section \<open>The registry\<close>

definition migTokenLen :: nat where [simp]: "migTokenLen = 16"
definition migCarrierPadMin :: nat where [simp]: "migCarrierPadMin = 128"
definition migCarrierPadRange :: nat where [simp]: "migCarrierPadRange = 512"
definition migCarrierMaxData :: nat where [simp]: "migCarrierMaxData = 4096"

type_synonym migToken = bytes

type_synonym 'sm MigRegistry = "(migToken \<times> 'sm) list"

definition NewMigRegistry :: "'sm MigRegistry" where
  "NewMigRegistry = []"

definition register :: "migToken \<Rightarrow> 'sm \<Rightarrow> 'sm MigRegistry \<Rightarrow> 'sm MigRegistry" where
  "register tok sm r = AList.update tok sm r"

text \<open>The callback of \<open>register\<close>, \<open>migRegistryTTL\<close> later.\<close>

definition expireToken :: "migToken \<Rightarrow> 'sm \<Rightarrow> 'sm MigRegistry \<Rightarrow> 'sm MigRegistry" where
  "expireToken tok sm r = (if map_of r tok = Some sm then AList.delete tok r else r)"

definition takeToken :: "migToken \<Rightarrow> 'sm MigRegistry \<Rightarrow> 'sm option \<times> 'sm MigRegistry" where
  "takeToken tok r = (map_of r tok, AList.delete tok r)"

section \<open>Opening a carrier\<close>

text \<open>The first bytes \<open>clientStartCarrier\<close> writes on the carrier.\<close>

definition carrierHello :: "u32 \<Rightarrow> migToken \<Rightarrow> rand \<Rightarrow> bytes \<times> rand" where
  "carrierHello sid tok r =
     (let (off, r) = FastIntn (int migCarrierPadRange) r;
          padLen = migCarrierPadMin + nat off;
          (filler, r) = FillRandom padLen r
      in (frameHeader cmdMigrateCarrier sid (migTokenLen + padLen) @ tok @ filler, r))"

datatype 'sm carrier =
    CarrierErr go_error
  | NotCarrier bytes
  | CarrierDropped
  | CarrierAttached 'sm bytes

text \<open>
  \<open>MaybeAcceptCarrier\<close> up to \<open>serverAttachCarrier\<close>: the verdict, with the bytes the returned or
  attached connection will deliver, and the registry.
\<close>

definition MaybeAcceptCarrier :: "bytes \<Rightarrow> 'sm MigRegistry option \<Rightarrow> 'sm carrier \<times> 'sm MigRegistry option" where
  "MaybeAcceptCarrier conn reg =
     (case ReadFull headerOverHeadSize conn of
        Inl e \<Rightarrow> (CarrierErr e, reg)
      | Inr (hdr, conn) \<Rightarrow>
          if Cmd hdr \<noteq> cmdMigrateCarrier then (NotCarrier (hdr @ conn), reg)
          else let n = unat (Length hdr)
               in if n < migTokenLen \<or> n > migCarrierMaxData then (CarrierDropped, reg)
                  else case ReadFull n conn of
                         Inl e \<Rightarrow> (CarrierDropped, reg)
                       | Inr (payload, conn) \<Rightarrow>
                           let tok = take migTokenLen payload
                           in case reg of
                                None \<Rightarrow> (CarrierDropped, reg)
                              | Some r \<Rightarrow>
                                  let (sm, r) = takeToken tok r
                                  in case sm of
                                       None \<Rightarrow> (CarrierDropped, Some r)
                                     | Some sm \<Rightarrow> (CarrierAttached sm conn, Some r))"

lemma carrierHello_frame:
  assumes "length tok = migTokenLen" "carrierHello sid tok r = (hello, r')"
  shows "\<exists>filler. hello = frameHeader cmdMigrateCarrier sid (length (tok @ filler)) @ tok @ filler
    \<and> 128 \<le> length filler \<and> length filler \<le> 639"
proof -
  obtain off r1 where o: "FastIntn 512 r = (off, r1)" by fastforce
  have "0 \<le> off" "off < 512" using FastIntn_range [OF o] by simp_all
  then have "nat off \<le> 511" by simp
  with assms o length_FillRandom [of "128 + nat off" r1] show ?thesis
    by (intro exI [of _ "fst (FillRandom (128 + nat off) r1)"]) (auto simp: carrierHello_def Let_def split_beta)
qed

text \<open>What the registry does with a well-formed carrier frame.\<close>

lemma accept_hello:
  assumes "length tok = migTokenLen" "length filler \<le> 639"
  shows "MaybeAcceptCarrier (frameHeader cmdMigrateCarrier sid (length (tok @ filler)) @ (tok @ filler) @ rest) (Some reg)
    = ((case map_of reg tok of Some sm \<Rightarrow> CarrierAttached sm rest | None \<Rightarrow> CarrierDropped), Some (AList.delete tok reg))"
proof -
  let ?n = "length (tok @ filler)"
  have b: "\<not> ?n < 16" "\<not> 4096 < ?n" using assms by simp_all
  have n: "unat (Length (frameHeader cmdMigrateCarrier sid ?n)) = ?n"
    using assms by (intro frameHeader_fields(3)) simp
  have "ReadFull headerOverHeadSize (frameHeader cmdMigrateCarrier sid ?n @ (tok @ filler) @ rest)
      = Inr (frameHeader cmdMigrateCarrier sid ?n, (tok @ filler) @ rest)"
    "ReadFull ?n ((tok @ filler) @ rest) = Inr (tok @ filler, rest)"
    by (rule ReadFull_append, simp)+
  then show ?thesis using assms n b
    by (simp add: MaybeAcceptCarrier_def takeToken_def Let_def del: append_assoc length_append headerOverHeadSize_def split: option.split)
qed

text \<open>
  Property C15.  Matching: the connection on which a client opens a carrier for a registered token is
  attached to the stream that registered it, with exactly the bytes that follow the opening frame still
  unread, for every random padding; the token is spent, so a second carrier with it is dropped.
\<close>

theorem carrier_matched_once:
  assumes "length tok = migTokenLen"
    and "carrierHello sid tok r = (hello, r')" "carrierHello sid2 tok r2 = (hello2, r2')"
  shows "\<exists>reg'. MaybeAcceptCarrier (hello @ rest) (Some (register tok sm reg)) = (CarrierAttached sm rest, Some reg')
    \<and> map_of reg' tok = None
    \<and> (\<forall>tok'. tok' \<noteq> tok \<longrightarrow> map_of reg' tok' = map_of reg tok')
    \<and> fst (MaybeAcceptCarrier (hello2 @ rest2) (Some reg')) = CarrierDropped"
proof -
  from carrierHello_frame [OF assms(1,2)] obtain filler where
    f: "hello = frameHeader cmdMigrateCarrier sid (length (tok @ filler)) @ tok @ filler" "length filler \<le> 639" by blast
  from carrierHello_frame [OF assms(1,3)] obtain filler2 where
    f2: "hello2 = frameHeader cmdMigrateCarrier sid2 (length (tok @ filler2)) @ tok @ filler2" "length filler2 \<le> 639" by blast
  let ?reg' = "AList.delete tok (register tok sm reg)"
  have "MaybeAcceptCarrier (hello @ rest) (Some (register tok sm reg)) = (CarrierAttached sm rest, Some ?reg')"
    using accept_hello [OF assms(1) f(2), of sid rest "register tok sm reg"]
    by (simp add: f(1) register_def update_conv)
  moreover have "fst (MaybeAcceptCarrier (hello2 @ rest2) (Some ?reg')) = CarrierDropped"
    using accept_hello [OF assms(1) f2(2), of sid2 rest2 ?reg'] by (simp add: f2(1) delete_conv)
  ultimately show ?thesis by (auto simp: register_def update_conv delete_conv)
qed

theorem carrier_matched_once_witness:
  "\<exists>reg'. MaybeAcceptCarrier (fst (carrierHello 3 (replicate 16 7) []) @ [9]) (Some (register (replicate 16 7) True []))
     = (CarrierAttached True [9], Some reg')"
proof -
  obtain hello r' where h: "carrierHello 3 (replicate 16 7) [] = (hello, r')" by fastforce
  have "length (replicate 16 (7 :: byte)) = migTokenLen" by simp
  from carrier_matched_once [OF this h h, of "[9]" True "[]"] show ?thesis using h by auto
qed

end
