(* ===== verification/Session_Recv.thy ===== *)
theory Session_Recv
  imports Session_Write MigRegistry
begin

text \<open>
  The receive loop of a session (\<open>recvLoop\<close> of \<open>session/session.go\<close>) and the loops that run beside it:
  window-update camouflage, idle injection and the heartbeat.  One iteration of the loop is one step;
  it either goes on or returns, and the loop closes the session when it returns.
\<close>

section \<open>Window-update camouflage\<close>

definition writeWindowUpdateWaste :: "Session \<Rightarrow> Session" where
  "writeWindowUpdateWaste s =
     (if IsClosed s \<or> ss_connBroken s then s
      else if ss_connLocked s then s
      else let (p1, r) = FillRandom 6 (ss_rand s);
               (p2, r) = FillRandom 6 r;
               frm = frameHeader cmdWaste 0 6 @ p1 @ frameHeader cmdWaste 0 6 @ p2;
               s = s\<lparr>ss_rand := r\<rparr>;
               c = SetWriteDeadline (Some (ss_now s + second)) (ss_conn s);
               ((n, err), c) = connWrite (ss_now s) frm c;
               s = setConn (SetWriteDeadline None c) s
           in case err of
                Some e \<Rightarrow> if n > 0 then s\<lparr>ss_connBroken := True\<rparr> else s
              | None \<Rightarrow> s\<lparr>ss_shaper := (ss_shaper s)\<lparr>rs_LastWrite := ss_now s\<rparr>\<rparr>)"

text \<open>\<open>recvBytes\<close> bookkeeping after a data frame of \<open>n\<close> bytes.\<close>

definition trackRecvBytes :: "nat \<Rightarrow> Session \<Rightarrow> Session" where
  "trackRecvBytes n s =
     (if ss_wndUpdateTrigger s > 0
      then let s = s\<lparr>ss_recvBytes := wrap64 (ss_recvBytes s + int n)\<rparr>
           in if ss_recvBytes s \<ge> ss_wndUpdateTrigger s
              then let s = writeWindowUpdateWaste (s\<lparr>ss_recvBytes := 0\<rparr>);
                       (trigger, r) = nextWndInterval (ss_wndUpdateBase s) (ss_rand s)
                   in s\<lparr>ss_wndUpdateTrigger := trigger, ss_rand := r\<rparr>
              else s
      else s)"

section \<open>Idle injection\<close>

definition maybeStartIdleLoop :: "Session \<Rightarrow> Session" where
  "maybeStartIdleLoop s =
     (let cfg = RecordConfig (ss_padding s)
      in if length (IdleSizes cfg) = 0 \<or> snd (IdleIntervalMs cfg) \<le> 0 then s
         else if ss_idleLoop s then s
         else emit EvStartIdleLoop (s\<lparr>ss_idleLoop := True\<rparr>))"

text \<open>The start of \<open>idleLoop\<close> once \<open>idleReady\<close> is closed: refresh the configuration, decide to run.\<close>

definition idleLoopStart :: "Session \<Rightarrow> bool \<times> Session" where
  "idleLoopStart s =
     (if ss_closed s then (False, s)
      else let s = s\<lparr>ss_shaper := maybeRefreshConfig (ss_padding s) (ss_shaper s)\<rparr>
           in (IdleEnabled (ss_shaper s), s))"

text \<open>One tick of \<open>idleLoop\<close>; the answer says whether the loop goes on.\<close>

definition idleTick :: "Session \<Rightarrow> bool \<times> Session" where
  "idleTick s =
     (if ss_closed s then (False, s)
      else if ss_connBroken s then (False, snd (Close s))
      else if ss_buffering s then (True, s)
      else let (frm, rs, r) = BuildIdleFrame (ss_padding s) (ss_now s) (ss_shaper s) (ss_rand s);
               s = s\<lparr>ss_shaper := rs, ss_rand := r\<rparr>
           in case frm of
                None \<Rightarrow> (True, s)
              | Some b \<Rightarrow>
                  let (err, rs) = writeWithDeadline (ss_now s) b (ss_shaper s);
                      s = s\<lparr>ss_shaper := rs\<rparr>
                  in if err \<noteq> None then (False, snd (Close (s\<lparr>ss_connBroken := True\<rparr>))) else (True, s))"

section \<open>Heartbeat\<close>

text \<open>The client's configured values, 0 when there is no client or no setting.\<close>

definition heartbeatValue :: "duration \<Rightarrow> duration \<Rightarrow> duration" where
  "heartbeatValue configured dflt = (if configured > 0 then configured else dflt)"

definition defaultHeartbeatInterval :: duration where "defaultHeartbeatInterval = 15 * second"
definition defaultHeartbeatQuietWindow :: duration where "defaultHeartbeatQuietWindow = 10 * second"
definition defaultHeartbeatTimeout :: duration where "defaultHeartbeatTimeout = 5 * second"

definition nextHeartbeatInterval :: "duration \<Rightarrow> rand \<Rightarrow> duration \<times> rand" where
  "nextHeartbeatInterval configured r =
     (let base = heartbeatValue configured defaultHeartbeatInterval div millisecond;
          jitter = base div 4;
          (off, r) = FastIntn (2 * jitter + 1) r
      in (wrap64 ((base - jitter + off) * millisecond), r))"

datatype probe = ProbeStop | ProbeQuiet | ProbeSent int

text \<open>
  \<open>heartbeatProbe\<close> up to the request, and its verdict after the timeout.  \<open>stuck\<close> says that the
  request's write did not finish within \<open>writeDeadline\<close> plus the timeout, \<open>blocked\<close> is \<open>recvBlocked\<close>.
\<close>

definition heartbeatSend :: "duration \<Rightarrow> bool \<Rightarrow> Session \<Rightarrow> probe \<times> Session" where
  "heartbeatSend quietWindow stuck s =
     (if ss_closed s \<or> ss_connBroken s then (ProbeStop, s)
      else if ss_lastHeartRespNano s \<noteq> 0 \<and>
              ss_now s - ss_lastHeartRespNano s < heartbeatValue quietWindow defaultHeartbeatQuietWindow
      then (ProbeQuiet, s)
      else if ss_buffering s then (ProbeQuiet, s)
      else if stuck then (ProbeStop, snd (Close (s\<lparr>ss_connBroken := True\<rparr>)))
      else let sentAt = ss_now s;
               ((_, err), s) = writeControlFrame (newFrame cmdHeartRequest 0) s
           in (if err = None then ProbeSent sentAt else ProbeStop, s))"

definition heartbeatVerdict :: "int \<Rightarrow> bool \<Rightarrow> Session \<Rightarrow> bool \<times> Session" where
  "heartbeatVerdict sentAt blocked s =
     (if ss_closed s then (False, s)
      else if ss_lastHeartRespNano s < sentAt
      then if blocked then (True, s) else (False, snd (Close (s\<lparr>ss_connBroken := True\<rparr>)))
      else (True, s))"

section \<open>One iteration of the receive loop\<close>

datatype 'a iter = Continue 'a | Return "go_error option" 'a

definition lookupStream :: "u32 \<Rightarrow> Session \<Rightarrow> nat option" where
  "lookupStream sid s = map_of (ss_streams s) sid"

text \<open>\<open>io.ReadFull(s.conn, buf)\<close>: the bytes, with the rest of the input left in the connection.\<close>

definition readConn :: "nat \<Rightarrow> Session \<Rightarrow> (go_error + bytes) \<times> Session" where
  "readConn n s =
     (if c_closed (ss_conn s) then (Inl NetErrClosed, s)
      else case ReadFull n (c_in (ss_conn s)) of
             Inl e \<Rightarrow> (Inl e, setConn ((ss_conn s)\<lparr>c_in := []\<rparr>) s)
           | Inr (b, rest) \<Rightarrow> (Inr b, setConn ((ss_conn s)\<lparr>c_in := rest\<rparr>) s))"

text \<open>Read a frame's payload, return on a read error, otherwise go on with it.\<close>

definition withPayload :: "nat \<Rightarrow> (bytes \<Rightarrow> Session \<Rightarrow> Session iter) \<Rightarrow> Session \<Rightarrow> Session iter" where
  "withPayload n k s =
     (if n > 0
      then case readConn n s of
             (Inl e, s) \<Rightarrow> Return (Some e) s
           | (Inr b, s) \<Rightarrow> k b s
      else Continue s)"

text \<open>Send a control frame, return on an error.\<close>

definition sendOrReturn :: "frame \<Rightarrow> (Session \<Rightarrow> Session iter) \<Rightarrow> Session \<Rightarrow> Session iter" where
  "sendOrReturn f k s =
     (case writeControlFrame f s of
        ((_, Some e), s) \<Rightarrow> Return (Some e) s
      | ((_, None), s) \<Rightarrow> k s)"

definition recvPSH :: "u32 \<Rightarrow> nat \<Rightarrow> Session \<Rightarrow> Session iter" where
  "recvPSH sid n s =
     withPayload n (\<lambda>b s.
       let s = (case lookupStream sid s of Some i \<Rightarrow> emit (EvDeliver i b) s | None \<Rightarrow> s)
       in Continue (trackRecvBytes n s)) s"

definition recvSYN :: "u32 \<Rightarrow> Session \<Rightarrow> Session iter" where
  "recvSYN sid s =
     (if \<not> ss_isClient s \<and> \<not> ss_receivedSettings s
      then let (_, s) = writeControlFrame
                 ((newFrame cmdAlert 0)\<lparr>f_data := bytes_of ''client did not send its settings''\<rparr>) s
           in Return None s
      else case lookupStream sid s of
             Some _ \<Rightarrow> Continue s
           | None \<Rightarrow>
               let (i, s) = newStream sid s;
                   s = s\<lparr>ss_streams := AList.update sid i (ss_streams s)\<rparr>
               in Continue (emit (EvAccept i) s))"

definition recvSYNACK :: "u32 \<Rightarrow> nat \<Rightarrow> Session \<Rightarrow> Session iter" where
  "recvSYNACK sid n s =
     (let s = s\<lparr>ss_consecutiveSynAckTimeouts := 0\<rparr>;
          s = (case lookupStream sid s of
                 Some i \<Rightarrow> updStream i (\<lambda>st. st\<lparr>st_synTimer := False\<rparr>) s
               | None \<Rightarrow> s)
      in withPayload n (\<lambda>b s.
           Continue (case lookupStream sid s of
                       Some i \<Rightarrow> snd (closeWithError i (RemoteError (string_of b)) s)
                     | None \<Rightarrow> s)) s)"

definition recvFIN :: "u32 \<Rightarrow> Session \<Rightarrow> Session iter" where
  "recvFIN sid s =
     (let old = lookupStream sid s;
          s = s\<lparr>ss_streams := AList.delete sid (ss_streams s)\<rparr>
      in Continue (case old of Some i \<Rightarrow> closeLocally i s | None \<Rightarrow> s))"

definition serverSettings :: StringMap where
  "serverSettings = [(''v'', ''2''), (''rs'', ''1'')]"

text \<open>The server's answer to a client's settings.\<close>

definition recvSettings :: "nat \<Rightarrow> Session \<Rightarrow> Session iter" where
  "recvSettings n s =
     withPayload n (\<lambda>b s.
       if ss_isClient s then Continue s
       else let s = s\<lparr>ss_receivedSettings := True\<rparr>;
                m = StringMapFromBytes b
            in if sm_get m ''rs'' \<noteq> ''1''
               then let (_, s) = writeControlFrame ((newFrame cmdAlert 0)\<lparr>f_data :=
                          bytes_of ''client does not support record shaper, please upgrade''\<rparr>) s
                    in Return None s
               else let s = (if ss_migRegistry s \<and> sm_get m ''mig'' = ''1''
                             then s\<lparr>ss_migActive := True\<rparr> else s);
                        paddingF = ss_padding s;
                        needUpdate = (sm_get m ''padding-md5'' \<noteq> Md5 paddingF);
                        v = Atoi (sm_get m ''v'');
                        needServerSettings = (case v of Some v \<Rightarrow> v \<ge> 2 | None \<Rightarrow> False);
                        s = (if needServerSettings then s\<lparr>ss_peerVersion := word_of_int (the v)\<rparr> else s);
                        ack = (\<lambda>s. sendOrReturn (newFrame cmdWaste 0) (\<lambda>s.
                                 if needUpdate
                                 then sendOrReturn ((newFrame cmdUpdatePaddingScheme 0)\<lparr>f_data := RawScheme paddingF\<rparr>)
                                        (\<lambda>s. Continue (signalIdleReady s)) s
                                 else Continue (signalIdleReady s)) s)
                    in if needServerSettings
                       then sendOrReturn ((newFrame cmdServerSettings 0)\<lparr>f_data := ToBytes serverSettings\<rparr>) ack s
                       else ack s) s"

definition recvUpdatePaddingScheme :: "(bytes \<Rightarrow> string) \<Rightarrow> nat \<Rightarrow> Session \<Rightarrow> Session iter" where
  "recvUpdatePaddingScheme md5 n s =
     (if n > maxPaddingSchemeLen then Return (Some (OtherError ''padding scheme too large'')) s
      else withPayload n (\<lambda>raw s.
             if ss_isClient s
             then let (ok, pf) = UpdatePaddingScheme md5 raw (ss_padding s)
                  in Continue (if ok then maybeStartIdleLoop (s\<lparr>ss_padding := pf\<rparr>) else s)
             else Continue s) s)"

text \<open>The client's side of the settings exchange.\<close>

definition recvServerSettings :: "nat \<Rightarrow> Session \<Rightarrow> Session iter" where
  "recvServerSettings n s =
     withPayload n (\<lambda>b s.
       if \<not> ss_isClient s then Continue s
       else let m = StringMapFromBytes b
            in if sm_get m ''rs'' \<noteq> ''1''
               then Return (Some (OtherError ''anytls-x: peer does not support the record shaper'')) s
               else let s = (case Atoi (sm_get m ''v'') of
                               Some v \<Rightarrow> s\<lparr>ss_peerVersion := word_of_int v\<rparr> | None \<Rightarrow> s);
                        (_, s) = writeControlFrame (newFrame cmdWaste 0) s
                    in Continue (signalIdleReady s)) s"

definition recvMigrateReady :: "u32 \<Rightarrow> nat \<Rightarrow> Session \<Rightarrow> Session iter" where
  "recvMigrateReady sid n s =
     withPayload n (\<lambda>b s.
       Continue (if ss_isClient s \<and> n \<ge> migTokenLen
                 then case lookupStream sid s of
                        Some i \<Rightarrow> if st_mig (ss_objs s ! i) then emit (EvStartCarrier i (take migTokenLen b)) s else s
                      | None \<Rightarrow> s
                 else s)) s"

text \<open>The two barriers: drain a payload that should not be there, then act in the right direction only.\<close>

definition recvBarrier :: "bool \<Rightarrow> (nat \<Rightarrow> event) \<Rightarrow> u32 \<Rightarrow> nat \<Rightarrow> Session \<Rightarrow> Session iter" where
  "recvBarrier forClient ev sid n s =
     (let act = (\<lambda>s. Continue (if ss_isClient s = forClient
                 then case lookupStream sid s of
                        Some i \<Rightarrow> if st_mig (ss_objs s ! i) then emit (ev i) s else s
                      | None \<Rightarrow> s
                 else s))
      in if n > 0 then withPayload n (\<lambda>b. act) s else act s)"

definition recvStep :: "(bytes \<Rightarrow> string) \<Rightarrow> Session \<Rightarrow> Session iter" where
  "recvStep md5 s =
     (if IsClosed s then Return (Some ErrClosedPipe) s
      else case readConn headerOverHeadSize s of
             (Inl e, s) \<Rightarrow> Return (Some e) s
           | (Inr hdr, s) \<Rightarrow>
               let sid = StreamID hdr; n = unat (Length hdr); cmd = Cmd hdr
               in if cmd = cmdPSH then recvPSH sid n s
                  else if cmd = cmdSYN then recvSYN sid s
                  else if cmd = cmdSYNACK then recvSYNACK sid n s
                  else if cmd = cmdFIN then recvFIN sid s
                  else if cmd = cmdWaste then withPayload n (\<lambda>_. Continue) s
                  else if cmd = cmdSettings then recvSettings n s
                  else if cmd = cmdAlert
                  then withPayload n (\<lambda>b s. Return None (if ss_isClient s then emit (EvAlert b) s else s)) s
                  else if cmd = cmdUpdatePaddingScheme then recvUpdatePaddingScheme md5 n s
                  else if cmd = cmdHeartRequest
                  then sendOrReturn (newFrame cmdHeartResponse sid) Continue s
                  else if cmd = cmdHeartResponse then Continue (s\<lparr>ss_lastHeartRespNano := ss_now s\<rparr>)
                  else if cmd = cmdServerSettings then recvServerSettings n s
                  else if cmd = cmdMigrateReady then recvMigrateReady sid n s
                  else if cmd = cmdMigrateGo then recvBarrier True EvMigrateGo sid n s
                  else if cmd = cmdUplinkFin then recvBarrier False EvUplinkFin sid n s
                  else withPayload n (\<lambda>_. Continue) s)"

section \<open>Starting a session\<close>

definition clientVersion :: string where "clientVersion = ''anytls-x/0.0.11''"

text \<open>The settings a client announces, in the order of the source's literal.\<close>

definition clientSettings :: "Session \<Rightarrow> StringMap" where
  "clientSettings s =
     [(''v'', ''2''), (''client'', clientVersion), (''padding-md5'', Md5 (ss_padding s)), (''rs'', ''1'')]
     @ (if ss_migActive s then [(''mig'', ''1'')] else [])"

text \<open>\<open>Run\<close> up to the point where the loops start.\<close>

definition Run :: "Session \<Rightarrow> Session" where
  "Run s =
     (let s = maybeStartIdleLoop s
      in if \<not> ss_isClient s then s
         else let f = (newFrame cmdSettings 0)\<lparr>f_data := ToBytes (clientSettings s)\<rparr>
              in snd (writeControlFrame f (s\<lparr>ss_buffering := True\<rparr>)))"

section \<open>The loop\<close>

text \<open>No operation makes the unread input longer, so the loop ends with the input.\<close>

abbreviation inp :: "Session \<Rightarrow> bytes" where
  "inp s \<equiv> c_in (ss_conn s)"

primrec iterState :: "Session iter \<Rightarrow> Session" where
  "iterState (Continue s) = s"
| "iterState (Return e s) = s"

lemma writeControlFrame_in [simp]: "inp (snd (writeControlFrame f s)) = inp s"
proof -
  obtain m err s1 where w: "writeConn (encodeFrame f) True s = ((m, err), s1)" by (metis prod.collapse)
  from writeConn_grows(2) [OF w] w show ?thesis
    by (auto simp: writeControlFrame_def Let_def split: option.splits)
qed

lemma dieStream_in [simp]: "inp (snd (dieStream i e s)) = inp s"
  by (simp add: dieStream_def updStream_def emit_def Let_def)

lemma simple_in [simp]:
  "inp (emit ev s) = inp s" "inp (updStream i f s) = inp s" "inp (snd (newStream sid s)) = inp s"
  "inp (signalIdleReady s) = inp s" "inp (maybeStartIdleLoop s) = inp s" "inp (setConn c s) = c_in c"
  by (simp_all add: emit_def updStream_def newStream_def signalIdleReady_def maybeStartIdleLoop_def Let_def)

lemma closeWithError_in [simp]: "inp (snd (closeWithError i e s)) = inp s"
proof -
  obtain once s1 where d: "dieStream i e s = (once, s1)" by fastforce
  have "inp s1 = inp s" using dieStream_in [of i e s] d by simp
  moreover have "inp (snd (streamClosed sid s1)) = inp s1" for sid
    using writeControlFrame_in [of "newFrame cmdFIN sid" s1]
    by (simp add: streamClosed_def Let_def split_beta)
  ultimately show ?thesis using d by (simp add: closeWithError_def)
qed

lemma writeWindowUpdateWaste_in [simp]: "inp (writeWindowUpdateWaste s) = inp s"
  by (simp add: writeWindowUpdateWaste_def Let_def split_beta split: option.split)

lemma trackRecvBytes_in [simp]: "inp (trackRecvBytes n s) = inp s"
  by (simp add: trackRecvBytes_def Let_def split_beta)

lemma readConn_in: "length (inp (snd (readConn n s))) \<le> length (inp s) - (case fst (readConn n s) of Inl _ \<Rightarrow> 0 | Inr _ \<Rightarrow> n)"
  by (auto simp: readConn_def split: sum.splits dest: ReadFull_InrD)

lemma withPayload_in:
  assumes "\<And>b s. length (inp (iterState (k b s))) \<le> length (inp s)"
  shows "length (inp (iterState (withPayload n k s))) \<le> length (inp s)"
proof -
  obtain res s1 where r: "readConn n s = (res, s1)" by fastforce
  have "length (inp s1) \<le> length (inp s)" using readConn_in [of n s] r by (simp split: sum.splits)
  with r assms [of _ s1] show ?thesis
    by (auto simp: withPayload_def split: sum.split intro: order_trans)
qed

lemma sendOrReturn_in:
  assumes "\<And>s. length (inp (iterState (k s))) \<le> length (inp s)"
  shows "length (inp (iterState (sendOrReturn f k s))) \<le> length (inp s)"
proof -
  obtain n err s1 where w: "writeControlFrame f s = ((n, err), s1)" by (metis prod.collapse)
  have "inp s1 = inp s" using writeControlFrame_in [of f s] w by simp
  with w assms [of s1] show ?thesis by (simp add: sendOrReturn_def split: option.split)
qed

lemma recvHandlers_in:
  "length (inp (iterState (recvPSH sid n s))) \<le> length (inp s)"
  "length (inp (iterState (recvSYN sid s))) \<le> length (inp s)"
  "length (inp (iterState (recvSYNACK sid n s))) \<le> length (inp s)"
  "length (inp (iterState (recvFIN sid s))) \<le> length (inp s)"
  "length (inp (iterState (recvMigrateReady sid n s))) \<le> length (inp s)"
  "length (inp (iterState (recvBarrier fc ev sid n s))) \<le> length (inp s)"
  "length (inp (iterState (recvUpdatePaddingScheme md5 n s))) \<le> length (inp s)"
  "length (inp (iterState (recvServerSettings n s))) \<le> length (inp s)"
proof -
  show "length (inp (iterState (recvPSH sid n s))) \<le> length (inp s)"
    unfolding recvPSH_def by (rule withPayload_in) (simp add: Let_def split: option.split)
  show "length (inp (iterState (recvSYN sid s))) \<le> length (inp s)"
    by (simp add: recvSYN_def Let_def split_beta newStream_def split: option.split)
  show "length (inp (iterState (recvSYNACK sid n s))) \<le> length (inp s)"
  proof -
    let ?s = "case lookupStream sid (s\<lparr>ss_consecutiveSynAckTimeouts := 0\<rparr>) of
        Some i \<Rightarrow> updStream i (\<lambda>st. st\<lparr>st_synTimer := False\<rparr>) (s\<lparr>ss_consecutiveSynAckTimeouts := 0\<rparr>)
      | None \<Rightarrow> s\<lparr>ss_consecutiveSynAckTimeouts := 0\<rparr>"
    have "inp ?s = inp s" by (simp split: option.split)
    moreover have "length (inp (iterState (recvSYNACK sid n s))) \<le> length (inp ?s)"
      unfolding recvSYNACK_def Let_def by (rule withPayload_in) (simp split: option.split)
    ultimately show ?thesis by simp
  qed
  show "length (inp (iterState (recvFIN sid s))) \<le> length (inp s)"
    by (simp add: recvFIN_def Let_def split: option.split)
  show "length (inp (iterState (recvMigrateReady sid n s))) \<le> length (inp s)"
    unfolding recvMigrateReady_def by (rule withPayload_in) (simp split: option.split)
  show "length (inp (iterState (recvBarrier fc ev sid n s))) \<le> length (inp s)"
  proof -
    have "length (inp (iterState (withPayload n (\<lambda>b s. Continue (if ss_isClient s = fc
                 then case lookupStream sid s of
                        Some i \<Rightarrow> if st_mig (ss_objs s ! i) then emit (ev i) s else s
                      | None \<Rightarrow> s
                 else s)) s))) \<le> length (inp s)"
      by (rule withPayload_in) (simp split: option.split)
    then show ?thesis by (simp add: recvBarrier_def Let_def split: option.split)
  qed
  show "length (inp (iterState (recvUpdatePaddingScheme md5 n s))) \<le> length (inp s)"
  proof (cases "n > maxPaddingSchemeLen")
    case False
    then show ?thesis
      unfolding recvUpdatePaddingScheme_def if_not_P [OF False]
      by (intro withPayload_in) (simp add: split_beta Let_def)
  qed (simp add: recvUpdatePaddingScheme_def)
  show "length (inp (iterState (recvServerSettings n s))) \<le> length (inp s)"
    unfolding recvServerSettings_def
    by (rule withPayload_in) (simp add: split_beta Let_def split: option.split)
qed

lemma recvSettings_in: "length (inp (iterState (recvSettings n s))) \<le> length (inp s)"
  unfolding recvSettings_def
proof (rule withPayload_in, goal_cases)
  case (1 b s)
  have ack: "length (inp (iterState (sendOrReturn (newFrame cmdWaste 0) (\<lambda>s.
                                 if u
                                 then sendOrReturn ((newFrame cmdUpdatePaddingScheme 0)\<lparr>f_data := raw\<rparr>)
                                        (\<lambda>s. Continue (signalIdleReady s)) s
                                 else Continue (signalIdleReady s)) s1))) \<le> length (inp s1)" for u raw s1
    by (rule sendOrReturn_in) (simp add: sendOrReturn_in)
  show ?case
    by (auto simp: Let_def split_beta intro!: order_trans [OF ack] order_trans [OF sendOrReturn_in] ack)
qed

lemma readConn_Inr:
  assumes "readConn n s = (Inr b, s1)"
  shows "inp s = b @ inp s1" "length b = n" "s1 = setConn ((ss_conn s)\<lparr>c_in := inp s1\<rparr>) s"
  using assms by (auto simp: readConn_def setConn_def split: if_splits sum.splits dest: ReadFull_InrD)

lemma recvStep_in:
  assumes "recvStep md5 s = Continue s'"
  shows "length (inp s') < length (inp s)"
proof -
  obtain res s1 where r: "readConn headerOverHeadSize s = (res, s1)" by fastforce
  from assms r obtain hdr where hdr: "res = Inr hdr"
    by (auto simp: recvStep_def split: if_splits sum.splits)
  have lt: "length (inp s1) < length (inp s)" using readConn_Inr(1,2) [OF r [unfolded hdr]] by simp
  let ?sid = "StreamID hdr" and ?n = "unat (Length hdr)"
  have le: "length (inp (iterState (withPayload ?n (\<lambda>_. Continue) s1))) \<le> length (inp s1)"
    "length (inp (iterState (withPayload ?n (\<lambda>b s. Return None (if ss_isClient s then emit (EvAlert b) s else s)) s1)))
      \<le> length (inp s1)"
    "length (inp (iterState (sendOrReturn (newFrame cmdHeartResponse ?sid) Continue s1))) \<le> length (inp s1)"
    "length (inp (iterState (Continue (s1\<lparr>ss_lastHeartRespNano := ss_now s1\<rparr>)))) \<le> length (inp s1)"
    by (rule withPayload_in, simp)+ (rule sendOrReturn_in, simp, simp)
  have "recvStep md5 s \<in> {recvPSH ?sid ?n s1, recvSYN ?sid s1, recvSYNACK ?sid ?n s1, recvFIN ?sid s1,
      withPayload ?n (\<lambda>_. Continue) s1, recvSettings ?n s1,
      withPayload ?n (\<lambda>b s. Return None (if ss_isClient s then emit (EvAlert b) s else s)) s1,
      recvUpdatePaddingScheme md5 ?n s1, sendOrReturn (newFrame cmdHeartResponse ?sid) Continue s1,
      Continue (s1\<lparr>ss_lastHeartRespNano := ss_now s1\<rparr>), recvServerSettings ?n s1,
      recvMigrateReady ?sid ?n s1, recvBarrier True EvMigrateGo ?sid ?n s1,
      recvBarrier False EvUplinkFin ?sid ?n s1}"
    using assms r hdr unfolding recvStep_def Let_def
    by (simp only: split sum.case prod.case if_split_mem1 split: if_splits) auto
  then have "length (inp (iterState (recvStep md5 s))) \<le> length (inp s1)"
    using le recvHandlers_in recvSettings_in by (elim insertE emptyE) (simp_all only:)
  with assms lt show ?thesis by simp
qed

function recvLoop :: "(bytes \<Rightarrow> string) \<Rightarrow> Session \<Rightarrow> go_error option \<times> Session" where
  "recvLoop md5 s =
     (case recvStep md5 s of
        Continue s' \<Rightarrow> recvLoop md5 s'
      | Return e s' \<Rightarrow> (e, snd (Close s')))"
  by pat_completeness auto
termination by (relation "measure (\<lambda>(md5, s). length (inp s))") (auto dest: recvStep_in)

declare recvLoop.simps [simp del]

end
