(* ===== verification/Session_Demux.thy ===== *)
theory Session_Demux
  imports Session_Recv
begin

text \<open>
  What the receive loop does with a well-formed frame, with runs of data and waste frames, and with
  a peer that does not follow the settings exchange.
\<close>

section \<open>Reading one frame\<close>

definition listening :: "Session \<Rightarrow> bool" where
  "listening s \<longleftrightarrow> \<not> ss_closed s \<and> \<not> c_closed (ss_conn s)"

definition setIn :: "bytes \<Rightarrow> Session \<Rightarrow> Session" where
  "setIn b s = setConn ((ss_conn s)\<lparr>c_in := b\<rparr>) s"

lemma setIn_simps [simp]:
  "inp (setIn b s) = b" "ss_closed (setIn b s) = ss_closed s" "c_closed (ss_conn (setIn b s)) = c_closed (ss_conn s)"
  "ss_peerVersion (setIn b s) = ss_peerVersion s"
  "ss_streams (setIn b s) = ss_streams s" "ss_objs (setIn b s) = ss_objs s" "ss_trace (setIn b s) = ss_trace s"
  "ss_isClient (setIn b s) = ss_isClient s" "ss_receivedSettings (setIn b s) = ss_receivedSettings s"
  "lookupStream sid (setIn b s) = lookupStream sid s" "listening (setIn b s) = listening s"
  "setIn a (setIn b s) = setIn a s"
  by (simp_all add: setIn_def setConn_def lookupStream_def listening_def)

lemma readConn_append:
  assumes "\<not> c_closed (ss_conn s)" "inp s = b @ rest" "length b = n"
  shows "readConn n s = (Inr b, setIn rest s)"
  using assms by (simp add: readConn_def setIn_def)

lemma withPayload_append:
  assumes "\<not> c_closed (ss_conn s)" "inp s = b @ rest"
  shows "withPayload (length b) k s = (if b = [] then Continue s else k b (setIn rest s))"
  using readConn_append [OF assms refl] by (simp add: withPayload_def)

text \<open>The handler of a frame's command runs on a session whose input starts with the payload.\<close>

lemma recvStep_frame:
  assumes "listening s" "inp s = encodeFrame f @ rest" "wire_ok f"
  shows "recvStep md5 s =
    (let s1 = setIn (f_data f @ rest) s; sid = f_sid f; n = length (f_data f); cmd = f_cmd f
     in if cmd = cmdPSH then recvPSH sid n s1
        else if cmd = cmdSYN then recvSYN sid s1
        else if cmd = cmdSYNACK then recvSYNACK sid n s1
        else if cmd = cmdFIN then recvFIN sid s1
        else if cmd = cmdWaste then withPayload n (\<lambda>_. Continue) s1
        else if cmd = cmdSettings then recvSettings n s1
        else if cmd = cmdAlert
        then withPayload n (\<lambda>b s. Return None (if ss_isClient s then emit (EvAlert b) s else s)) s1
        else if cmd = cmdUpdatePaddingScheme then recvUpdatePaddingScheme md5 n s1
        else if cmd = cmdHeartRequest then sendOrReturn (newFrame cmdHeartResponse sid) Continue s1
        else if cmd = cmdHeartResponse then Continue (s1\<lparr>ss_lastHeartRespNano := ss_now s1\<rparr>)
        else if cmd = cmdServerSettings then recvServerSettings n s1
        else if cmd = cmdMigrateReady then recvMigrateReady sid n s1
        else if cmd = cmdMigrateGo then recvBarrier True EvMigrateGo sid n s1
        else if cmd = cmdUplinkFin then recvBarrier False EvUplinkFin sid n s1
        else withPayload n (\<lambda>_. Continue) s1)"
proof -
  have "readConn headerOverHeadSize s
      = (Inr (frameHeader (f_cmd f) (f_sid f) (length (f_data f))), setIn (f_data f @ rest) s)"
    by (rule readConn_append) (use assms in \<open>simp_all add: listening_def encodeFrame_def\<close>)
  moreover have "unat (Length (frameHeader (f_cmd f) (f_sid f) (length (f_data f)))) = length (f_data f)"
    using assms(3) by (intro frameHeader_fields(3)) (simp add: wire_ok_def)
  ultimately show ?thesis
    using assms(1) unfolding recvStep_def IsClosed_def listening_def
    by (simp only: if_False split sum.case prod.case frameHeader_fields(1,2) Let_def)
qed

section \<open>Data and waste\<close>

lemma writeWindowUpdateWaste_frame [simp]:
  "ss_closed (writeWindowUpdateWaste s) = ss_closed s" "ss_streams (writeWindowUpdateWaste s) = ss_streams s"
  "ss_objs (writeWindowUpdateWaste s) = ss_objs s" "ss_trace (writeWindowUpdateWaste s) = ss_trace s"
  "c_closed (ss_conn (writeWindowUpdateWaste s)) = c_closed (ss_conn s)"
  "ss_isClient (writeWindowUpdateWaste s) = ss_isClient s"
  "ss_receivedSettings (writeWindowUpdateWaste s) = ss_receivedSettings s"
  "ss_peerVersion (writeWindowUpdateWaste s) = ss_peerVersion s"
  by (simp_all add: writeWindowUpdateWaste_def setConn_def Let_def split_beta split: option.split)

lemma trackRecvBytes_frame [simp]:
  "ss_closed (trackRecvBytes n s) = ss_closed s" "ss_streams (trackRecvBytes n s) = ss_streams s"
  "ss_objs (trackRecvBytes n s) = ss_objs s" "ss_trace (trackRecvBytes n s) = ss_trace s"
  "c_closed (ss_conn (trackRecvBytes n s)) = c_closed (ss_conn s)"
  "ss_isClient (trackRecvBytes n s) = ss_isClient s"
  "ss_receivedSettings (trackRecvBytes n s) = ss_receivedSettings s"
  "ss_peerVersion (trackRecvBytes n s) = ss_peerVersion s"
  by (simp_all add: trackRecvBytes_def Let_def split_beta)

text \<open>What one data or waste frame hands to the streams.\<close>

definition deliveries :: "(u32 \<times> nat) list \<Rightarrow> frame \<Rightarrow> event list" where
  "deliveries streams f =
     (if f_cmd f = cmdPSH \<and> f_data f \<noteq> []
      then case map_of streams (f_sid f) of Some i \<Rightarrow> [EvDeliver i (f_data f)] | None \<Rightarrow> []
      else [])"

lemma recvStep_data:
  assumes "listening s" "inp s = encodeFrame f @ rest" "wire_ok f" "f_cmd f \<in> {cmdPSH, cmdWaste}"
  shows "\<exists>s'. recvStep md5 s = Continue s' \<and> listening s' \<and> inp s' = rest
    \<and> ss_streams s' = ss_streams s \<and> ss_objs s' = ss_objs s \<and> ss_peerVersion s' = ss_peerVersion s
    \<and> ss_trace s' = ss_trace s @ deliveries (ss_streams s) f"
proof -
  let ?s1 = "setIn (f_data f @ rest) s"
  have open1: "\<not> c_closed (ss_conn ?s1)" "inp ?s1 = f_data f @ rest" using assms(1) by (simp_all add: listening_def)
  note wp = withPayload_append [OF open1]
  show ?thesis
  proof (cases "f_cmd f = cmdPSH")
    case True
    then have step: "recvStep md5 s = recvPSH (f_sid f) (length (f_data f)) ?s1"
      using recvStep_frame [OF assms(1-3), of md5] by (simp add: Let_def)
    show ?thesis
    proof (cases "f_data f = []")
      case True
      with step wp show ?thesis using assms(1) by (simp add: recvPSH_def deliveries_def withPayload_def)
    next
      case False
      let ?s2 = "case lookupStream (f_sid f) (setIn rest s) of
          Some i \<Rightarrow> emit (EvDeliver i (f_data f)) (setIn rest s) | None \<Rightarrow> setIn rest s"
      have s2: "listening ?s2" "inp ?s2 = rest" "ss_streams ?s2 = ss_streams s" "ss_objs ?s2 = ss_objs s"
        "ss_peerVersion ?s2 = ss_peerVersion s"
        "ss_trace ?s2 = ss_trace s @ deliveries (ss_streams s) f"
        using assms(1) True False
        by (auto simp: listening_def emit_def deliveries_def lookupStream_def split: option.split)
      have "recvStep md5 s = Continue (trackRecvBytes (length (f_data f)) ?s2)"
        using step wp False by (simp add: recvPSH_def Let_def split: option.split)
      with s2 show ?thesis by (simp add: listening_def)
    qed
  next
    case False
    with assms(4) have w: "f_cmd f = cmdWaste" by simp
    then have "recvStep md5 s = (if f_data f = [] then Continue ?s1 else Continue (setIn rest ?s1))"
      using recvStep_frame [OF assms(1-3), of md5] wp [of "\<lambda>_. Continue"] by (simp add: Let_def)
    with w assms(1) show ?thesis by (auto simp: deliveries_def)
  qed
qed

lemma recv_data_run:
  assumes "listening s" "inp s = encodeFrames fs @ rest" "\<forall>f \<in> set fs. wire_ok f \<and> f_cmd f \<in> {cmdPSH, cmdWaste}"
  shows "\<exists>s'. recvLoop md5 s = recvLoop md5 s' \<and> listening s' \<and> inp s' = rest
    \<and> ss_streams s' = ss_streams s \<and> ss_objs s' = ss_objs s \<and> ss_peerVersion s' = ss_peerVersion s
    \<and> ss_trace s' = ss_trace s @ concat (map (deliveries (ss_streams s)) fs)"
  using assms
proof (induction fs arbitrary: s)
  case Nil
  then show ?case by (intro exI [of _ s]) simp
next
  case (Cons f fs)
  have "inp s = encodeFrame f @ (encodeFrames fs @ rest)" using Cons.prems(2) by simp
  from recvStep_data [OF Cons.prems(1) this, of md5] Cons.prems(3) obtain s1 where
    s1: "recvStep md5 s = Continue s1" "listening s1" "inp s1 = encodeFrames fs @ rest"
      "ss_streams s1 = ss_streams s" "ss_objs s1 = ss_objs s" "ss_peerVersion s1 = ss_peerVersion s"
      "ss_trace s1 = ss_trace s @ deliveries (ss_streams s) f" by auto
  have "recvLoop md5 s = recvLoop md5 s1" by (subst recvLoop.simps) (simp add: s1(1))
  with Cons.IH [OF s1(2,3)] Cons.prems(3) s1(4-7) show ?case by auto
qed

text \<open>
  Property C9.  Demultiplexing: a run of data and waste frames is consumed whole; every non-empty data
  frame of a registered stream is handed to that stream, once and in order, frames of other streams and
  waste frames are dropped, and neither the streams nor the rest of the input are touched.
\<close>

theorem recvLoop_demultiplexes:
  assumes "listening s" "inp s = encodeFrames fs @ rest" "\<forall>f \<in> set fs. wire_ok f \<and> f_cmd f \<in> {cmdPSH, cmdWaste}"
  shows "\<exists>s'. recvLoop md5 s = recvLoop md5 s' \<and> inp s' = rest \<and> ss_streams s' = ss_streams s
    \<and> ss_trace s' = ss_trace s @ concat (map (deliveries (ss_streams s)) fs)"
  using recv_data_run [OF assms, of md5] by blast

theorem recvLoop_demultiplexes_witness:
  "\<exists>s'. recvLoop (\<lambda>_. []) (NewServerSession (quietConn (encodeFrames [pshFrame 1 [5]])) sample_factory 0 [])
      = recvLoop (\<lambda>_. []) s' \<and> ss_trace s' = []"
proof -
  let ?s = "NewServerSession (quietConn (encodeFrames [pshFrame 1 [5]])) sample_factory 0 []"
  have s: "listening ?s" "inp ?s = encodeFrames [pshFrame 1 [5]] @ []" "ss_streams ?s = []" "ss_trace ?s = []"
    by (simp_all add: listening_def NewServerSession_def newSession_def newRecordShaper_def quietConn_def
        Let_def split_beta)
  from recvLoop_demultiplexes [OF s(1,2), of "\<lambda>_. []"] s(3,4) show ?thesis
    by (auto simp: pshFrame_def wire_ok_def deliveries_def)
qed

end
