(* ===== verification/Session_Inv.thy ===== *)
theory Session_Inv
  imports Session_Demux
begin

text \<open>
  The life-cycle invariant of a session: die hooks run exactly once, the stream map holds live
  streams under their own ids, a closed session has no streams and a closed connection.  It is
  preserved by every operation of the session, and so holds in every reachable state.
\<close>

section \<open>The invariant\<close>

definition core :: "Session \<Rightarrow> Stream list \<times> (u32 \<times> nat) list \<times> bool \<times> event list \<times> bool" where
  "core s = (ss_objs s, ss_streams s, ss_closed s, ss_trace s, c_closed (ss_conn s))"

definition dead :: "Stream list \<Rightarrow> nat \<Rightarrow> bool" where
  "dead objs i \<longleftrightarrow> i < length objs \<and> st_dieErr (objs ! i) \<noteq> None"

definition hooks_once :: "Stream list \<Rightarrow> bool \<Rightarrow> event list \<Rightarrow> bool" where
  "hooks_once objs closed tr \<longleftrightarrow>
     (\<forall>i. count_list tr (EvStreamDied i) = (if dead objs i then 1 else 0))
     \<and> count_list tr EvSessionDied = (if closed then 1 else 0)"

definition entries_ok :: "Stream list \<Rightarrow> (u32 \<times> nat) list \<Rightarrow> bool" where
  "entries_ok objs streams \<longleftrightarrow> distinct (map fst streams)
     \<and> (\<forall>en \<in> set streams. snd en < length objs \<and> st_id (objs ! snd en) = fst en)"

text \<open>The invariant up to the objects in \<open>X\<close>, which may be dead and still registered.\<close>

definition inv_except :: "nat set \<Rightarrow> Session \<Rightarrow> bool" where
  "inv_except X s \<longleftrightarrow> hooks_once (ss_objs s) (ss_closed s) (ss_trace s) \<and> entries_ok (ss_objs s) (ss_streams s)
     \<and> (\<forall>en \<in> set (ss_streams s). snd en \<in> X \<or> \<not> dead (ss_objs s) (snd en))"

definition session_inv :: "Session \<Rightarrow> bool" where
  "session_inv s \<longleftrightarrow> inv_except {} s \<and> (ss_closed s \<longrightarrow> ss_streams s = []) \<and> c_closed (ss_conn s) = ss_closed s"

lemma inv_except_core: "core s' = core s \<Longrightarrow> inv_except X s' = inv_except X s"
  by (simp add: core_def inv_except_def)

lemma session_inv_core: "core s' = core s \<Longrightarrow> session_inv s' = session_inv s"
  using inv_except_core [of s' s "{}"] by (auto simp: session_inv_def core_def)

lemma inv_except_mono: "inv_except X s \<Longrightarrow> X \<subseteq> Y \<Longrightarrow> inv_except Y s"
  unfolding inv_except_def by blast

section \<open>Operations that only write\<close>

lemma connWrite_shaper [simp]:
  "c_closed (rs_conn (snd (writeWithDeadline now b rs))) = c_closed (rs_conn rs)"
  "c_closed (rs_conn (snd (WriteData now b rs))) = c_closed (rs_conn rs)"
  by (simp_all add: writeWithDeadline_def WriteData_def Let_def split_beta)

lemma shaper_closed [simp]:
  "c_closed (rs_conn (fst (snd (WriteInitialFlush pf now b rs r)))) = c_closed (rs_conn rs)"
  "c_closed (rs_conn (fst (snd (WriteControl pf now b rs r)))) = c_closed (rs_conn rs)"
  by (simp_all add: WriteInitialFlush_def WriteControl_def Let_def split_beta)

lemma writeConn_core_eq [simp]: "core (snd (writeConn b ctrl s)) = core s"
proof -
  have "c_closed (ss_conn (snd (writeConn b ctrl s))) = c_closed (ss_conn s)"
    by (simp add: writeConn_def flushShaped_def Let_def split_beta)
  then show ?thesis by (simp add: core_def)
qed

lemma core_updates [simp]:
  "core (s\<lparr>ss_rand := r\<rparr>) = core s" "core (s\<lparr>ss_connBroken := b\<rparr>) = core s" "core (s\<lparr>ss_buffering := b\<rparr>) = core s"
  "core (s\<lparr>ss_buffer := bs\<rparr>) = core s" "core (s\<lparr>ss_streamId := sid\<rparr>) = core s" "core (s\<lparr>ss_lastHeartRespNano := t\<rparr>) = core s"
  "core (s\<lparr>ss_consecutiveSynAckTimeouts := n\<rparr>) = core s" "core (s\<lparr>ss_peerVersion := n\<rparr>) = core s"
  "core (s\<lparr>ss_receivedSettings := b\<rparr>) = core s" "core (s\<lparr>ss_migActive := b\<rparr>) = core s" "core (s\<lparr>ss_padding := pf\<rparr>) = core s"
  "core (s\<lparr>ss_recvBytes := m\<rparr>) = core s" "core (s\<lparr>ss_wndUpdateTrigger := m\<rparr>) = core s" "core (signalIdleReady s) = core s"
  "core (setIn bs s) = core s" "core (s\<lparr>ss_idleLoop := b\<rparr>) = core s"
  by (simp_all add: core_def signalIdleReady_def)

lemma sendPSH_core [simp]: "core (snd (sendPSH sid chunk s)) = core s"
proof -
  obtain res s1 where w: "writeConn (encodeFrame (pshFrame sid chunk)) False s = (res, s1)" by fastforce
  with writeConn_core_eq [of "encodeFrame (pshFrame sid chunk)" False s] show ?thesis
    by (simp add: sendPSH_def Let_def split_beta)
qed

lemma writeDataLoop_core [simp]: "core (snd (writeDataLoop sid data written s)) = core s"
proof (induction sid data written s rule: writeDataLoop.induct)
  case (1 sid data written s)
  define chunk where "chunk = (if length data > h2MaxFramePayload then take h2MaxFramePayload data else data)"
  obtain err s1 where s1: "sendPSH sid chunk s = (err, s1)" by fastforce
  have c: "core s1 = core s" using sendPSH_core [of sid chunk s] s1 by simp
  show ?case
  proof (cases "data = []")
    case True
    then show ?thesis by (simp add: writeDataLoop.simps [of sid "[]"])
  next
    case False
    have unf: "writeDataLoop sid data written s = (if err \<noteq> None then ((written, err), s1)
        else writeDataLoop sid (drop (length chunk) data) (written + length chunk) s1)"
      using s1 unfolding chunk_def by (subst writeDataLoop.simps) (simp only: False Let_def if_False split)
    show ?thesis
    proof (cases "err = None")
      case True
      from "1.IH" [OF False chunk_def s1 [symmetric]] True c unf show ?thesis by simp
    qed (use unf c in simp)
  qed
qed

lemma splitLoop_core: "core (snd (splitLoop k sid data offset written s)) = core s"
proof (induction k arbitrary: offset written s)
  case (Suc k)
  have c: "core (snd (sendPSH sid chunk (s\<lparr>ss_rand := r\<rparr>))) = core s" for chunk r by simp
  show ?case
    unfolding splitLoop.simps(2) Let_def split_beta using Suc c by simp
qed simp

lemma writeDataFrameShaped_core [simp]: "core (snd (writeDataFrameShaped sid data early s)) = core s"
proof -
  have "core (snd (writeDataFrame sid data s)) = core s"
    using writeDataLoop_core [of sid data 0 s] by (simp add: writeDataFrame_def Let_def split_beta split: option.split)
  then show ?thesis by (simp add: writeDataFrameShaped_def writeDataFrameSplit_def splitLoop_core)
qed

section \<open>Dying and closing\<close>

lemma count_list_append1: "count_list (xs @ [y]) x = count_list xs x + (if x = y then 1 else 0)"
  by simp

lemma dead_update:
  assumes "i < length objs" "st_dieErr (f (objs ! i)) \<noteq> None"
  shows "dead (objs[i := f (objs ! i)]) j \<longleftrightarrow> j = i \<or> dead objs j"
  using assms by (auto simp: dead_def nth_list_update)

lemma dieStream_inv:
  assumes "inv_except X s" "i < length (ss_objs s)" "dieStream i e s = (once, s')"
  shows "inv_except (insert i X) s'" "once \<longleftrightarrow> \<not> dead (ss_objs s) i" "\<not> once \<Longrightarrow> s' = s"
    "ss_streams s' = ss_streams s" "ss_closed s' = ss_closed s" "length (ss_objs s') = length (ss_objs s)"
    "st_id (ss_objs s' ! j) = st_id (ss_objs s ! j)" "dead (ss_objs s') i"
    "dead (ss_objs s) j \<Longrightarrow> dead (ss_objs s') j"
proof -
  show o: "once \<longleftrightarrow> \<not> dead (ss_objs s) i" and "\<not> once \<Longrightarrow> s' = s"
    "ss_streams s' = ss_streams s" "ss_closed s' = ss_closed s" "length (ss_objs s') = length (ss_objs s)"
    "st_id (ss_objs s' ! j) = st_id (ss_objs s ! j)" "dead (ss_objs s') i" "dead (ss_objs s) j \<Longrightarrow> dead (ss_objs s') j"
    using assms(2,3)
    by (auto simp: dieStream_def updStream_def emit_def dead_def nth_list_update Let_def split: if_splits)
  show "inv_except (insert i X) s'"
  proof (cases once)
    case False
    with assms(3) have "s' = s" by (auto simp: dieStream_def Let_def split: if_splits)
    with assms(1) show ?thesis using inv_except_mono by blast
  next
    case True
    let ?objs = "(ss_objs s)[i := (ss_objs s ! i)\<lparr>st_synTimer := False, st_dieErr := Some e\<rparr>]"
    have s': "ss_objs s' = ?objs" "ss_streams s' = ss_streams s" "ss_closed s' = ss_closed s"
      "\<exists>ys. ss_trace s' = ss_trace s @ ys @ [EvStreamDied i] \<and> (ys = [] \<or> ys = [EvMigStreamEnd i])"
      using assms(3) True by (auto simp: dieStream_def updStream_def emit_def Let_def split: if_splits)
    then obtain ys where tr: "ss_trace s' = ss_trace s @ ys @ [EvStreamDied i]" "ys = [] \<or> ys = [EvMigStreamEnd i]" by blast
    have dead: "dead ?objs j \<longleftrightarrow> j = i \<or> dead (ss_objs s) j" for j
      using dead_update [OF assms(2), of "\<lambda>st. st\<lparr>st_synTimer := False, st_dieErr := Some e\<rparr>"] by simp
    have "hooks_once ?objs (ss_closed s) (ss_trace s')"
      using assms(1) True o tr dead by (auto simp: inv_except_def hooks_once_def)
    moreover have "st_id (?objs ! j) = st_id (ss_objs s ! j)" for j
      using assms(2) by (cases "j = i") simp_all
    then have "entries_ok ?objs (ss_streams s)"
      using assms(1) by (simp add: inv_except_def entries_ok_def)
    ultimately show ?thesis using assms(1) s' dead by (auto simp: inv_except_def)
  qed
qed

lemma closeLocally_inv:
  assumes "inv_except X s" "i < length (ss_objs s)"
  shows "inv_except (insert i X) (closeLocally i s)" "dead (ss_objs (closeLocally i s)) i"
    "dead (ss_objs s) j \<Longrightarrow> dead (ss_objs (closeLocally i s)) j"
proof -
  obtain once s' where d: "dieStream i NetErrClosed s = (once, s')" by fastforce
  from dieStream_inv(1,8) [OF assms d] dieStream_inv(9) [OF assms d, of j]
  show "inv_except (insert i X) (closeLocally i s)" "dead (ss_objs (closeLocally i s)) i"
    "dead (ss_objs s) j \<Longrightarrow> dead (ss_objs (closeLocally i s)) j"
    using d by (simp_all add: closeLocally_def)
qed

lemma closeAll_inv:
  assumes "inv_except X s" "\<forall>i \<in> set is. i < length (ss_objs s)"
  shows "inv_except (set is \<union> X) (foldl (\<lambda>s i. closeLocally i s) s is)
    \<and> (\<forall>i \<in> set is. dead (ss_objs (foldl (\<lambda>s i. closeLocally i s) s is)) i)
    \<and> (\<forall>j. dead (ss_objs s) j \<longrightarrow> dead (ss_objs (foldl (\<lambda>s i. closeLocally i s) s is)) j)"
  using assms
proof (induction "is" arbitrary: s X)
  case (Cons i "is")
  then have i: "i < length (ss_objs s)" by simp
  note c = closeLocally_inv [OF Cons.prems(1) i]
  from Cons.IH [OF c(1)] Cons.prems(2) c(2,3) show ?case by (auto simp: insert_commute Un_commute)
qed simp

lemma entries_bound: "inv_except X s \<Longrightarrow> \<forall>i \<in> set (map snd (ss_streams s)). i < length (ss_objs s)"
  by (auto simp: inv_except_def entries_ok_def)

text \<open>The loop of \<open>Close\<close> runs on a session that is marked closed but still has its streams.\<close>

definition closingStreams :: "Session \<Rightarrow> Session" where
  "closingStreams s = foldl (\<lambda>s i. closeLocally i s)
     (emit EvSessionDied (signalIdleReady (s\<lparr>ss_closed := True\<rparr>))) (map snd (ss_streams s))"

lemma closingStreams_inv:
  assumes "inv_except X s" "\<not> ss_closed s"
  shows "inv_except (set (map snd (ss_streams s)) \<union> X) (closingStreams s)"
    and "(sid, i) \<in> set (ss_streams s) \<Longrightarrow> dead (ss_objs (closingStreams s)) i"
    and "dead (ss_objs s) j \<Longrightarrow> dead (ss_objs (closingStreams s)) j"
proof -
  let ?s1 = "emit EvSessionDied (signalIdleReady (s\<lparr>ss_closed := True\<rparr>))"
  have s1: "ss_objs ?s1 = ss_objs s" "ss_streams ?s1 = ss_streams s" "ss_closed ?s1"
    "ss_trace ?s1 = ss_trace s @ [EvSessionDied]" by (simp_all add: emit_def signalIdleReady_def)
  have "inv_except X ?s1" using assms s1 by (simp add: inv_except_def hooks_once_def)
  from closeAll_inv [OF this, of "map snd (ss_streams s)"] entries_bound [OF assms(1)] s1(1)
  show "inv_except (set (map snd (ss_streams s)) \<union> X) (closingStreams s)"
    "(sid, i) \<in> set (ss_streams s) \<Longrightarrow> dead (ss_objs (closingStreams s)) i"
    "dead (ss_objs s) j \<Longrightarrow> dead (ss_objs (closingStreams s)) j"
    unfolding closingStreams_def by (force simp: image_iff)+
qed

lemma Close_core:
  assumes "\<not> ss_closed s"
  shows "core (snd (Close s)) = (ss_objs (closingStreams s), [], True, ss_trace (closingStreams s), True)"
proof -
  show ?thesis using assms
    by (simp add: Close_def Let_def split_beta core_def closingStreams_def emit_def signalIdleReady_def)
qed

lemma Close_inv:
  assumes "inv_except X s" "ss_closed s \<Longrightarrow> session_inv s"
  shows "session_inv (snd (Close s))"
proof (cases "ss_closed s")
  case True
  with assms(2) show ?thesis by (simp add: Close_again)
next
  case False
  from Close_core [OF False] have c: "ss_objs (snd (Close s)) = ss_objs (closingStreams s)"
    "ss_streams (snd (Close s)) = []" "ss_closed (snd (Close s))" "ss_trace (snd (Close s)) = ss_trace (closingStreams s)"
    "c_closed (ss_conn (snd (Close s)))" by (simp_all add: core_def)
  have "ss_closed (closingStreams s)"
    by (simp add: closingStreams_def emit_def signalIdleReady_def)
  with closingStreams_inv(1) [OF assms(1) False] c show ?thesis
    by (simp add: session_inv_def inv_except_def entries_ok_def)
qed

section \<open>Control frames, opening and closing streams\<close>

lemma session_inv_frame: "session_inv s \<Longrightarrow> core s' = core s \<Longrightarrow> session_inv s'"
  using session_inv_core by blast

lemma writeControlFrame_inv:
  assumes "inv_except X s" "ss_closed s \<Longrightarrow> session_inv s"
  shows "core (snd (writeControlFrame f s)) = core s \<or> session_inv (snd (writeControlFrame f s))"
proof -
  obtain m err s1 where w: "writeConn (encodeFrame f) True s = ((m, err), s1)" by (metis prod.collapse)
  have c: "core s1 = core s" using writeConn_core_eq [of "encodeFrame f" True s] w by simp
  have "inv_except X s1" using inv_except_core [OF c, of X] assms(1) by simp
  moreover have "ss_closed s1 \<Longrightarrow> session_inv s1"
    using session_inv_core [OF c] assms(2) c by (simp add: core_def)
  ultimately have cl: "session_inv (snd (Close s1))" by (rule Close_inv)
  show ?thesis
  proof (cases "length (f_data f) > maxFrameDataLen")
    case True
    then show ?thesis by (simp add: writeControlFrame_def)
  next
    case False
    then have "snd (writeControlFrame f s) = (case err of Some e \<Rightarrow> snd (Close s1) | None \<Rightarrow> s1)"
      using w by (simp add: writeControlFrame_def split: option.split)
    with c cl show ?thesis by (cases err) simp_all
  qed
qed

lemma session_inv_control: "session_inv s \<Longrightarrow> session_inv (snd (writeControlFrame f s))"
proof -
  assume inv: "session_inv s"
  then have "inv_except {} s" by (simp add: session_inv_def)
  from writeControlFrame_inv [OF this inv, of f] show ?thesis using session_inv_frame [OF inv] by blast
qed

lemma session_inv_Close: "session_inv s \<Longrightarrow> session_inv (snd (Close s))"
proof -
  assume inv: "session_inv s"
  then have "inv_except {} s" by (simp add: session_inv_def)
  then show ?thesis using inv by (rule Close_inv)
qed

lemma set_delete: "set (AList.delete k xs) = {p \<in> set xs. fst p \<noteq> k}"
  by (auto simp: AList.delete_eq)

lemma set_update_sub: "set (AList.update k v xs) \<subseteq> insert (k, v) (set xs)"
  by (induction xs) auto

lemma delete_inv:
  assumes "inv_except {i} s" "ss_closed s \<longrightarrow> ss_streams s = []" "c_closed (ss_conn s) = ss_closed s"
    and "i < length (ss_objs s)" "sid = st_id (ss_objs s ! i)"
  shows "session_inv (s\<lparr>ss_streams := AList.delete sid (ss_streams s)\<rparr>)"
proof -
  have "\<not> dead (ss_objs s) (snd en)" if "en \<in> set (ss_streams s)" "fst en \<noteq> sid" for en
    using that assms(1,5) unfolding inv_except_def entries_ok_def by (metis singletonD)
  with assms show ?thesis
    by (auto simp: session_inv_def inv_except_def entries_ok_def set_delete AList.distinct_delete)
qed

lemma session_inv_delete:
  assumes "session_inv s"
  shows "session_inv (s\<lparr>ss_streams := AList.delete sid (ss_streams s)\<rparr>)"
  using assms by (auto simp: session_inv_def inv_except_def entries_ok_def set_delete AList.distinct_delete)

lemma closeWithError_inv:
  assumes "session_inv s" "i < length (ss_objs s)"
  shows "session_inv (snd (closeWithError i e s))"
proof -
  obtain once s1 where d: "dieStream i e s = (once, s1)" by fastforce
  have inv0: "inv_except {} s" using assms(1) by (simp add: session_inv_def)
  note ds = dieStream_inv [OF inv0 assms(2) d]
  show ?thesis
  proof (cases once)
    case False
    with ds(3) assms(1) d show ?thesis by (simp add: closeWithError_def)
  next
    case True
    have cc: "c_closed (ss_conn s1) = c_closed (ss_conn s)"
      using d by (auto simp: dieStream_def updStream_def emit_def Let_def split: if_splits)
    have mid: "ss_closed s1 \<longrightarrow> ss_streams s1 = []" "c_closed (ss_conn s1) = ss_closed s1"
      using ds(4,5) cc assms(1) by (simp_all add: session_inv_def)
    have i: "i < length (ss_objs s1)" using ds(6) assms(2) by simp
    let ?sid = "st_id (ss_objs s1 ! i)"
    show ?thesis
    proof (cases "ss_closed s1")
      case True
      with mid ds(1) have "session_inv s1" by (simp add: session_inv_def inv_except_def)
      with True \<open>once\<close> d show ?thesis by (simp add: closeWithError_def streamClosed_def IsClosed_def)
    next
      case open1: False
      obtain n err s2 where w: "writeControlFrame (newFrame cmdFIN ?sid) s1 = ((n, err), s2)" by (metis prod.collapse)
      have res: "snd (closeWithError i e s) = s2\<lparr>ss_streams := AList.delete ?sid (ss_streams s2)\<rparr>"
        using \<open>once\<close> d open1 w by (simp add: closeWithError_def streamClosed_def IsClosed_def)
      from writeControlFrame_inv [of "{i}" s1 "newFrame cmdFIN ?sid"] ds(1) open1 w
      consider "core s2 = core s1" | "session_inv s2" by auto
      then show ?thesis
      proof cases
        case 1
        then have "inv_except {i} s2" "ss_closed s2 \<longrightarrow> ss_streams s2 = []" "c_closed (ss_conn s2) = ss_closed s2"
          "i < length (ss_objs s2)" "?sid = st_id (ss_objs s2 ! i)"
          using ds(1) mid i inv_except_core [OF 1] by (simp_all add: core_def)
        then show ?thesis unfolding res by (rule delete_inv)
      next
        case 2
        then show ?thesis unfolding res by (rule session_inv_delete)
      qed
    qed
  qed
qed

lemma closeLocally_removed_inv:
  assumes "session_inv s" "lookupStream sid s = Some i"
  shows "session_inv (closeLocally i (s\<lparr>ss_streams := AList.delete sid (ss_streams s)\<rparr>))"
proof -
  let ?s1 = "s\<lparr>ss_streams := AList.delete sid (ss_streams s)\<rparr>"
  have mem: "(sid, i) \<in> set (ss_streams s)" using assms(2) by (auto simp: lookupStream_def dest: map_of_SomeD)
  have i: "i < length (ss_objs s)" "st_id (ss_objs s ! i) = sid"
    using assms(1) mem by (auto simp: session_inv_def inv_except_def entries_ok_def)
  have inv1: "session_inv ?s1" by (rule session_inv_delete [OF assms(1)])
  have other: "en \<in> set (ss_streams ?s1) \<Longrightarrow> snd en \<noteq> i" for en
    using assms(1) i by (auto simp: set_delete session_inv_def inv_except_def entries_ok_def)
  obtain once s2 where d: "dieStream i NetErrClosed ?s1 = (once, s2)" by fastforce
  have i1: "i < length (ss_objs ?s1)" using i by simp
  have inv0: "inv_except {} ?s1" using inv1 by (simp add: session_inv_def)
  note ds = dieStream_inv [OF inv0 i1 d]
  have "c_closed (ss_conn s2) = c_closed (ss_conn ?s1)"
    using d by (auto simp: dieStream_def updStream_def emit_def Let_def split: if_splits)
  moreover have "inv_except {} s2"
    using ds(1) other ds(4) unfolding inv_except_def by auto
  ultimately have "session_inv s2" using inv1 ds(4,5) by (simp add: session_inv_def)
  then show ?thesis using d by (simp add: closeLocally_def)
qed

lemma updStream_inv:
  assumes "session_inv s" "\<And>st. st_dieErr (f st) = st_dieErr st" "\<And>st. st_id (f st) = st_id st"
  shows "session_inv (updStream i f s)"
proof -
  have d: "dead ((ss_objs s)[i := f (ss_objs s ! i)]) j = dead (ss_objs s) j" for j
    using assms(2) by (cases "i < length (ss_objs s)") (auto simp: dead_def nth_list_update)
  have n: "st_id ((ss_objs s)[i := f (ss_objs s ! i)] ! j) = st_id (ss_objs s ! j)" if "j < length (ss_objs s)" for j
    using assms(3) that by (cases "j = i") simp_all
  show ?thesis using assms(1) n
    by (auto simp: session_inv_def inv_except_def hooks_once_def entries_ok_def updStream_def d)
qed

text \<open>Registering a fresh stream object.\<close>

lemma dead_append: "st_dieErr st = None \<Longrightarrow> dead (objs @ [st]) j \<longleftrightarrow> dead objs j"
  by (auto simp: dead_def nth_append less_Suc_eq)

lemma register_inv:
  assumes "session_inv s" "\<not> ss_closed s" "newStream sid s = (i, s1)"
  shows "session_inv (s1\<lparr>ss_streams := AList.update sid i (ss_streams s1)\<rparr>)"
proof -
  define st where "st = \<lparr>st_id = sid, st_dieErr = None, st_synTimer = False, st_frameSeq = 0,
          st_reported = False, st_mig = ss_migActive s\<rparr>"
  have s1: "ss_objs s1 = ss_objs s @ [st]" "i = length (ss_objs s)" "st_id (ss_objs s1 ! i) = sid"
    "st_dieErr (ss_objs s1 ! i) = None" "ss_streams s1 = ss_streams s" "ss_closed s1 = ss_closed s"
    "ss_trace s1 = ss_trace s" "c_closed (ss_conn s1) = c_closed (ss_conn s)"
    using assms(3) by (auto simp: newStream_def st_def)
  have d: "dead (ss_objs s1) j = dead (ss_objs s) j" for j
    unfolding s1(1) by (rule dead_append) (simp add: st_def)
  have old: "j < length (ss_objs s) \<Longrightarrow> ss_objs s1 ! j = ss_objs s ! j" for j
    unfolding s1(1) by (simp add: nth_append)
  have len: "length (ss_objs s1) = Suc (length (ss_objs s))" unfolding s1(1) by simp
  have ent: "snd en < length (ss_objs s1) \<and> st_id (ss_objs s1 ! snd en) = fst en \<and> \<not> dead (ss_objs s1) (snd en)"
    if "en \<in> set (AList.update sid i (ss_streams s1))" for en
  proof -
    from that consider "en = (sid, i)" | "en \<in> set (ss_streams s)"
      using set_update_sub [of sid i "ss_streams s1"] s1(5) by auto
    then show ?thesis
    proof cases
      case 1
      with s1 len show ?thesis by (auto simp: dead_def)
    next
      case 2
      with assms(1) have "snd en < length (ss_objs s)" "st_id (ss_objs s ! snd en) = fst en" "\<not> dead (ss_objs s) (snd en)"
        by (auto simp: session_inv_def inv_except_def entries_ok_def)
      with d old len show ?thesis by simp
    qed
  qed
  have "distinct (map fst (AList.update sid i (ss_streams s1)))"
    using assms(1) s1(5) by (intro distinct_update) (simp add: session_inv_def inv_except_def entries_ok_def)
  with ent assms(1,2) s1 d show ?thesis
    by (simp add: session_inv_def inv_except_def entries_ok_def hooks_once_def)
qed

section \<open>The receive loop\<close>

lemma emit_inv:
  assumes "session_inv s" "ev \<noteq> EvSessionDied" "\<And>i. ev \<noteq> EvStreamDied i"
  shows "session_inv (emit ev s)"
  using assms by (auto simp: session_inv_def inv_except_def hooks_once_def emit_def)

lemma readConn_core: "core (snd (readConn n s)) = core s"
  by (auto simp: readConn_def core_def setConn_def split: sum.split)

lemma withPayload_inv:
  assumes "session_inv s" "\<And>b s'. session_inv s' \<Longrightarrow> session_inv (iterState (k b s'))"
  shows "session_inv (iterState (withPayload n k s))"
proof -
  obtain res s1 where r: "readConn n s = (res, s1)" by fastforce
  have "session_inv s1" using readConn_core [of n s] r session_inv_frame [OF assms(1)] by simp
  with assms r show ?thesis by (simp add: withPayload_def split: sum.split)
qed

lemma sendOrReturn_inv:
  assumes "session_inv s" "\<And>s'. session_inv s' \<Longrightarrow> session_inv (iterState (k s'))"
  shows "session_inv (iterState (sendOrReturn f k s))"
proof -
  obtain n err s1 where w: "writeControlFrame f s = ((n, err), s1)" by (metis prod.collapse)
  have "session_inv s1" using session_inv_control [OF assms(1), of f] w by simp
  with assms w show ?thesis by (simp add: sendOrReturn_def split: option.split)
qed

lemma trackRecvBytes_core [simp]: "core (trackRecvBytes n s) = core s"
  by (simp add: core_def)

lemma maybeStartIdleLoop_inv:
  assumes "session_inv s"
  shows "session_inv (maybeStartIdleLoop s)"
proof -
  have "session_inv (s\<lparr>ss_idleLoop := True\<rparr>)" using assms by (rule session_inv_frame) simp
  then have "session_inv (emit EvStartIdleLoop (s\<lparr>ss_idleLoop := True\<rparr>))" by (rule emit_inv) simp_all
  with assms show ?thesis by (simp add: maybeStartIdleLoop_def Let_def)
qed

lemma lookup_bound: "session_inv s \<Longrightarrow> lookupStream sid s = Some i \<Longrightarrow> i < length (ss_objs s)"
  by (force simp: session_inv_def inv_except_def entries_ok_def lookupStream_def dest!: map_of_SomeD)

lemma recvPSH_inv: "session_inv s \<Longrightarrow> session_inv (iterState (recvPSH sid n s))"
proof (unfold recvPSH_def, erule withPayload_inv)
  fix b s assume "session_inv s"
  then have "session_inv (case lookupStream sid s of Some i \<Rightarrow> emit (EvDeliver i b) s | None \<Rightarrow> s)"
    by (auto intro: emit_inv split: option.split)
  then show "session_inv (iterState (let s = (case lookupStream sid s of Some i \<Rightarrow> emit (EvDeliver i b) s | None \<Rightarrow> s)
      in Continue (trackRecvBytes n s)))"
    unfolding Let_def iterState.simps by (rule session_inv_frame) (rule trackRecvBytes_core)
qed

lemma recvSYN_inv:
  assumes "session_inv s" "\<not> ss_closed s"
  shows "session_inv (iterState (recvSYN sid s))"
proof -
  have "session_inv (emit (EvAccept i) (s1\<lparr>ss_streams := AList.update sid i (ss_streams s1)\<rparr>))"
    if "newStream sid s = (i, s1)" for i s1
    using register_inv [OF assms that] by (rule emit_inv) simp_all
  with session_inv_control [OF assms(1)] assms(1) show ?thesis
    by (auto simp: recvSYN_def Let_def split_beta split: option.split)
qed

lemma recvSYNACK_inv:
  assumes "session_inv s"
  shows "session_inv (iterState (recvSYNACK sid n s))"
proof -
  let ?s0 = "s\<lparr>ss_consecutiveSynAckTimeouts := 0\<rparr>"
  have "session_inv ?s0" using assms by (rule session_inv_frame) simp
  then have "session_inv (case lookupStream sid ?s0 of
      Some i \<Rightarrow> updStream i (\<lambda>st. st\<lparr>st_synTimer := False\<rparr>) ?s0 | None \<Rightarrow> ?s0)"
    by (auto intro!: updStream_inv split: option.split)
  then show ?thesis
    unfolding recvSYNACK_def Let_def
    by (rule withPayload_inv) (auto intro!: closeWithError_inv lookup_bound split: option.split)
qed

lemma recvFIN_inv: "session_inv s \<Longrightarrow> session_inv (iterState (recvFIN sid s))"
  by (auto simp: recvFIN_def Let_def closeLocally_removed_inv session_inv_delete split: option.split)

lemma recvSettings_inv:
  assumes "session_inv s"
  shows "session_inv (iterState (recvSettings n s))"
  unfolding recvSettings_def
proof (rule withPayload_inv [OF assms], goal_cases)
  case (1 b s)
  have upd: "session_inv (s1\<lparr>ss_receivedSettings := x\<rparr>)" "session_inv (s1\<lparr>ss_migActive := x\<rparr>)"
    "session_inv (s1\<lparr>ss_peerVersion := v\<rparr>)" "session_inv (signalIdleReady s1)" if "session_inv s1" for s1 x v
    using that by (auto intro: session_inv_frame)
  show ?case
    unfolding Let_def split_beta using 1
    by (auto intro!: sendOrReturn_inv session_inv_control upd)
qed

lemma recvUpdatePaddingScheme_inv:
  assumes "session_inv s"
  shows "session_inv (iterState (recvUpdatePaddingScheme md5 n s))"
proof (cases "n > maxPaddingSchemeLen")
  case True
  with assms show ?thesis by (simp add: recvUpdatePaddingScheme_def)
next
  case False
  have "session_inv (maybeStartIdleLoop (s1\<lparr>ss_padding := pf\<rparr>))" if "session_inv s1" for s1 pf
    by (rule maybeStartIdleLoop_inv, rule session_inv_frame [OF that]) simp
  with assms show ?thesis
    unfolding recvUpdatePaddingScheme_def if_not_P [OF False]
    by (intro withPayload_inv) (simp_all add: Let_def split_beta)
qed

lemma recvServerSettings_inv:
  assumes "session_inv s"
  shows "session_inv (iterState (recvServerSettings n s))"
  unfolding recvServerSettings_def
proof (rule withPayload_inv [OF assms], goal_cases)
  case (1 b s)
  have upd: "session_inv (s1\<lparr>ss_peerVersion := v\<rparr>)" "session_inv (signalIdleReady s1)" if "session_inv s1" for s1 v
    using that by (auto intro: session_inv_frame)
  show ?case
    unfolding Let_def split_beta using 1
    by (auto intro!: session_inv_control upd split: option.split)
qed

lemma recvMigrate_inv:
  assumes "session_inv s"
  shows "session_inv (iterState (recvMigrateReady sid n s))"
    and "(\<And>i j. ev i \<noteq> EvStreamDied j) \<Longrightarrow> (\<And>i. ev i \<noteq> EvSessionDied) \<Longrightarrow>
      session_inv (iterState (recvBarrier fc ev sid n s))"
proof -
  show "session_inv (iterState (recvMigrateReady sid n s))"
    unfolding recvMigrateReady_def using assms
    by (rule withPayload_inv) (auto intro: emit_inv split: option.split)
  assume ev: "\<And>i j. ev i \<noteq> EvStreamDied j" "\<And>i. ev i \<noteq> EvSessionDied"
  have act: "session_inv (iterState (Continue (if ss_isClient s1 = fc
                 then case lookupStream sid s1 of
                        Some i \<Rightarrow> if st_mig (ss_objs s1 ! i) then emit (ev i) s1 else s1
                      | None \<Rightarrow> s1
                 else s1)))" if "session_inv s1" for s1
    using that ev by (auto intro: emit_inv split: option.split)
  show "session_inv (iterState (recvBarrier fc ev sid n s))"
    unfolding recvBarrier_def Let_def using withPayload_inv [OF assms act] act [OF assms] by simp
qed

lemma recvStep_inv:
  assumes "session_inv s"
  shows "session_inv (iterState (recvStep md5 s))"
proof (cases "ss_closed s")
  case True
  with assms show ?thesis by (simp add: recvStep_def IsClosed_def)
next
  case False
  obtain res s1 where r: "readConn headerOverHeadSize s = (res, s1)" by fastforce
  have c: "core s1 = core s" using readConn_core [of headerOverHeadSize s] r by simp
  then have inv1: "session_inv s1" and open1: "\<not> ss_closed s1"
    using session_inv_frame [OF assms] False by (simp_all add: core_def)
  have "session_inv (s1\<lparr>ss_lastHeartRespNano := t\<rparr>)" for t using inv1 by (rule session_inv_frame) simp
  moreover have "session_inv (iterState (withPayload n (\<lambda>_. Continue) s1))" for n
    by (rule withPayload_inv [OF inv1]) simp
  moreover have "session_inv (iterState (withPayload n (\<lambda>b s. Return None (if ss_isClient s then emit (EvAlert b) s else s)) s1))" for n
    by (rule withPayload_inv [OF inv1]) (simp add: emit_inv)
  moreover have "session_inv (iterState (sendOrReturn f Continue s1))" for f
    by (rule sendOrReturn_inv [OF inv1]) simp
  moreover note recvPSH_inv [OF inv1] recvSYN_inv [OF inv1 open1] recvSYNACK_inv [OF inv1] recvFIN_inv [OF inv1]
    recvSettings_inv [OF inv1] recvUpdatePaddingScheme_inv [OF inv1] recvServerSettings_inv [OF inv1]
    recvMigrate_inv(1) [OF inv1] recvMigrate_inv(2) [OF inv1, of EvMigrateGo] recvMigrate_inv(2) [OF inv1, of EvUplinkFin]
  ultimately show ?thesis
    using r False inv1 unfolding recvStep_def IsClosed_def Let_def
    by (cases res) (simp_all only: split sum.case prod.case if_False iterState.simps if_split_mem1 event.simps simp_thms split: if_split)
qed

end
