(* ===== verification/Session_Life.thy ===== *)
theory Session_Life
  imports Session_Inv
begin

text \<open>
  The life of a session: a step relation whose steps are the operations other goroutines call on it,
  the iterations of its three loops, the firing of a running SYNACK timer, and the moves of its
  environment (clock, random draws, network, the pool's stream counter, a held \<open>connLock\<close>).  What is
  proved of every step holds in every reachable state, whatever the interleaving.
\<close>

section \<open>The operations preserve the invariant\<close>

lemma OpenStream_inv:
  assumes "session_inv s"
  shows "session_inv (snd (OpenStream s))"
proof (cases "IsClosed s \<or> ss_connBroken s")
  case True
  with assms show ?thesis by (simp add: OpenStream_def)
next
  case False
  define sid where "sid = ss_streamId s + 1"
  obtain i s1 where n: "newStream sid (s\<lparr>ss_streamId := sid\<rparr>) = (i, s1)" by fastforce
  have inv0: "session_inv (s\<lparr>ss_streamId := sid\<rparr>)" using assms by (rule session_inv_frame) simp
  have reg: "session_inv (s1\<lparr>ss_streams := AList.update sid i (ss_streams s1)\<rparr>)"
    using False by (intro register_inv [OF inv0 _ n]) (simp add: IsClosed_def)
  define s2 where "s2 = (if sid \<ge> 2 \<and> ss_peerVersion s1 \<ge> 2
      then updStream i (\<lambda>st. st\<lparr>st_synTimer := True\<rparr>) s1 else s1)"
  define s3 where "s3 = s2\<lparr>ss_streams := AList.update sid i (ss_streams s2)\<rparr>"
  have "s3 = (if sid \<ge> 2 \<and> ss_peerVersion s1 \<ge> 2
      then updStream i (\<lambda>st. st\<lparr>st_synTimer := True\<rparr>) (s1\<lparr>ss_streams := AList.update sid i (ss_streams s1)\<rparr>)
      else s1\<lparr>ss_streams := AList.update sid i (ss_streams s1)\<rparr>)"
    by (simp add: s3_def s2_def updStream_def)
  then have inv3: "session_inv s3" using reg updStream_inv [OF reg, of "\<lambda>st. st\<lparr>st_synTimer := True\<rparr>"] by simp
  obtain k err s4 where w: "writeControlFrame (newFrame cmdSYN sid) s3 = ((k, err), s4)" by (metis prod.collapse)
  have inv4: "session_inv s4" using session_inv_control [OF inv3, of "newFrame cmdSYN sid"] w by simp
  have "snd (OpenStream s) = (case err of
      Some e \<Rightarrow> updStream i (\<lambda>st. st\<lparr>st_synTimer := False\<rparr>) (s4\<lparr>ss_streams := AList.delete sid (ss_streams s4)\<rparr>)
    | None \<Rightarrow> s4\<lparr>ss_buffering := False\<rparr>)"
    using False n w unfolding OpenStream_def s3_def s2_def sid_def by (simp add: Let_def split: option.split)
  moreover have "session_inv (s4\<lparr>ss_buffering := False\<rparr>)" using inv4 by (rule session_inv_frame) simp
  moreover have "session_inv (updStream i (\<lambda>st. st\<lparr>st_synTimer := False\<rparr>)
      (s4\<lparr>ss_streams := AList.delete sid (ss_streams s4)\<rparr>))"
    by (rule updStream_inv [OF session_inv_delete [OF inv4]]) simp_all
  ultimately show ?thesis by (simp split: option.split)
qed

lemma streamWrite_inv:
  assumes "session_inv s"
  shows "session_inv (snd (streamWrite i expired b s))"
proof -
  have "session_inv (updStream i (\<lambda>st. st\<lparr>st_frameSeq := sq\<rparr>) s)" for sq
    by (rule updStream_inv [OF assms]) simp_all
  then have "session_inv (snd (writeDataFrameShaped sid b early (updStream i (\<lambda>st. st\<lparr>st_frameSeq := sq\<rparr>) s)))"
    for sid early sq using session_inv_frame writeDataFrameShaped_core by blast
  with assms show ?thesis by (simp add: streamWrite_def Let_def split: option.split)
qed

lemma Handshake_inv:
  assumes "session_inv s"
  shows "session_inv (snd (HandshakeSuccess i s))" "session_inv (snd (HandshakeFailure i err s))"
proof -
  have upd: "session_inv (updStream i (\<lambda>st. st\<lparr>st_reported := True\<rparr>) s)"
    by (rule updStream_inv [OF assms]) simp_all
  then show "session_inv (snd (HandshakeSuccess i s))" "session_inv (snd (HandshakeFailure i err s))"
    by (auto simp: HandshakeSuccess_def HandshakeFailure_def Let_def split_beta
        intro: session_inv_control split: option.split)
qed

lemma synAckTimeout_inv:
  assumes "session_inv s" "i < length (ss_objs s)"
  shows "session_inv (synAckTimeout i s)"
proof -
  define s1 where "s1 = s\<lparr>ss_consecutiveSynAckTimeouts := ss_consecutiveSynAckTimeouts s + 1\<rparr>"
  have "session_inv s1" "session_inv (s1\<lparr>ss_connBroken := True\<rparr>)"
    using assms(1) unfolding s1_def by (auto intro: session_inv_frame)
  then have "session_inv (snd (closeWithError i SynAckTimeoutError s1))"
    "session_inv (snd (closeWithError i SynAckTimeoutError (s1\<lparr>ss_connBroken := True\<rparr>)))"
    using assms(2) by (auto intro!: closeWithError_inv simp: s1_def)
  then show ?thesis
    by (simp add: synAckTimeout_def Let_def split_beta session_inv_Close flip: s1_def)
qed

lemma session_inv_shaper:
  assumes "session_inv s" "c_closed (rs_conn rs) = c_closed (ss_conn s)"
  shows "session_inv (s\<lparr>ss_shaper := rs\<rparr>)" "session_inv (s\<lparr>ss_shaper := rs, ss_rand := r\<rparr>)"
  using assms by (auto intro!: session_inv_frame [OF assms(1)] simp: core_def)

lemma shaper_conn [simp]:
  "rs_conn (maybeRefreshConfig pf rs) = rs_conn rs"
  "rs_conn (fst (snd (BuildIdleFrame pf now rs r))) = rs_conn rs"
  by (simp_all add: maybeRefreshConfig_def BuildIdleFrame_def Let_def split_beta)

lemma broken_Close_inv: "session_inv s \<Longrightarrow> session_inv (snd (Close (s\<lparr>ss_connBroken := True\<rparr>)))"
  using session_inv_Close session_inv_frame core_updates(2) by blast

lemma idle_inv:
  assumes "session_inv s"
  shows "session_inv (snd (idleLoopStart s))" "session_inv (snd (idleTick s))"
proof -
  show "session_inv (snd (idleLoopStart s))"
    using assms session_inv_shaper(1) [OF assms, of "maybeRefreshConfig (ss_padding s) (ss_shaper s)"]
    by (simp add: idleLoopStart_def Let_def)
  obtain frm rs r where b: "BuildIdleFrame (ss_padding s) (ss_now s) (ss_shaper s) (ss_rand s) = (frm, rs, r)"
    by (metis prod.collapse)
  have rs: "rs_conn rs = ss_conn s" using shaper_conn(2) [of "ss_padding s" "ss_now s" "ss_shaper s" "ss_rand s"] b by simp
  let ?s1 = "s\<lparr>ss_shaper := rs, ss_rand := r\<rparr>"
  have inv1: "session_inv ?s1" using session_inv_shaper(2) [OF assms] rs by simp
  have inv2: "session_inv (?s1\<lparr>ss_shaper := snd (writeWithDeadline (ss_now s) bs rs)\<rparr>)" for bs
    by (rule session_inv_shaper(1) [OF inv1]) simp
  show "session_inv (snd (idleTick s))"
    using assms b inv1 inv2 broken_Close_inv [OF inv2] session_inv_Close [OF assms]
    by (simp add: idleTick_def Let_def split_beta split: option.split)
qed

lemma heartbeat_inv:
  assumes "session_inv s"
  shows "session_inv (snd (heartbeatSend q stuck s))" "session_inv (snd (heartbeatVerdict t blocked s))"
  using assms broken_Close_inv [OF assms] session_inv_control [OF assms, of "newFrame cmdHeartRequest 0"]
  by (simp_all add: heartbeatSend_def heartbeatVerdict_def Let_def split_beta)

lemma Run_inv:
  assumes "session_inv s"
  shows "session_inv (Run s)"
proof -
  have "session_inv (s1\<lparr>ss_buffering := True\<rparr>)" if "session_inv s1" for s1
    using that by (rule session_inv_frame) simp
  with maybeStartIdleLoop_inv [OF assms] show ?thesis
    by (simp add: Run_def Let_def session_inv_control)
qed

lemma newSession_inv: "\<not> c_closed c \<Longrightarrow> session_inv (newSession client c pf now r)"
  by (simp add: newSession_def newRecordShaper_def session_inv_def inv_except_def hooks_once_def
      entries_ok_def dead_def Let_def split_beta)

section \<open>Steps\<close>

text \<open>What the environment may change: the clock, the draws, who holds \<open>connLock\<close>, the stream count
  of the pool, the bytes that arrived and the results of the writes to come.\<close>

definition envMove :: "int \<Rightarrow> rand \<Rightarrow> bool \<Rightarrow> int \<Rightarrow> bytes \<Rightarrow> wres list \<Rightarrow> Session \<Rightarrow> Session" where
  "envMove now r locked active arrived sched s =
     setConn ((ss_conn s)\<lparr>c_in := c_in (ss_conn s) @ arrived, c_sched := sched\<rparr>)
       (s\<lparr>ss_now := now, ss_rand := r, ss_connLocked := locked, ss_activeStreams := active\<rparr>)"

inductive sess_step :: "(bytes \<Rightarrow> string) \<Rightarrow> Session \<Rightarrow> Session \<Rightarrow> bool" for md5 where
  step_env: "sess_step md5 s (envMove now r locked active arrived sched s)"
| step_open: "sess_step md5 s (snd (OpenStream s))"
| step_write: "i < length (ss_objs s) \<Longrightarrow> sess_step md5 s (snd (streamWrite i expired b s))"
| step_close_stream: "i < length (ss_objs s) \<Longrightarrow> sess_step md5 s (snd (streamClose i s))"
| step_success: "i < length (ss_objs s) \<Longrightarrow> sess_step md5 s (snd (HandshakeSuccess i s))"
| step_failure: "i < length (ss_objs s) \<Longrightarrow> sess_step md5 s (snd (HandshakeFailure i err s))"
| step_timeout: "i < length (ss_objs s) \<Longrightarrow> st_synTimer (ss_objs s ! i) \<Longrightarrow> sess_step md5 s (synAckTimeout i s)"
| step_close: "sess_step md5 s (snd (Close s))"
| step_recv: "recvStep md5 s = Continue s' \<Longrightarrow> sess_step md5 s s'"
| step_recv_end: "recvStep md5 s = Return e s' \<Longrightarrow> sess_step md5 s (snd (Close s'))"
| step_idle_start: "sess_step md5 s (snd (idleLoopStart s))"
| step_idle: "sess_step md5 s (snd (idleTick s))"
| step_probe: "sess_step md5 s (snd (heartbeatSend q stuck s))"
| step_verdict: "sess_step md5 s (snd (heartbeatVerdict t blocked s))"

inductive_cases sess_stepE: "sess_step md5 s s'"

text \<open>A session is created on an open connection, then run.\<close>

inductive sess_reachable :: "(bytes \<Rightarrow> string) \<Rightarrow> Session \<Rightarrow> bool" for md5 where
  reach_client: "\<not> c_closed c \<Longrightarrow>
    sess_reachable md5 (Run ((NewClientSession c pf now r)\<lparr>ss_migActive := mig\<rparr>))"
| reach_server: "\<not> c_closed c \<Longrightarrow>
    sess_reachable md5 (Run ((NewServerSession c pf now r)\<lparr>ss_migRegistry := mig\<rparr>))"
| reach_step: "sess_reachable md5 s \<Longrightarrow> sess_step md5 s s' \<Longrightarrow> sess_reachable md5 s'"

lemma envMove_core: "core (envMove now r locked active arrived sched s) = core s"
  by (simp add: envMove_def core_def setConn_def)

lemma sess_step_inv:
  assumes "sess_step md5 s s'" "session_inv s"
  shows "session_inv s'"
  using assms
proof cases
  case (step_recv)
  with recvStep_inv [OF assms(2), of md5] show ?thesis by simp
next
  case (step_recv_end e t)
  with recvStep_inv [OF assms(2), of md5] show ?thesis by (simp add: session_inv_Close)
next
  case step_env
  with assms(2) envMove_core show ?thesis using session_inv_frame by blast
qed (auto simp: assms OpenStream_inv streamWrite_inv streamClose_def closeWithError_inv Handshake_inv
    synAckTimeout_inv session_inv_Close idle_inv heartbeat_inv)

lemma reachable_inv: "sess_reachable md5 s \<Longrightarrow> session_inv s"
proof (induction rule: sess_reachable.induct)
  case (reach_client c mig pf now r)
  have "session_inv ((NewClientSession c pf now r)\<lparr>ss_migActive := mig\<rparr>)"
    using newSession_inv [OF reach_client] unfolding NewClientSession_def by (rule session_inv_frame) simp
  then show ?case by (rule Run_inv)
next
  case (reach_server c mig pf now r)
  have "session_inv ((NewServerSession c pf now r)\<lparr>ss_migRegistry := mig\<rparr>)"
    using newSession_inv [OF reach_server] unfolding NewServerSession_def
    by (rule session_inv_frame) (simp add: core_def)
  then show ?case by (rule Run_inv)
next
  case (reach_step s s')
  then show ?case by (blast intro: sess_step_inv)
qed



end
