(* ===== verification/Session_Exchange.thy ===== *)
theory Session_Exchange
  imports Session_Life
begin

text \<open>
  Two sessions talking: what one side writes is what the other side's receive loop acts on.
\<close>

section \<open>Nothing stays in the buffer\<close>

definition unbuffered :: "Session \<Rightarrow> bool" where
  "unbuffered s \<longleftrightarrow> \<not> ss_closed s \<and> \<not> ss_buffering s"

definition flushed :: "Session \<Rightarrow> bool" where
  "flushed s \<longleftrightarrow> unbuffered s \<and> ss_buffer s = []"

lemma sendPSH_flushed: "unbuffered s \<Longrightarrow> flushed (snd (sendPSH sid chunk s))"
  by (simp add: sendPSH_def writeConn_def flushShaped_def flushed_def unbuffered_def IsClosed_def Let_def split_beta)

lemma flushed_unbuffered: "flushed s \<Longrightarrow> unbuffered s"
  by (simp add: flushed_def)

lemma flushed_rand [simp]: "unbuffered (s\<lparr>ss_rand := r\<rparr>) = unbuffered s" "flushed (s\<lparr>ss_rand := r\<rparr>) = flushed s"
  by (simp_all add: flushed_def unbuffered_def)

lemma writeDataLoop_flushed:
  assumes "unbuffered s" "data \<noteq> [] \<or> flushed s"
  shows "flushed (snd (writeDataLoop sid data written s))"
  using assms
proof (induction sid data written s rule: writeDataLoop.induct)
  case (1 sid data written s)
  show ?case
  proof (cases "data = []")
    case True
    with "1.prems" show ?thesis by (simp add: writeDataLoop.simps [of sid "[]"])
  next
    case False
    define chunk where "chunk = (if length data > h2MaxFramePayload then take h2MaxFramePayload data else data)"
    obtain err s1 where s1: "sendPSH sid chunk s = (err, s1)" by fastforce
    have f: "flushed s1" using sendPSH_flushed [OF "1.prems"(1), of sid chunk] s1 by simp
    have unf: "writeDataLoop sid data written s = (if err \<noteq> None then ((written, err), s1)
        else writeDataLoop sid (drop (length chunk) data) (written + length chunk) s1)"
      using s1 unfolding chunk_def by (subst writeDataLoop.simps) (simp only: False Let_def if_False split)
    show ?thesis
    proof (cases "err = None")
      case True
      from "1.IH" [OF False chunk_def s1 [symmetric]] True f flushed_unbuffered [OF f] unf show ?thesis by simp
    qed (use unf f in simp)
  qed
qed

lemma splitLoop_flushed:
  assumes "unbuffered s" "0 < k \<or> flushed s"
  shows "flushed (snd (splitLoop k sid data offset written s))"
  using assms
proof (induction k arbitrary: offset written s)
  case (Suc k)
  have f: "flushed (snd (sendPSH sid chunk (s\<lparr>ss_rand := r\<rparr>)))" "flushed (snd (sendPSH sid chunk s))" for chunk r
    using Suc.prems(1) by (simp_all add: sendPSH_flushed)
  show ?case
    unfolding splitLoop.simps(2) Let_def split_beta using Suc.IH f flushed_unbuffered by simp
qed simp

lemma data_write_flushed:
  assumes "unbuffered s" "data \<noteq> []"
  shows "flushed (snd (writeDataFrameShaped sid data early s))"
proof -
  have "flushed (snd (writeDataFrame sid data s))"
    using writeDataLoop_flushed [OF assms(1), of data sid 0] assms(2)
    by (simp add: writeDataFrame_def Let_def split_beta split: option.split)
  moreover have "flushed (snd (writeDataFrameSplit sid data s))"
    unfolding writeDataFrameSplit_def by (rule splitLoop_flushed [OF assms(1)]) simp
  ultimately show ?thesis by (simp add: writeDataFrameShaped_def)
qed

text \<open>A flushed session's outgoing frames are the payload of what is on the wire.\<close>

lemma flushed_wire:
  assumes "framed s" "flushed s"
  shows "\<exists>ws. wire (ss_conn s) = encodeFrames ws \<and> (\<forall>f \<in> set ws. wire_ok f) \<and> payload_frames ws = outgoing s"
proof -
  from assms obtain ws bs where w: "\<forall>f \<in> set (ws @ bs). wire_ok f" "wire (ss_conn s) = encodeFrames ws"
    "encodeFrames bs = []" by (auto simp: framed_def flushed_def)
  moreover have "payload_frames ws = outgoing s"
    using w assms(2) by (intro outgoing_encoded [symmetric]) (auto simp: flushed_def)
  ultimately show ?thesis by auto
qed

text \<open>What a write adds to the wire of a flushed session is again a run of frames.\<close>

lemma wire_suffix:
  assumes "\<forall>f \<in> set ws. wire_ok f" "\<forall>f \<in> set ws'. wire_ok f" "encodeFrames ws' = encodeFrames ws @ new"
  shows "\<exists>fs. ws' = ws @ fs \<and> new = encodeFrames fs"
proof -
  obtain gs rest where g: "decodeFrames new = (gs, rest)" by fastforce
  have "(ws', []) = decodeFrames (encodeFrames ws @ new)"
    using decodeFrames_append [OF assms(2), of "[]"] assms(3) by simp
  also have "\<dots> = (ws @ gs, rest)" using decodeFrames_append [OF assms(1), of new] g by simp
  finally show ?thesis using assms(3) by auto
qed

section \<open>Waste and data at the receiver\<close>

lemma psh_or_waste:
  assumes "payload_frames fs = map (pshFrame sid) chunks" "f \<in> set fs"
  shows "f_cmd f \<in> {cmdPSH, cmdWaste}" "f_cmd f = cmdPSH \<Longrightarrow> f \<in> pshFrame sid ` set chunks"
proof -
  have "f_cmd f \<noteq> cmdWaste \<Longrightarrow> f \<in> set (payload_frames fs)" using assms(2) by (simp add: payload_frames_def)
  then show "f_cmd f \<in> {cmdPSH, cmdWaste}" "f_cmd f = cmdPSH \<Longrightarrow> f \<in> pshFrame sid ` set chunks"
    unfolding assms(1) by (auto simp: pshFrame_def)
qed

lemma deliveries_payload: "concat (map (deliveries streams) (payload_frames fs)) = concat (map (deliveries streams) fs)"
  by (induction fs) (auto simp: payload_frames_def deliveries_def)

lemma deliveries_psh:
  assumes "map_of streams sid = Some i"
  shows "concat (map (deliveries streams) (map (pshFrame sid) chunks)) = map (EvDeliver i) (filter (\<lambda>c. c \<noteq> []) chunks)"
  using assms by (induction chunks) (auto simp: deliveries_def pshFrame_def)

lemma data_run_delivers:
  assumes "listening r" "inp r = encodeFrames fs @ rest" "\<forall>f \<in> set fs. wire_ok f"
    and "payload_frames fs = map (pshFrame sid) chunks" "\<forall>c \<in> set chunks. c \<noteq> []" "lookupStream sid r = Some i"
  shows "\<exists>r'. recvLoop md5 r = recvLoop md5 r' \<and> inp r' = rest \<and> ss_streams r' = ss_streams r
    \<and> ss_objs r' = ss_objs r \<and> ss_peerVersion r' = ss_peerVersion r \<and> ss_trace r' = ss_trace r @ map (EvDeliver i) chunks"
proof -
  have "concat (map (deliveries (ss_streams r)) fs) = map (EvDeliver i) chunks"
    using assms(4-6) deliveries_psh [of "ss_streams r" sid i chunks] deliveries_payload [of "ss_streams r" fs]
    by (simp add: lookupStream_def)
  moreover have "\<forall>f \<in> set fs. wire_ok f \<and> f_cmd f \<in> {cmdPSH, cmdWaste}"
    using assms(3) psh_or_waste(1) [OF assms(4)] by blast
  ultimately show ?thesis using recv_data_run [OF assms(1,2), of md5] by auto
qed

text \<open>
  Property C10.  End to end: the bytes a successful data write puts on the wire are the bytes the
  peer's receive loop hands to the stream of that id, in order and complete, with padding removed and
  whatever follows left unread.
\<close>

theorem written_data_is_delivered:
  assumes "framed s" "flushed s" "data \<noteq> []"
    and "writeDataFrameShaped sid data early s = ((n, None), s')"
    and "listening r" "wire (ss_conn s) @ inp r = wire (ss_conn s') @ rest" "lookupStream sid r = Some i"
  shows "\<exists>r' chunks. recvLoop md5 r = recvLoop md5 r' \<and> inp r' = rest \<and> ss_streams r' = ss_streams r
    \<and> ss_trace r' = ss_trace r @ map (EvDeliver i) chunks \<and> concat chunks = data \<and> n = length data"
proof -
  from data_write_chunks [OF assms(1,4)] obtain chunks where
    c: "transmitted sid data chunks s (n, None) s'" "\<forall>c \<in> set chunks. c \<noteq> []" by auto
  then have s': "framed s'" "outgoing s' = outgoing s @ map (pshFrame sid) chunks" "concat chunks = data"
    "n = length data" by (auto simp: transmitted_def)
  have "flushed s'" using data_write_flushed [OF flushed_unbuffered [OF assms(2)] assms(3), of sid early] assms(4) by simp
  from flushed_wire [OF assms(1,2)] flushed_wire [OF s'(1) this] obtain ws ws' where
    w: "wire (ss_conn s) = encodeFrames ws" "\<forall>f \<in> set ws. wire_ok f" "payload_frames ws = outgoing s"
    "wire (ss_conn s') = encodeFrames ws'" "\<forall>f \<in> set ws'. wire_ok f" "payload_frames ws' = outgoing s'" by blast
  obtain new where "wire (ss_conn s') = wire (ss_conn s) @ new" using c(1) by (auto simp: transmitted_def kept_def)
  then obtain fs where fs: "ws' = ws @ fs" "new = encodeFrames fs" "wire (ss_conn s') = wire (ss_conn s) @ encodeFrames fs"
    using wire_suffix [OF w(2,5)] w(1,4) by metis
  then have "inp r = encodeFrames fs @ rest" using assms(6) by simp
  moreover have "payload_frames fs = map (pshFrame sid) chunks" using fs(1) w(3,6) s'(2) by simp
  moreover have "\<forall>f \<in> set fs. wire_ok f" using fs(1) w(5) by simp
  ultimately show ?thesis using data_run_delivers [OF assms(5) _ _ _ c(2) assms(7), of fs rest md5] s'(3,4) by blast
qed

definition sample_sender :: Session where
  "sample_sender = NewServerSession (quietConn []) sample_factory 0 []"

definition sample_receiver :: "bytes \<Rightarrow> Session" where
  "sample_receiver b = (NewServerSession (quietConn b) sample_factory 0 [])\<lparr>ss_streams := [(7, 0)]\<rparr>"

lemma sample_sender_facts:
  "framed sample_sender" "flushed sample_sender" "wire (ss_conn sample_sender) = []"
  using framed_new [of "quietConn []" False sample_factory 0 "[]"]
  by (simp_all add: sample_sender_def NewServerSession_def flushed_def unbuffered_def newSession_def newRecordShaper_def
      quietConn_def wire_def Let_def split_beta)

lemma sample_write: "\<exists>s'. writeDataFrameShaped 7 [1, 2, 3] True sample_sender = ((3, None), s')"
  by (simp add: writeDataFrameShaped_def writeDataFrame_def writeDataLoop.simps sendPSH_def writeConn_def IsClosed_def
      WriteData_def connWrite_def sample_sender_def NewServerSession_def newSession_def newRecordShaper_def quietConn_def
      Let_def split_beta)

theorem written_data_is_delivered_witness:
  "\<exists>r' chunks. recvLoop (\<lambda>_. []) (sample_receiver
        (wire (ss_conn (snd (writeDataFrameShaped 7 [1, 2, 3] True sample_sender))))) = recvLoop (\<lambda>_. []) r'
     \<and> ss_trace r' = map (EvDeliver 0) chunks \<and> concat chunks = [1, 2, 3]"
proof -
  obtain s' where w: "writeDataFrameShaped 7 [1, 2, 3] True sample_sender = ((3, None), s')" using sample_write by blast
  let ?r = "sample_receiver (wire (ss_conn s'))"
  have r: "listening ?r" "inp ?r = wire (ss_conn s')" "lookupStream 7 ?r = Some 0" "ss_trace ?r = []"
    by (simp_all add: sample_receiver_def listening_def lookupStream_def NewServerSession_def newSession_def
        newRecordShaper_def quietConn_def Let_def split_beta)
  have "wire (ss_conn sample_sender) @ inp ?r = wire (ss_conn s') @ []" using r(2) sample_sender_facts(3) by simp
  from written_data_is_delivered [OF sample_sender_facts(1,2) _ w r(1) this r(3), of "\<lambda>_. []"] r(4) w show ?thesis by auto
qed

section \<open>Control frames on a healthy connection\<close>

definition healthy :: "Session \<Rightarrow> bool" where
  "healthy s \<longleftrightarrow> listening s \<and> flushed s \<and> c_sched (ss_conn s) = []"

lemma healthy_setIn [simp]: "healthy (setIn b s) = healthy s"
  by (simp add: healthy_def listening_def flushed_def unbuffered_def setIn_def setConn_def)

lemma writeWithDeadline_sched:
  "c_sched (rs_conn rs) = [] \<Longrightarrow> c_sched (rs_conn (snd (writeWithDeadline now b rs))) = []"
  by (simp add: writeWithDeadline_def connWrite_def Let_def split_beta)

lemma shaper_sched:
  assumes "c_sched (rs_conn rs) = []"
  shows "c_sched (rs_conn (fst (snd (WriteControl pf now b rs r)))) = []"
    and "c_sched (rs_conn (fst (snd (WriteInitialFlush pf now b rs r)))) = []"
  using assms by (simp_all add: WriteControl_def WriteInitialFlush_def Let_def split_beta writeWithDeadline_sched)

lemma control_succeeds:
  assumes "healthy s" "wire_ok f"
  shows "\<exists>rs r. writeControlFrame f s = ((length (f_data f), None), s\<lparr>ss_shaper := rs, ss_rand := r\<rparr>)
    \<and> healthy (s\<lparr>ss_shaper := rs, ss_rand := r\<rparr>) \<and> c_in (rs_conn rs) = inp s"
proof -
  obtain m err s1 where w: "writeConn (encodeFrame f) True s = ((m, err), s1)" by (metis prod.collapse)
  have s: "\<not> ss_closed s" "\<not> ss_buffering s" "ss_buffer s = []" "\<not> c_closed (ss_conn s)" "c_sched (ss_conn s) = []"
    using assms(1) by (auto simp: healthy_def listening_def flushed_def unbuffered_def)
  note ok = WriteControl_succeeds [OF s(4,5), of "ss_padding s" "ss_now s" "encodeFrame f" "ss_rand s"]
    WriteInitialFlush_succeeds [OF s(4,5), of "ss_padding s" "ss_now s" "encodeFrame f" "ss_rand s"]
  have "err = None \<and> s1 = s\<lparr>ss_shaper := ss_shaper s1, ss_rand := ss_rand s1\<rparr> \<and> c_sched (ss_conn s1) = []"
    using w s ok shaper_sched [OF s(5), of "ss_padding s" "ss_now s" "encodeFrame f" "ss_rand s"]
    by (auto simp: writeConn_def IsClosed_def flushShaped_def Let_def split_beta split: if_splits)
  then have err: "err = None" and s1: "s1 = s\<lparr>ss_shaper := ss_shaper s1, ss_rand := ss_rand s1\<rparr>"
    and sched: "c_sched (ss_conn s1) = []" by blast+
  have "writeControlFrame f s = ((length (f_data f), None), s1)"
    using w err assms(2) by (simp add: writeControlFrame_def wire_ok_def)
  moreover have "healthy s1"
  proof -
    have "core s1 = core s" using writeConn_core_eq [of "encodeFrame f" True s] w by simp
    then have c: "\<not> ss_closed s1" "\<not> c_closed (ss_conn s1)" using s(1,4) by (simp_all add: core_def)
    have "\<not> ss_buffering s1" "ss_buffer s1 = []" using s(2,3) by (subst s1, simp)+
    with c sched show ?thesis by (simp add: healthy_def listening_def flushed_def unbuffered_def)
  qed
  moreover have "c_in (ss_conn s1) = inp s" using writeConn_grows(2) [OF w] .
  ultimately show ?thesis using s1 by (intro exI [of _ "ss_shaper s1"] exI [of _ "ss_rand s1"]) (simp flip: s1)
qed

section \<open>The settings exchange\<close>

text \<open>Sending leaves the session as it is, but for the shaper and the draws.\<close>

definition answered :: "Session \<Rightarrow> Session \<Rightarrow> bool" where
  "answered s s' \<longleftrightarrow> (\<exists>rs r. s' = s\<lparr>ss_shaper := rs, ss_rand := r\<rparr>) \<and> healthy s' \<and> inp s' = inp s"

lemma answered_trans: "answered s s' \<Longrightarrow> answered s' s'' \<Longrightarrow> answered s s''"
proof -
  assume a: "answered s s'" and b: "answered s' s''"
  then obtain rs r rs' r' where "s' = s\<lparr>ss_shaper := rs, ss_rand := r\<rparr>" "s'' = s'\<lparr>ss_shaper := rs', ss_rand := r'\<rparr>"
    unfolding answered_def by blast
  then have "s'' = s\<lparr>ss_shaper := rs', ss_rand := r'\<rparr>" by simp
  with a b show "answered s s''" unfolding answered_def by auto
qed

lemma answered_fields:
  assumes "answered s s'"
  shows "healthy s'" "inp s' = inp s" "ss_receivedSettings s' = ss_receivedSettings s" "ss_isClient s' = ss_isClient s"
    "ss_peerVersion s' = ss_peerVersion s" "ss_streams s' = ss_streams s" "ss_objs s' = ss_objs s" "ss_trace s' = ss_trace s"
  using assms by (auto simp: answered_def)

lemma healthy_signalIdleReady [simp]: "healthy (signalIdleReady s) = healthy s"
  by (simp add: signalIdleReady_def healthy_def listening_def flushed_def unbuffered_def)

lemma control_answered:
  assumes "healthy s" "wire_ok f"
  shows "\<exists>s'. writeControlFrame f s = ((length (f_data f), None), s') \<and> answered s s'"
proof -
  obtain rs r where w: "writeControlFrame f s = ((length (f_data f), None), s\<lparr>ss_shaper := rs, ss_rand := r\<rparr>)"
    "healthy (s\<lparr>ss_shaper := rs, ss_rand := r\<rparr>)" "c_in (rs_conn rs) = inp s" using control_succeeds [OF assms] by blast
  then have "answered s (s\<lparr>ss_shaper := rs, ss_rand := r\<rparr>)" unfolding answered_def by auto
  with w(1) show ?thesis by blast
qed

lemma sendOrReturn_succeeds:
  assumes "healthy s" "wire_ok f"
  shows "\<exists>s'. sendOrReturn f k s = k s' \<and> answered s s'"
  using control_answered [OF assms] by (auto simp: sendOrReturn_def)

lemma setIn_same: "setIn (inp s) s = s"
  by (simp add: setIn_def setConn_def)

lemma setIn_fields [simp]:
  "ss_padding (setIn b s) = ss_padding s" "ss_migRegistry (setIn b s) = ss_migRegistry s"
  by (simp_all add: setIn_def setConn_def)

lemma waste_run:
  assumes "listening s" "inp s = encodeFrames ws @ rest" "\<forall>f \<in> set ws. wire_ok f \<and> f_cmd f = cmdWaste"
  shows "recvLoop md5 s = recvLoop md5 (setIn rest s)"
  using assms
proof (induction ws arbitrary: s)
  case Nil
  then show ?case using setIn_same [of s] by simp
next
  case (Cons f ws)
  let ?tail = "encodeFrames ws @ rest"
  have inp: "inp s = encodeFrame f @ ?tail" using Cons.prems(2) by simp
  have wp: "withPayload (length (f_data f)) (\<lambda>_. Continue) (setIn (f_data f @ ?tail) s) = Continue (setIn ?tail s)"
    using withPayload_append [of "setIn (f_data f @ ?tail) s" "f_data f" ?tail "\<lambda>_. Continue"] Cons.prems(1)
    by (auto simp: listening_def)
  have "recvStep md5 s = Continue (setIn ?tail s)"
    using recvStep_frame [OF Cons.prems(1) inp, of md5] Cons.prems(3) wp by (simp add: Let_def)
  then have "recvLoop md5 s = recvLoop md5 (setIn ?tail s)" by (subst recvLoop.simps) simp
  with Cons.IH [of "setIn ?tail s"] Cons.prems(1,3) show ?case by simp
qed

text \<open>What a server answers to a well-formed client announcement.\<close>

lemma recvSettings_accepts:
  assumes "healthy s" "\<not> ss_isClient s" "inp s = ToBytes m @ rest" "ToBytes m \<noteq> []" "clean_map m"
    and "sm_get m ''rs'' = ''1''" "sm_get m ''v'' = ''2''" "length (RawScheme (ss_padding s)) \<le> maxFrameDataLen"
  shows "\<exists>s'. recvSettings (length (ToBytes m)) s = Continue s' \<and> healthy s' \<and> inp s' = rest
    \<and> ss_receivedSettings s' \<and> \<not> ss_isClient s' \<and> ss_peerVersion s' = 2 \<and> ss_idleReady s'
    \<and> ss_streams s' = ss_streams s \<and> ss_objs s' = ss_objs s \<and> ss_trace s' = ss_trace s"
proof -
  define s1 where "s1 = (setIn rest s)\<lparr>ss_receivedSettings := True\<rparr>"
  define s2 where "s2 = (if ss_migRegistry s1 \<and> sm_get m ''mig'' = ''1'' then s1\<lparr>ss_migActive := True\<rparr> else s1)"
  define s3 where "s3 = s2\<lparr>ss_peerVersion := 2\<rparr>"
  define upd where "upd = (sm_get m ''padding-md5'' \<noteq> Md5 (ss_padding s2))"
  have fields: "healthy s3" "inp s3 = rest" "ss_receivedSettings s3" "\<not> ss_isClient s3" "ss_peerVersion s3 = 2"
    "ss_streams s3 = ss_streams s" "ss_objs s3 = ss_objs s" "ss_trace s3 = ss_trace s" "ss_padding s2 = ss_padding s"
    using assms(1,2) by (auto simp: s3_def s2_def s1_def healthy_def listening_def flushed_def unbuffered_def setIn_def setConn_def)
  have two: "Atoi ''2'' = Some 2" by code_simp
  let ?ss = "(newFrame cmdServerSettings 0)\<lparr>f_data := ToBytes serverSettings\<rparr>"
  let ?up = "(newFrame cmdUpdatePaddingScheme 0)\<lparr>f_data := RawScheme (ss_padding s)\<rparr>"
  let ?fin = "\<lambda>s. Continue (signalIdleReady s)"
  let ?ack = "sendOrReturn (newFrame cmdWaste 0) (\<lambda>s. if upd then sendOrReturn ?up ?fin s else ?fin s)"
  have "recvSettings (length (ToBytes m)) s = sendOrReturn ?ss ?ack s3"
    using withPayload_append [OF _ assms(3)] assms(1,2,4)
    by (cases "ss_migRegistry s \<and> sm_get m ''mig'' = ''1''")
      (simp_all add: recvSettings_def healthy_def listening_def fromBytes_ToBytes [OF assms(5)] assms(6,7) two Let_def
        s3_def s2_def s1_def upd_def cong: if_cong)
  moreover have ok: "wire_ok ?ss" "wire_ok (newFrame cmdWaste 0)" "wire_ok ?up"
    using assms(8) by (simp_all add: wire_ok_def newFrame_def serverSettings_def ToBytes_def)
  from sendOrReturn_succeeds [OF fields(1) ok(1), of ?ack] obtain s4 where
    a: "sendOrReturn ?ss ?ack s3 = ?ack s4" "answered s3 s4" by blast
  then have h4: "healthy s4" by (simp add: answered_def)
  from sendOrReturn_succeeds [OF h4 ok(2), of "\<lambda>s. if upd then sendOrReturn ?up ?fin s else ?fin s"] obtain s5 where
    b: "?ack s4 = (if upd then sendOrReturn ?up ?fin s5 else ?fin s5)" "answered s4 s5" by blast
  then have h5: "healthy s5" by (simp add: answered_def)
  from sendOrReturn_succeeds [OF h5 ok(3), of ?fin] obtain s6 where
    c: "sendOrReturn ?up ?fin s5 = ?fin s6" "answered s5 s6" by blast
  ultimately have "\<exists>s'. recvSettings (length (ToBytes m)) s = ?fin s' \<and> answered s3 s'"
    using a b c(1) answered_trans [OF a(2) b(2)] answered_trans [OF answered_trans [OF a(2) b(2)] c(2)]
    by (cases upd) (simp_all, blast+)
  then obtain s' where "recvSettings (length (ToBytes m)) s = ?fin s'" "answered s3 s'" by blast
  with answered_fields [of s3 s'] fields(2-8) show ?thesis
    by (intro exI [of _ "signalIdleReady s'"]) (simp, simp add: signalIdleReady_def)
qed

end
