(* ===== verification/Session_Flight.thy ===== *)
theory Session_Flight
  imports Session_Exchange
begin

text \<open>
  The first flight: a client session announces its settings, opens a stream and writes; a server
  session that reads these bytes accepts the stream and hands it the data.
\<close>

section \<open>The client's side\<close>

definition settingsFrame :: "PaddingFactory \<Rightarrow> frame" where
  "settingsFrame pf = \<lparr>f_cmd = cmdSettings, f_sid = 0, f_data = ToBytes
     [(''v'', ''2''), (''client'', clientVersion), (''padding-md5'', Md5 pf), (''rs'', ''1'')]\<rparr>"

text \<open>The state after \<open>Run\<close> and \<open>OpenStream\<close> on a fresh client session: all is still buffered.\<close>

lemma client_running:
  fixes c :: conn and now :: int and r :: rand
  assumes "wire_ok (settingsFrame pf)"
  defines "s0 \<equiv> maybeStartIdleLoop (NewClientSession c pf now r)"
  shows "Run (NewClientSession c pf now r) = s0\<lparr>ss_buffering := True, ss_buffer := encodeFrame (settingsFrame pf)\<rparr>"
proof -
  have s0: "ss_padding s0 = pf" "\<not> ss_migActive s0" "\<not> ss_closed s0" "ss_buffer s0 = []" "ss_isClient s0"
    by (simp_all add: s0_def NewClientSession_def newSession_def maybeStartIdleLoop_def emit_def Let_def split_beta)
  have f: "(newFrame cmdSettings 0)\<lparr>f_data := ToBytes (clientSettings s0)\<rparr> = settingsFrame pf"
    using s0(1,2) by (simp add: newFrame_def settingsFrame_def clientSettings_def)
  show ?thesis
    using assms(1) s0(3-5) f
    by (simp add: Run_def flip: s0_def) (simp add: writeControlFrame_def writeConn_def IsClosed_def wire_ok_def)
qed

text \<open>The pool has counted the stream before it is opened.\<close>

lemma client_opened_counted:
  fixes c :: conn and now :: int and r :: rand
  assumes "wire_ok (settingsFrame pf)"
  defines "s0 \<equiv> maybeStartIdleLoop (NewClientSession c pf now r)"
  defines "st \<equiv> \<lparr>st_id = 1, st_dieErr = None, st_synTimer = False, st_frameSeq = 0, st_reported = False, st_mig = False\<rparr>"
  shows "OpenStream ((Run (NewClientSession c pf now r))\<lparr>ss_activeStreams := n\<rparr>) = ((Some 0, None),
    s0\<lparr>ss_activeStreams := n, ss_buffering := False, ss_buffer := encodeFrames [settingsFrame pf, newFrame cmdSYN 1], ss_streamId := 1,
       ss_objs := [st], ss_streams := [(1, 0)]\<rparr>)"
proof -
  have "\<not> ss_migActive s0" "\<not> ss_closed s0" "\<not> ss_connBroken s0" "ss_streamId s0 = 0" "ss_objs s0 = []" "ss_streams s0 = []"
    by (simp_all add: s0_def NewClientSession_def newSession_def maybeStartIdleLoop_def emit_def Let_def split_beta)
  moreover have "\<not> (2 :: u32) \<le> 1" by (simp add: word_le_nat_alt)
  ultimately show ?thesis
    unfolding client_running [OF assms(1)] s0_def [symmetric]
    by (simp add: OpenStream_def IsClosed_def newStream_def writeControlFrame_def writeConn_def newFrame_def
        st_def Let_def)
qed

lemma client_opened:
  fixes c :: conn and now :: int and r :: rand
  assumes "wire_ok (settingsFrame pf)"
  defines "s0 \<equiv> maybeStartIdleLoop (NewClientSession c pf now r)"
  defines "st \<equiv> \<lparr>st_id = 1, st_dieErr = None, st_synTimer = False, st_frameSeq = 0, st_reported = False, st_mig = False\<rparr>"
  shows "OpenStream (Run (NewClientSession c pf now r)) = ((Some 0, None),
    s0\<lparr>ss_buffering := False, ss_buffer := encodeFrames [settingsFrame pf, newFrame cmdSYN 1], ss_streamId := 1,
       ss_objs := [st], ss_streams := [(1, 0)]\<rparr>)"
  using client_opened_counted [OF assms(1), where c = c and now = now and r = r and n = "ss_activeStreams (Run (NewClientSession c pf now r))"]
  by (simp add: s0_def st_def client_running [OF assms(1)])

lemma client_first_write:
  assumes "wire_ok (settingsFrame pf)" "c_out c = []" "b \<noteq> []"
    and "streamWrite 0 False b (snd (OpenStream (Run (NewClientSession c pf now r)))) = ((n, None), s')"
  shows "\<exists>ws chunks. wire (ss_conn s') = encodeFrames ws \<and> (\<forall>f \<in> set ws. wire_ok f)
    \<and> payload_frames ws = settingsFrame pf # newFrame cmdSYN 1 # map (pshFrame 1) chunks
    \<and> concat chunks = b \<and> (\<forall>c \<in> set chunks. c \<noteq> []) \<and> n = length b"
proof -
  define s1 where "s1 = updStream 0 (\<lambda>st. st\<lparr>st_frameSeq := 1\<rparr>) (snd (OpenStream (Run (NewClientSession c pf now r))))"
  have w: "writeDataFrameShaped 1 b True s1 = ((n, None), s')"
    using assms(4) unfolding client_opened [OF assms(1)]
    by (simp add: streamWrite_def s1_def client_opened [OF assms(1)] updStream_def Let_def)
  have wire: "wire (ss_conn s1) = []" "ss_buffer s1 = encodeFrames [settingsFrame pf, newFrame cmdSYN 1]" "unbuffered s1"
    using assms(2) unfolding s1_def client_opened [OF assms(1)]
    by (simp_all add: updStream_def maybeStartIdleLoop_def emit_def NewClientSession_def newSession_def newRecordShaper_def
        wire_def unbuffered_def Let_def split_beta)
  have ok: "\<forall>f \<in> set ([] @ [settingsFrame pf, newFrame cmdSYN 1]). wire_ok f"
    using assms(1) by (simp add: wire_ok_def newFrame_def)
  have framed: "framed s1" unfolding framed_def
    using wire ok by (intro exI [of _ "[]"] exI [of _ "[settingsFrame pf, newFrame cmdSYN 1]"]) simp
  have out: "outgoing s1 = [settingsFrame pf, newFrame cmdSYN 1]"
    using outgoing_encoded [of "[settingsFrame pf, newFrame cmdSYN 1]" s1] wire ok
    by (simp add: settingsFrame_def newFrame_def)
  from data_write_chunks [OF framed w] obtain chunks where
    c: "transmitted 1 b chunks s1 (n, None) s'" "\<forall>c \<in> set chunks. c \<noteq> []" by auto
  have "flushed s'" using data_write_flushed [OF wire(3) assms(3), of 1 True] w by simp
  moreover from c(1) have "framed s'" "outgoing s' = outgoing s1 @ map (pshFrame 1) chunks" "concat chunks = b" "n = length b"
    by (auto simp: transmitted_def)
  ultimately show ?thesis using flushed_wire [of s'] c(2) out by fastforce
qed

section \<open>The server's side\<close>

lemma recvLoop_step: "recvStep md5 s = Continue s' \<Longrightarrow> recvLoop md5 s = recvLoop md5 s'"
  by (subst recvLoop.simps) simp

text \<open>The first frame that is not waste.\<close>

lemma payload_first:
  assumes "payload_frames ws = f # fs" "\<forall>f \<in> set ws. wire_ok f"
  shows "\<exists>us vs. ws = us @ f # vs \<and> (\<forall>u \<in> set us. wire_ok u \<and> f_cmd u = cmdWaste) \<and> payload_frames vs = fs
    \<and> (\<forall>v \<in> set vs. wire_ok v) \<and> wire_ok f"
proof -
  from assms(1) obtain us vs where "ws = us @ f # vs" "\<forall>u \<in> set us. \<not> f_cmd u \<noteq> cmdWaste" "fs = payload_frames vs"
    unfolding payload_frames_def filter_eq_Cons_iff by blast
  with assms(2) show ?thesis by (intro exI [of _ us] exI [of _ vs]) auto
qed

lemma server_reads_settings:
  assumes "healthy s" "\<not> ss_isClient s" "inp s = encodeFrames ws @ rest" "\<forall>f \<in> set ws. wire_ok f"
    and "payload_frames ws = settingsFrame pf # fs" "CHR 0x0A \<notin> set (Md5 pf)"
    and "length (RawScheme (ss_padding s)) \<le> maxFrameDataLen"
  shows "\<exists>s' vs. recvLoop md5 s = recvLoop md5 s' \<and> inp s' = encodeFrames vs @ rest \<and> payload_frames vs = fs
    \<and> (\<forall>f \<in> set vs. wire_ok f) \<and> listening s' \<and> ss_receivedSettings s' \<and> \<not> ss_isClient s' \<and> ss_peerVersion s' = 2
    \<and> ss_streams s' = ss_streams s \<and> ss_objs s' = ss_objs s \<and> ss_trace s' = ss_trace s"
proof -
  let ?m = "[(''v'', ''2''), (''client'', clientVersion), (''padding-md5'', Md5 pf), (''rs'', ''1'')]"
  from payload_first [OF assms(5,4)] obtain us vs where
    ws: "ws = us @ settingsFrame pf # vs" "\<forall>u \<in> set us. wire_ok u \<and> f_cmd u = cmdWaste" "payload_frames vs = fs"
      "\<forall>v \<in> set vs. wire_ok v" "wire_ok (settingsFrame pf)" by blast
  define tl where "tl = encodeFrames vs @ rest"
  define s1 where "s1 = setIn (encodeFrame (settingsFrame pf) @ tl) s"
  have lis: "listening s" "listening s1" using assms(1) by (simp_all add: healthy_def s1_def)
  have run: "recvLoop md5 s = recvLoop md5 s1"
    using waste_run [OF lis(1) _ ws(2), of "encodeFrame (settingsFrame pf) @ tl" md5] assms(3) ws(1)
    by (simp add: s1_def tl_def)
  define s2 where "s2 = setIn (ToBytes ?m @ tl) s1"
  have step: "recvStep md5 s1 = recvSettings (length (ToBytes ?m)) s2"
    using recvStep_frame [OF lis(2) _ ws(5), of tl md5] by (simp add: s1_def s2_def settingsFrame_def Let_def)
  have clean: "clean_map ?m" using assms(6) by (auto simp: clean_map_def clientVersion_def)
  have "sm_get ?m ''rs'' = ''1''" "sm_get ?m ''v'' = ''2''" "ToBytes ?m \<noteq> []"
    by (simp_all add: sm_get_def ToBytes_def)
  with recvSettings_accepts [of s2 ?m tl] assms(1,2,7) clean obtain s' where
    "recvSettings (length (ToBytes ?m)) s2 = Continue s'" "healthy s'" "inp s' = tl" "ss_receivedSettings s'"
    "\<not> ss_isClient s'" "ss_peerVersion s' = 2" "ss_streams s' = ss_streams s" "ss_objs s' = ss_objs s" "ss_trace s' = ss_trace s"
    by (auto simp: s2_def s1_def)
  with recvLoop_step [of md5 s1 s'] step run ws(3,4) show ?thesis
    by (intro exI [of _ s'] exI [of _ vs]) (simp add: tl_def healthy_def)
qed

lemma server_accepts_stream:
  assumes "listening s" "ss_receivedSettings s" "inp s = encodeFrames ws @ rest" "\<forall>f \<in> set ws. wire_ok f"
    and "payload_frames ws = newFrame cmdSYN sid # fs" "lookupStream sid s = None"
  shows "\<exists>s' vs. recvLoop md5 s = recvLoop md5 s' \<and> inp s' = encodeFrames vs @ rest \<and> payload_frames vs = fs
    \<and> (\<forall>f \<in> set vs. wire_ok f) \<and> listening s' \<and> lookupStream sid s' = Some (length (ss_objs s))
    \<and> ss_peerVersion s' = ss_peerVersion s
    \<and> ss_streams s' = AList.update sid (length (ss_objs s)) (ss_streams s)
    \<and> ss_trace s' = ss_trace s @ [EvAccept (length (ss_objs s))]"
proof -
  let ?f = "newFrame cmdSYN sid"
  from payload_first [OF assms(5,4)] obtain us vs where
    ws: "ws = us @ ?f # vs" "\<forall>u \<in> set us. wire_ok u \<and> f_cmd u = cmdWaste" "payload_frames vs = fs"
      "\<forall>v \<in> set vs. wire_ok v" "wire_ok ?f" by blast
  define tl where "tl = encodeFrames vs @ rest"
  define s1 where "s1 = setIn (encodeFrame ?f @ tl) s"
  have run: "recvLoop md5 s = recvLoop md5 s1"
    using waste_run [OF assms(1) _ ws(2), of "encodeFrame ?f @ tl" md5] assms(3) ws(1) by (simp add: s1_def tl_def)
  define s' where "s' = emit (EvAccept (length (ss_objs s))) (let s2 = snd (newStream sid (setIn tl s))
      in s2\<lparr>ss_streams := AList.update sid (length (ss_objs s)) (ss_streams s2)\<rparr>)"
  have "recvStep md5 s1 = recvSYN sid (setIn tl s)"
    using recvStep_frame [of s1 ?f tl md5] assms(1) ws(5) by (simp add: s1_def newFrame_def Let_def)
  also have "\<dots> = Continue s'"
    using assms(2,6) by (simp add: recvSYN_def s'_def newStream_def Let_def)
  finally have "recvLoop md5 s1 = recvLoop md5 s'" by (rule recvLoop_step)
  with run ws(3,4) assms(1) show ?thesis
    by (intro exI [of _ s'] exI [of _ vs])
      (simp add: s'_def tl_def newStream_def emit_def Let_def lookupStream_def listening_def setIn_def setConn_def update_conv)
qed

section \<open>The flight\<close>

lemma server_ready:
  fixes d :: conn and spf :: PaddingFactory and t :: int and q :: rand
  assumes "\<not> c_closed d" "c_sched d = []"
  defines "sv \<equiv> Run (NewServerSession d spf t q)"
  shows "healthy sv" "\<not> ss_isClient sv" "inp sv = c_in d" "ss_padding sv = spf" "ss_streams sv = []" "ss_objs sv = []"
  using assms
  by (simp_all add: Run_def maybeStartIdleLoop_def NewServerSession_def newSession_def newRecordShaper_def emit_def
      healthy_def listening_def flushed_def unbuffered_def Let_def split_beta)

text \<open>
  Property C8.  The first flight, end to end: when a fresh client session is run, opens its first stream
  and writes data to it, then a fresh server session that receives the client's bytes accepts the
  settings, registers peer version 2, accepts one stream with id 1 and hands it exactly the data, for
  every padding scheme, every random draw and every sequence of shaped records; whatever follows is left
  unread.
\<close>

theorem first_flight_delivered:
  assumes "c_out c = []" "length (Md5 pf) = 32" "CHR 0x0A \<notin> set (Md5 pf)" "b \<noteq> []"
    and "streamWrite 0 False b (snd (OpenStream (Run (NewClientSession c pf now r)))) = ((n, None), cl)"
    and "\<not> c_closed d" "c_sched d = []" "c_in d = wire (ss_conn cl) @ rest"
    and "length (RawScheme spf) \<le> maxFrameDataLen"
  shows "\<exists>sv chunks. recvLoop md5 (Run (NewServerSession d spf t q)) = recvLoop md5 sv
    \<and> inp sv = rest \<and> ss_peerVersion sv = 2 \<and> ss_streams sv = [(1, 0)]
    \<and> ss_trace sv = ss_trace (Run (NewServerSession d spf t q)) @ EvAccept 0 # map (EvDeliver 0) chunks
    \<and> concat chunks = b \<and> n = length b"
proof -
  let ?sv = "Run (NewServerSession d spf t q)"
  note sv = server_ready [OF assms(6,7), of spf t q]
  have "wire_ok (settingsFrame pf)"
    using assms(2) by (simp add: settingsFrame_def wire_ok_def ToBytes_def clientVersion_def)
  from client_first_write [OF this assms(1,4,5)] obtain ws chunks where
    ws: "wire (ss_conn cl) = encodeFrames ws" "\<forall>f \<in> set ws. wire_ok f"
      "payload_frames ws = settingsFrame pf # newFrame cmdSYN 1 # map (pshFrame 1) chunks"
    and ch: "concat chunks = b" "\<forall>c \<in> set chunks. c \<noteq> []" "n = length b" by blast
  have "inp ?sv = encodeFrames ws @ rest" using sv(3) assms(8) ws(1) by simp
  from server_reads_settings [OF sv(1,2) this ws(2,3) assms(3), of md5] assms(9) sv(4) obtain s1 ws1 where
    s1: "recvLoop md5 ?sv = recvLoop md5 s1" "inp s1 = encodeFrames ws1 @ rest"
      "payload_frames ws1 = newFrame cmdSYN 1 # map (pshFrame 1) chunks" "\<forall>f \<in> set ws1. wire_ok f" "listening s1"
      "ss_receivedSettings s1" "ss_peerVersion s1 = 2" "ss_streams s1 = []" "ss_objs s1 = []" "ss_trace s1 = ss_trace ?sv"
    using sv(5,6) by auto
  from server_accepts_stream [OF s1(5,6,2,4,3), of md5] s1(8,9) obtain s2 ws2 where
    s2: "recvLoop md5 s1 = recvLoop md5 s2" "inp s2 = encodeFrames ws2 @ rest"
      "payload_frames ws2 = map (pshFrame 1) chunks" "\<forall>f \<in> set ws2. wire_ok f" "listening s2" "lookupStream 1 s2 = Some 0"
      "ss_peerVersion s2 = 2" "ss_streams s2 = [(1, 0)]" "ss_trace s2 = ss_trace ?sv @ [EvAccept 0]"
    using s1(7,10) by (auto simp: lookupStream_def)
  from data_run_delivers [OF s2(5,2,4,3) ch(2) s2(6), of md5] obtain s3 where
    "recvLoop md5 s2 = recvLoop md5 s3" "inp s3 = rest" "ss_streams s3 = [(1, 0)]" "ss_peerVersion s3 = 2"
    "ss_trace s3 = (ss_trace ?sv @ [EvAccept 0]) @ map (EvDeliver 0) chunks"
    using s2(7-9) by auto
  with s1(1) s2(1) ch show ?thesis by (intro exI [of _ s3] exI [of _ chunks]) simp
qed

definition sample_pf :: PaddingFactory where
  "sample_pf = sample_factory\<lparr>RawScheme := [], Md5 := replicate 32 (CHR ''a'')\<rparr>"

lemma sample_pf_facts: "length (Md5 sample_pf) = 32" "CHR 0x0A \<notin> set (Md5 sample_pf)"
  "length (RawScheme sample_pf) \<le> maxFrameDataLen" "wire_ok (settingsFrame sample_pf)"
  by (simp_all add: sample_pf_def sample_factory_def settingsFrame_def wire_ok_def ToBytes_def clientVersion_def)

lemma sample_first_write:
  "\<exists>cl. streamWrite 0 False [1, 2, 3] (snd (OpenStream (Run (NewClientSession (quietConn []) sample_pf 0 [])))) = ((3, None), cl)"
proof -
  define s1 where "s1 = updStream 0 (\<lambda>st. st\<lparr>st_frameSeq := 1\<rparr>)
      (snd (OpenStream (Run (NewClientSession (quietConn []) sample_pf 0 []))))"
  have s1: "\<not> ss_closed s1" "\<not> ss_buffering s1" "ss_buffer s1 \<noteq> []" "\<not> c_closed (ss_conn s1)" "c_sched (ss_conn s1) = []"
    unfolding s1_def client_opened [OF sample_pf_facts(4)]
    by (simp_all add: updStream_def maybeStartIdleLoop_def emit_def NewClientSession_def newSession_def newRecordShaper_def
        quietConn_def encodeFrame_def frameHeader_def Let_def split_beta)
  from WriteInitialFlush_succeeds [OF s1(4,5)] obtain n rs' r' where
    w: "WriteInitialFlush (ss_padding s1) (ss_now s1) (ss_buffer s1 @ encodeFrame (pshFrame 1 [1, 2, 3])) (ss_shaper s1)
      (ss_rand s1) = ((n, None), rs', r')" by blast
  have send: "sendPSH 1 [1, 2, 3] s1 = (None, s1\<lparr>ss_buffer := [], ss_shaper := rs', ss_rand := r'\<rparr>)"
    using s1(1-3) w by (simp add: sendPSH_def writeConn_def flushShaped_def IsClosed_def)
  have "writeDataFrameShaped 1 [1, 2, 3] True s1 = ((3, None), s1\<lparr>ss_buffer := [], ss_shaper := rs', ss_rand := r'\<rparr>)"
    by (simp add: writeDataFrameShaped_def writeDataFrame_def writeDataLoop.simps send Let_def)
  then show ?thesis unfolding s1_def client_opened [OF sample_pf_facts(4)] by (simp add: streamWrite_def updStream_def Let_def)
qed

theorem first_flight_delivered_witness:
  "\<exists>cl sv chunks. streamWrite 0 False [1, 2, 3] (snd (OpenStream (Run (NewClientSession (quietConn []) sample_pf 0 []))))
       = ((3, None), cl)
     \<and> recvLoop (\<lambda>_. []) (Run (NewServerSession (quietConn (wire (ss_conn cl))) sample_pf 0 [])) = recvLoop (\<lambda>_. []) sv
     \<and> ss_streams sv = [(1, 0)] \<and> (\<exists>pre. ss_trace sv = pre @ EvAccept 0 # map (EvDeliver 0) chunks)
     \<and> concat chunks = [1, 2, 3]"
proof -
  obtain cl where w: "streamWrite 0 False [1, 2, 3] (snd (OpenStream (Run (NewClientSession (quietConn []) sample_pf 0 []))))
      = ((3, None), cl)" using sample_first_write by blast
  have q: "c_out (quietConn []) = []" "\<not> c_closed (quietConn (wire (ss_conn cl)))" "c_sched (quietConn (wire (ss_conn cl))) = []"
    "c_in (quietConn (wire (ss_conn cl))) = wire (ss_conn cl) @ []" by (simp_all add: quietConn_def)
  have ne: "[1, 2, 3 :: byte] \<noteq> []" by simp
  show ?thesis
    using first_flight_delivered [OF q(1) sample_pf_facts(1,2) ne w q(2-4) sample_pf_facts(3), of "\<lambda>_. []" 0 "[]"] w by blast
qed

end
