(* ===== verification/Session_Guard.thy ===== *)
theory Session_Guard
  imports Session_Flight
begin

text \<open>
  What a session refuses and what it spares: a closed session writes nothing more, a server turns away
  a peer that does not announce itself, one slow stream does not take its siblings down.
\<close>

section \<open>After the end\<close>

lemma writeConn_closed: "ss_closed s \<Longrightarrow> writeConn b ctrl s = ((0, Some ErrClosedPipe), s)"
  by (simp add: writeConn_def IsClosed_def)

lemma sendPSH_closed: "ss_closed s \<Longrightarrow> sendPSH sid c s = (Some ErrClosedPipe, s\<lparr>ss_connBroken := True\<rparr>)"
  by (simp add: sendPSH_def writeConn_closed)

lemma writeControlFrame_closed: "ss_closed s \<Longrightarrow> snd (writeControlFrame f s) = s"
  by (simp add: writeControlFrame_def writeConn_closed Close_again Let_def)

lemma data_write_closed:
  assumes "ss_closed s"
  shows "ss_shaper (snd (writeDataFrameShaped sid data early s)) = ss_shaper s"
    and "data \<noteq> [] \<Longrightarrow> fst (writeDataFrameShaped sid data early s) = (0, Some ErrClosedPipe)"
proof -
  have loop: "writeDataLoop sid data 0 s
      = (if data = [] then ((0, None), s) else ((0, Some ErrClosedPipe), s\<lparr>ss_connBroken := True\<rparr>))"
    using assms by (subst writeDataLoop.simps) (simp add: sendPSH_closed Let_def)
  have split: "ss_shaper (snd (splitLoop (Suc k) sid data 0 0 s)) = ss_shaper s
      \<and> fst (splitLoop (Suc k) sid data 0 0 s) = (0, Some ErrClosedPipe)" for k
    using assms sendPSH_closed [of "s\<lparr>ss_rand := r\<rparr>" sid for r]
    by (auto simp: sendPSH_closed Let_def split: prod.splits)
  have "ss_shaper (snd (writeDataFrameSplit sid data s)) = ss_shaper s
      \<and> fst (writeDataFrameSplit sid data s) = (0, Some ErrClosedPipe)"
    using split [of 1] split [of 2]
    by (auto simp: writeDataFrameSplit_def numeral_3_eq_3 numeral_2_eq_2 split: if_splits simp del: splitLoop.simps)
  with loop show "ss_shaper (snd (writeDataFrameShaped sid data early s)) = ss_shaper s"
    and "data \<noteq> [] \<Longrightarrow> fst (writeDataFrameShaped sid data early s) = (0, Some ErrClosedPipe)"
    by (simp_all add: writeDataFrameShaped_def writeDataFrame_def)
qed

lemma dieStream_frame: "ss_shaper (snd (dieStream i e s)) = ss_shaper s" "ss_closed (snd (dieStream i e s)) = ss_closed s"
  by (simp_all add: dieStream_def updStream_def emit_def Let_def)

lemma closeWithError_closed:
  assumes "ss_closed s"
  shows "ss_shaper (snd (closeWithError i e s)) = ss_shaper s" "ss_closed (snd (closeWithError i e s))"
  using assms dieStream_frame [of i e s]
  by (auto simp: closeWithError_def streamClosed_def IsClosed_def split: prod.splits)

lemma closed_step:
  assumes "sess_step md5 s s'" "ss_closed s"
  shows "ss_closed s' \<and> wire (ss_conn s') = wire (ss_conn s)"
  using assms
proof cases
  case (step_write i expired b)
  have "ss_closed (snd (writeDataFrameShaped sid b early t)) = ss_closed t" for sid early t
    using writeDataFrameShaped_core [of sid b early t] by (simp add: core_def)
  with step_write assms(2) show ?thesis
    by (simp add: streamWrite_def updStream_def data_write_closed Let_def split: option.split)
next
  case (step_timeout i)
  have "ss_closed (s\<lparr>ss_consecutiveSynAckTimeouts := n\<rparr>)" "ss_closed (s\<lparr>ss_consecutiveSynAckTimeouts := n, ss_connBroken := True\<rparr>)" for n
    using assms(2) by simp_all
  note c = closeWithError_closed [OF this(1)] closeWithError_closed [OF this(2)]
  from step_timeout show ?thesis
    by (auto simp: synAckTimeout_def Let_def split_beta c Close_again)
qed (auto simp: envMove_def setConn_def wire_def OpenStream_def IsClosed_def streamClose_def closeWithError_closed
    HandshakeSuccess_def HandshakeFailure_def updStream_def writeControlFrame_closed Close_again recvStep_def
    idleLoopStart_def idleTick_def heartbeatSend_def heartbeatVerdict_def Let_def split_beta split: option.split)



section \<open>Peers that do not announce themselves\<close>

lemma frame_views [simp]:
  "framed (setIn b s) = framed s" "outgoing (setIn b s) = outgoing s"
  "framed (s\<lparr>ss_receivedSettings := x\<rparr>) = framed s" "outgoing (s\<lparr>ss_receivedSettings := x\<rparr>) = outgoing s"
  "healthy (s\<lparr>ss_receivedSettings := x\<rparr>) = healthy s"
  "framed (s\<lparr>ss_streams := m\<rparr>) = framed s" "outgoing (s\<lparr>ss_streams := m\<rparr>) = outgoing s"
  by (simp_all add: framed_def outgoing_def setIn_def setConn_def wire_def healthy_def listening_def flushed_def unbuffered_def)

lemma control_outgoing:
  assumes "healthy s" "framed s" "wire_ok f"
  shows "\<exists>s'. writeControlFrame f s = ((length (f_data f), None), s') \<and> answered s s' \<and> framed s'
    \<and> outgoing s' = outgoing s @ payload_frames [f]"
proof -
  from control_answered [OF assms(1,3)] obtain s' where
    w: "writeControlFrame f s = ((length (f_data f), None), s')" "answered s s'" by blast
  from writeControlFrame_cases [OF w(1) assms(3)] obtain m where "writeConn (encodeFrame f) True s = ((m, None), s')" by auto
  with writeConn_appends [OF assms(2,3)] w show ?thesis by blast
qed

definition alertFrame :: "bytes \<Rightarrow> frame" where
  "alertFrame msg = \<lparr>f_cmd = cmdAlert, f_sid = 0, f_data = msg\<rparr>"

definition unannounced :: "frame \<Rightarrow> Session \<Rightarrow> bool" where
  "unannounced f s \<longleftrightarrow> f_cmd f = cmdSYN \<and> \<not> ss_receivedSettings s
     \<or> f_cmd f = cmdSettings \<and> f_data f \<noteq> [] \<and> sm_get (StringMapFromBytes (f_data f)) ''rs'' \<noteq> ''1''"

lemma unannounced_refused:
  assumes "healthy s" "framed s" "\<not> ss_isClient s" "wire_ok f" "inp s = encodeFrame f @ rest" "unannounced f s"
  shows "\<exists>s1 msg. recvLoop md5 s = (None, snd (Close s1)) \<and> outgoing s1 = outgoing s @ [alertFrame msg]
    \<and> ss_streams s1 = ss_streams s \<and> ss_objs s1 = ss_objs s \<and> ss_trace s1 = ss_trace s"
proof -
  let ?m1 = "bytes_of ''client did not send its settings''"
  let ?m2 = "bytes_of ''client does not support record shaper, please upgrade''"
  have lis: "listening s" using assms(1) by (simp add: healthy_def)
  have alert: "(newFrame cmdAlert 0)\<lparr>f_data := msg\<rparr> = alertFrame msg" for msg
    by (simp add: newFrame_def alertFrame_def)
  have ok: "wire_ok (alertFrame ?m1)" "wire_ok (alertFrame ?m2)" by (simp_all add: alertFrame_def wire_ok_def)
  have pl: "payload_frames [alertFrame msg] = [alertFrame msg]" for msg by (simp add: alertFrame_def)
  let ?s1 = "setIn (f_data f @ rest) s" and ?s2 = "(setIn rest s)\<lparr>ss_receivedSettings := True\<rparr>"
  have h: "healthy ?s1" "framed ?s1" "healthy ?s2" "framed ?s2" using assms(1,2) by simp_all
  from control_outgoing [OF h(1,2) ok(1)] control_outgoing [OF h(3,4) ok(2)] obtain a b where
    a: "writeControlFrame (alertFrame ?m1) ?s1 = ((length ?m1, None), a)" "answered ?s1 a" "outgoing a = outgoing s @ [alertFrame ?m1]"
    and b: "writeControlFrame (alertFrame ?m2) ?s2 = ((length ?m2, None), b)" "answered ?s2 b" "outgoing b = outgoing s @ [alertFrame ?m2]"
    by (auto simp: pl alertFrame_def)
  have wp: "withPayload (length (f_data f)) k ?s1 = (if f_data f = [] then Continue ?s1 else k (f_data f) (setIn rest s))" for k
    using withPayload_append [of ?s1 "f_data f" rest k] lis by (simp add: listening_def)
  have "recvSYN sid ?s1 = Return None a" if "\<not> ss_receivedSettings s" for sid
    using assms(3) that unfolding recvSYN_def alert a(1) by simp
  moreover have "recvSettings (length (f_data f)) ?s1 = Return None b"
    if "f_data f \<noteq> []" "sm_get (StringMapFromBytes (f_data f)) ''rs'' \<noteq> ''1''"
    using assms(3) that unfolding recvSettings_def wp Let_def alert b(1) by simp
  ultimately have "recvStep md5 s = (if f_cmd f = cmdSYN then Return None a else Return None b)"
    using assms(6) recvStep_frame [OF lis assms(5,4), of md5] unfolding unannounced_def Let_def by fastforce
  then have "recvLoop md5 s = (None, snd (Close (if f_cmd f = cmdSYN then a else b)))"
    by (subst recvLoop.simps) simp
  with a(3) b(3) answered_fields(6-8) [OF a(2)] answered_fields(6-8) [OF b(2)] show ?thesis
    by (cases "f_cmd f = cmdSYN") auto
qed

text \<open>
  Property C23.  A server serves nobody who has not announced the record shaper: a stream request before
  the settings, or settings without \<open>rs=1\<close>, make the receive loop send an alert and end, with no stream
  registered or accepted; the session is then closed.
\<close>

theorem server_refuses_unannounced:
  assumes "healthy s" "framed s" "\<not> ss_isClient s" "wire_ok f" "inp s = encodeFrame f @ rest" "unannounced f s"
  shows "\<exists>s1 msg. recvLoop md5 s = (None, snd (Close s1)) \<and> outgoing s1 = outgoing s @ [alertFrame msg]
    \<and> ss_streams s1 = ss_streams s \<and> ss_objs s1 = ss_objs s \<and> ss_trace s1 = ss_trace s"
  by (rule unannounced_refused[OF assms])

theorem server_refuses_unannounced_witness:
  "\<exists>s1. recvLoop (\<lambda>_. []) (NewServerSession (quietConn (encodeFrame (newFrame cmdSYN 1))) sample_factory 0 [])
     = (None, snd (Close s1)) \<and> ss_streams s1 = []"
proof -
  let ?s = "NewServerSession (quietConn (encodeFrame (newFrame cmdSYN 1))) sample_factory 0 []"
  have fr: "framed ?s" unfolding NewServerSession_def by (rule framed_new) (simp add: quietConn_def)
  have s: "healthy ?s" "\<not> ss_isClient ?s" "inp ?s = encodeFrame (newFrame cmdSYN 1) @ []" "ss_streams ?s = []"
    "unannounced (newFrame cmdSYN 1) ?s"
    by (simp_all add: NewServerSession_def newSession_def newRecordShaper_def quietConn_def healthy_def listening_def
        flushed_def unbuffered_def unannounced_def newFrame_def Let_def split_beta)
  have "wire_ok (newFrame cmdSYN 1)" by (simp add: wire_ok_def newFrame_def)
  from server_refuses_unannounced [OF s(1) fr s(2) this s(3,5), of "\<lambda>_. []"] s(4) show ?thesis by auto
qed

section \<open>A stream that is not acknowledged\<close>

lemma dieStream_live:
  assumes "st_dieErr (ss_objs s ! i) = None" "i < length (ss_objs s)" "dieStream i e s = (once, s')"
  shows "once" "ss_objs s' = (ss_objs s)[i := (ss_objs s ! i)\<lparr>st_synTimer := False, st_dieErr := Some e\<rparr>]"
    "ss_shaper s' = ss_shaper s" "ss_closed s' = ss_closed s" "ss_streams s' = ss_streams s" "ss_buffer s' = ss_buffer s"
    "ss_buffering s' = ss_buffering s" "ss_connBroken s' = ss_connBroken s"
  using assms by (auto simp: dieStream_def updStream_def emit_def Let_def split: if_splits)

lemma closeWithError_live:
  assumes "healthy s" "framed s" "st_dieErr (ss_objs s ! i) = None" "i < length (ss_objs s)"
  defines "sid \<equiv> st_id (ss_objs s ! i)"
  shows "\<exists>s'. closeWithError i e s = (None, s') \<and> healthy s' \<and> framed s'
    \<and> outgoing s' = outgoing s @ [newFrame cmdFIN sid] \<and> ss_streams s' = AList.delete sid (ss_streams s)
    \<and> ss_objs s' = (ss_objs s)[i := (ss_objs s ! i)\<lparr>st_synTimer := False, st_dieErr := Some e\<rparr>]
    \<and> ss_connBroken s' = ss_connBroken s"
proof -
  obtain once s1 where d: "dieStream i e s = (once, s1)" by fastforce
  note l = dieStream_live [OF assms(3,4) d]
  have "healthy s1" "framed s1" "outgoing s1 = outgoing s"
    using assms(1,2) l(3-7) by (auto simp: healthy_def listening_def flushed_def unbuffered_def framed_def outgoing_def)
  moreover have "wire_ok (newFrame cmdFIN sid)" by (simp add: wire_ok_def newFrame_def)
  moreover have pl: "payload_frames [newFrame cmdFIN sid] = [newFrame cmdFIN sid]" by (simp add: newFrame_def)
  ultimately obtain s2 where
    w: "writeControlFrame (newFrame cmdFIN sid) s1 = ((0, None), s2)" "answered s1 s2" "framed s2"
      "outgoing s2 = outgoing s @ [newFrame cmdFIN sid]"
    using control_outgoing [of s1 "newFrame cmdFIN sid"] by (auto simp: newFrame_def)
  have open1: "\<not> ss_closed s1" using l(4) assms(1) by (simp add: healthy_def listening_def)
  have sid1: "st_id (ss_objs s1 ! i) = sid" using l(2) assms(4) by (simp add: sid_def)
  let ?s' = "s2\<lparr>ss_streams := AList.delete sid (ss_streams s2)\<rparr>"
  have "closeWithError i e s = (None, ?s')"
    using d l(1) open1 sid1 w(1) by (simp add: closeWithError_def streamClosed_def IsClosed_def)
  moreover have "healthy ?s'" using w(2) by (auto simp: answered_def healthy_def listening_def flushed_def unbuffered_def)
  moreover have "ss_connBroken s2 = ss_connBroken s1" "ss_streams s2 = ss_streams s1" "ss_objs s2 = ss_objs s1"
    using w(2) by (auto simp: answered_def)
  ultimately show ?thesis using w(3,4) l by (intro exI [of _ ?s']) simp
qed

text \<open>
  Property C24.  A SYNACK timeout closes the stream that waited and, when the session carries other streams
  and fewer than five timeouts came in a row, nothing else: the session stays open and reusable, every
  other stream object and map entry is untouched, and the peer is told by one FIN.  When it is the
  session's only stream, or the fifth timeout in a row, the session is marked broken and closed.
\<close>

theorem synAckTimeout_spares_siblings:
  assumes "healthy s" "framed s" "i < length (ss_objs s)" "st_dieErr (ss_objs s ! i) = None"
  defines "n \<equiv> ss_consecutiveSynAckTimeouts s + 1" and "sid \<equiv> st_id (ss_objs s ! i)" and "s' \<equiv> synAckTimeout i s"
  shows "if ss_activeStreams s \<le> 1 \<or> 5 \<le> unat n then ss_closed s' \<and> ss_connBroken s'
    else \<not> ss_closed s' \<and> ss_connBroken s' = ss_connBroken s \<and> framed s'
      \<and> outgoing s' = outgoing s @ [newFrame cmdFIN sid]
      \<and> ss_streams s' = AList.delete sid (ss_streams s)
      \<and> st_dieErr (ss_objs s' ! i) = Some SynAckTimeoutError \<and> (\<forall>j. j \<noteq> i \<longrightarrow> ss_objs s' ! j = ss_objs s ! j)"
proof (cases "ss_activeStreams s \<le> 1 \<or> 5 \<le> unat n")
  case True
  let ?s1 = "s\<lparr>ss_consecutiveSynAckTimeouts := n, ss_connBroken := True\<rparr>"
  have h: "healthy ?s1" "framed ?s1" using assms(1,2)
    by (simp_all add: healthy_def listening_def flushed_def unbuffered_def framed_def)
  from closeWithError_live [OF h, of i SynAckTimeoutError] assms(3,4) obtain s2 where
    c: "closeWithError i SynAckTimeoutError ?s1 = (None, s2)" "ss_connBroken s2" by auto
  have "s' = snd (Close s2)"
    using True c(1) by (simp add: s'_def n_def synAckTimeout_def shouldReapOnSynAckTimeout_def Let_def)
  moreover have "ss_connBroken (snd (Close s2)) = ss_connBroken s2"
    by (rule Close_connBroken)
  ultimately show ?thesis using True c(2) by simp
next
  case False
  let ?s1 = "s\<lparr>ss_consecutiveSynAckTimeouts := n\<rparr>"
  have h: "healthy ?s1" "framed ?s1" "outgoing ?s1 = outgoing s" using assms(1,2)
    by (simp_all add: healthy_def listening_def flushed_def unbuffered_def framed_def outgoing_def)
  from closeWithError_live [OF h(1,2), of i SynAckTimeoutError] assms(3,4) obtain s2 where
    c: "closeWithError i SynAckTimeoutError ?s1 = (None, s2)" "healthy s2" "framed s2"
      "outgoing s2 = outgoing s @ [newFrame cmdFIN sid]" "ss_streams s2 = AList.delete sid (ss_streams s)"
      "ss_objs s2 = (ss_objs s)[i := (ss_objs s ! i)\<lparr>st_synTimer := False, st_dieErr := Some SynAckTimeoutError\<rparr>]"
      "ss_connBroken s2 = ss_connBroken s"
    by (auto simp: sid_def h(3))
  have "s' = s2"
    using False c(1) by (simp add: s'_def n_def synAckTimeout_def shouldReapOnSynAckTimeout_def Let_def)
  with False c assms(3) show ?thesis by (simp add: healthy_def listening_def)
qed

definition sample_stream :: Stream where
  "sample_stream = \<lparr>st_id = 2, st_dieErr = None, st_synTimer = True, st_frameSeq = 0, st_reported = False, st_mig = False\<rparr>"

definition sample_shared :: Session where
  "sample_shared = (NewClientSession (quietConn []) sample_factory 0 [])
     \<lparr>ss_objs := [sample_stream], ss_streams := [(2, 0)], ss_activeStreams := 3\<rparr>"

theorem synAckTimeout_spares_siblings_witness:
  "\<not> ss_closed (synAckTimeout 0 sample_shared) \<and> ss_streams (synAckTimeout 0 sample_shared) = []"
proof -
  have "framed (NewClientSession (quietConn []) sample_factory 0 [])"
    unfolding NewClientSession_def by (rule framed_new) (simp add: quietConn_def)
  then have f: "framed sample_shared" by (simp add: sample_shared_def framed_def)
  have h: "healthy sample_shared" "0 < length (ss_objs sample_shared)" "st_dieErr (ss_objs sample_shared ! 0) = None"
    "ss_activeStreams sample_shared = 3" "ss_consecutiveSynAckTimeouts sample_shared = 0" "ss_streams sample_shared = [(2, 0)]"
    "st_id (ss_objs sample_shared ! 0) = 2"
    by (simp_all add: sample_shared_def sample_stream_def NewClientSession_def newSession_def newRecordShaper_def quietConn_def
        healthy_def listening_def flushed_def unbuffered_def Let_def split_beta)
  from synAckTimeout_spares_siblings [OF h(1) f h(2,3)] h(4-7) show ?thesis by simp
qed

section \<open>Stream ids chosen by the peer\<close>

text \<open>\<open>Close\<close> ends the registered streams only.\<close>

lemma closeLocally_other: "j \<noteq> i \<Longrightarrow> ss_objs (closeLocally i s) ! j = ss_objs s ! j"
  by (simp add: closeLocally_def dieStream_def updStream_def emit_def Let_def)

lemma foldl_closeLocally_other:
  "j \<notin> set is \<Longrightarrow> ss_objs (foldl (\<lambda>s i. closeLocally i s) s is) ! j = ss_objs s ! j"
  by (induction "is" arbitrary: s) (simp_all add: closeLocally_other)

lemma Close_unregistered:
  assumes "st_dieErr (ss_objs s ! j) = None" "j \<notin> snd ` set (ss_streams s)"
  shows "st_dieErr (ss_objs (snd (Close s)) ! j) = None"
  using assms foldl_closeLocally_other [of j "map snd (ss_streams s)"]
  by (simp add: Close_def Let_def split_beta signalIdleReady_def emit_def)

text \<open>
  A client accepts stream requests too: it registers a stream under the peer's id and closes it at once
  from another goroutine.  If the client's own next stream takes that id in between, the close removes
  the entry of the new stream, which is then alive but no longer reachable.
\<close>



end
