(* ===== verification/Session_Trace.thy ===== *)
theory Session_Trace
  imports Session_Life "HOL-Library.Sublist"
begin

text \<open>
  Every operation of a session only adds to its trace and to its stream objects, and each death it
  reports is one that happened in it: the die hooks a client of the session sees are exactly the
  streams that died, and the session's own end.
\<close>

section \<open>Growth\<close>

definition grows :: "Session \<Rightarrow> Session \<Rightarrow> bool" where
  "grows s s' \<longleftrightarrow> prefix (ss_trace s) (ss_trace s') \<and> length (ss_objs s) \<le> length (ss_objs s')"

lemma grows_refl [simp, intro]: "grows s s"
  by (simp add: grows_def)

lemma grows_trans [trans]: "grows s t \<Longrightarrow> grows t u \<Longrightarrow> grows s u"
  unfolding grows_def by (auto intro: prefix_order.trans)

lemma grows_core: "core t = core s \<Longrightarrow> grows s t"
  by (simp add: grows_def core_def)

lemma grows_core_right: "grows s t \<Longrightarrow> core u = core t \<Longrightarrow> grows s u"
  by (simp add: grows_def core_def)

text \<open>The facts below are stated from an earlier state, so that they chain.\<close>

lemma grows_emit: "grows s t \<Longrightarrow> grows s (emit e t)"
  by (auto simp: grows_def emit_def)

lemma grows_upd:
  assumes "grows s t"
  shows "grows s (updStream i f t)" "grows s (t\<lparr>ss_streams := m\<rparr>)" "grows s (t\<lparr>ss_closed := b\<rparr>)" "grows s (setConn c t)"
    "grows s (t\<lparr>ss_shaper := rs\<rparr>)" "grows s (t\<lparr>ss_rand := r\<rparr>)" "grows s (t\<lparr>ss_connBroken := b\<rparr>)"
    "grows s (t\<lparr>ss_buffering := b\<rparr>)" "grows s (t\<lparr>ss_consecutiveSynAckTimeouts := n\<rparr>)" "grows s (t\<lparr>ss_streamId := n\<rparr>)"
    "grows s (signalIdleReady t)" "grows s (t\<lparr>ss_receivedSettings := b\<rparr>)" "grows s (t\<lparr>ss_migActive := b\<rparr>)"
    "grows s (t\<lparr>ss_peerVersion := n\<rparr>)" "grows s (t\<lparr>ss_padding := pf\<rparr>)" "grows s (t\<lparr>ss_idleLoop := b\<rparr>)"
    "grows s (t\<lparr>ss_lastHeartRespNano := m'\<rparr>)" "grows s (snd (newStream sid t))"
  using assms by (simp_all add: grows_def updStream_def setConn_def signalIdleReady_def newStream_def)

lemma grows_dieStream: "grows s t \<Longrightarrow> grows s (snd (dieStream i e t))"
  by (simp add: dieStream_def Let_def grows_emit grows_upd)

lemma grows_closeLocally: "grows s t \<Longrightarrow> grows s (closeLocally i t)"
  by (simp add: closeLocally_def grows_dieStream)

lemma grows_closeAll: "grows s t \<Longrightarrow> grows s (foldl (\<lambda>s i. closeLocally i s) t is)"
  by (induction "is" arbitrary: t) (simp_all add: grows_closeLocally)

lemma grows_writeFrameBytes: "grows s t \<Longrightarrow> grows s (writeFrameBytes cmd sid n t)"
  by (simp add: writeFrameBytes_def Let_def split_beta grows_upd)

lemma grows_Close: "grows s t \<Longrightarrow> grows s (snd (Close t))"
  by (simp add: Close_def Let_def split_beta grows_upd grows_emit grows_closeAll grows_writeFrameBytes)

lemma grows_writeControlFrame: "grows s t \<Longrightarrow> grows s (snd (writeControlFrame f t))"
  by (simp add: writeControlFrame_def Let_def split_beta grows_Close grows_core_right split: option.split)

lemma grows_closeWithError: "grows s t \<Longrightarrow> grows s (snd (closeWithError i e t))"
  by (simp add: closeWithError_def streamClosed_def Let_def split_beta grows_upd grows_writeControlFrame grows_dieStream)

lemmas grows_ops = grows_emit grows_upd grows_dieStream grows_closeLocally grows_Close grows_writeControlFrame
  grows_closeWithError

lemma grows_OpenStream: "grows s t \<Longrightarrow> grows s (snd (OpenStream t))"
  by (simp add: OpenStream_def Let_def split_beta grows_ops split: option.split)

lemma grows_streamWrite: "grows s t \<Longrightarrow> grows s (snd (streamWrite i expired b t))"
  by (simp add: streamWrite_def Let_def grows_core_right[OF grows_upd(1)] split: option.split)

lemma grows_Handshake: "grows s t \<Longrightarrow> grows s (snd (HandshakeSuccess i t))" "grows s t \<Longrightarrow> grows s (snd (HandshakeFailure i err t))"
  by (simp_all add: HandshakeSuccess_def HandshakeFailure_def Let_def split_beta grows_ops split: option.split)

lemma grows_synAckTimeout: "grows s t \<Longrightarrow> grows s (synAckTimeout i t)"
  by (simp add: synAckTimeout_def Let_def split_beta grows_ops)

lemma grows_idle:
  "grows s t \<Longrightarrow> grows s (snd (idleLoopStart t))" "grows s t \<Longrightarrow> grows s (snd (idleTick t))"
  "grows s t \<Longrightarrow> grows s (maybeStartIdleLoop t)"
  by (simp_all add: idleLoopStart_def idleTick_def maybeStartIdleLoop_def Let_def split_beta grows_ops split: option.split)

lemma grows_heartbeat:
  "grows s t \<Longrightarrow> grows s (snd (heartbeatSend q stuck t))" "grows s t \<Longrightarrow> grows s (snd (heartbeatVerdict v blocked t))"
  by (simp_all add: heartbeatSend_def heartbeatVerdict_def Let_def split_beta grows_ops)

lemma grows_Run: "grows s t \<Longrightarrow> grows s (Run t)"
  by (simp add: Run_def Let_def grows_ops grows_idle)

section \<open>The receive loop\<close>

lemma grows_withPayload:
  assumes "grows s t" and "\<And>b u. grows s u \<Longrightarrow> grows s (iterState (k b u))"
  shows "grows s (iterState (withPayload n k t))"
proof -
  obtain res u where r: "readConn n t = (res, u)" by fastforce
  have "grows s u" using grows_core_right[OF assms(1)] readConn_core[of n t] r by simp
  with assms r show ?thesis by (simp add: withPayload_def split: sum.split)
qed

lemma grows_sendOrReturn:
  assumes "grows s t" and "\<And>u. grows s u \<Longrightarrow> grows s (iterState (k u))"
  shows "grows s (iterState (sendOrReturn f k t))"
proof -
  obtain n err u where w: "writeControlFrame f t = ((n, err), u)" by (metis prod.collapse)
  have "grows s u" using grows_writeControlFrame[OF assms(1), of f] w by simp
  with assms w show ?thesis by (simp add: sendOrReturn_def split: option.split)
qed

lemma grows_recv:
  assumes "grows s t"
  shows "grows s (iterState (recvPSH sid n t))" "grows s (iterState (recvSYN sid t))"
    "grows s (iterState (recvSYNACK sid n t))" "grows s (iterState (recvFIN sid t))"
    "grows s (iterState (recvMigrateReady sid n t))"
    "grows s (iterState (recvUpdatePaddingScheme md5 n t))"
    "grows s (iterState (recvServerSettings n t))"
  using assms grows_core_right[OF _ trackRecvBytes_core]
  by (auto simp: recvPSH_def recvSYN_def recvSYNACK_def recvFIN_def recvMigrateReady_def recvUpdatePaddingScheme_def
      recvServerSettings_def Let_def split_beta grows_ops grows_idle intro!: grows_withPayload split: option.split)

lemma grows_recvSettings:
  assumes "grows s t"
  shows "grows s (iterState (recvSettings n t))"
  unfolding recvSettings_def
proof (rule grows_withPayload[OF assms], goal_cases)
  case (1 b u)
  then show ?case
    unfolding Let_def split_beta by (auto intro!: grows_sendOrReturn grows_ops)
qed

lemma grows_recvBarrier:
  assumes "grows s t"
  shows "grows s (iterState (recvBarrier fc ev sid n t))"
proof -
  have act: "grows s (iterState (Continue (if ss_isClient u = fc
                 then case lookupStream sid u of
                        Some i \<Rightarrow> if st_mig (ss_objs u ! i) then emit (ev i) u else u
                      | None \<Rightarrow> u
                 else u)))" if "grows s u" for u
    using that by (auto intro: grows_emit split: option.split)
  show ?thesis
    unfolding recvBarrier_def Let_def using grows_withPayload[OF assms act] act[OF assms] by simp
qed

lemma grows_recvStep: "grows s (iterState (recvStep md5 s))"
proof (cases "ss_closed s")
  case False
  obtain res t where r: "readConn headerOverHeadSize s = (res, t)" by fastforce
  then have t: "grows s t"
    using grows_core[of t s] readConn_core[of headerOverHeadSize s] by simp
  have "grows s (iterState (withPayload n (\<lambda>_. Continue) t))" for n
    by (rule grows_withPayload[OF t]) simp
  moreover have "grows s (iterState (withPayload n (\<lambda>b s. Return None (if ss_isClient s then emit (EvAlert b) s else s)) t))" for n
    by (rule grows_withPayload[OF t]) (simp add: grows_emit)
  moreover have "grows s (iterState (sendOrReturn f Continue t))" for f
    by (rule grows_sendOrReturn[OF t]) simp
  moreover note grows_recv[OF t] grows_recvSettings[OF t] grows_recvBarrier[OF t] grows_upd(17)[OF t]
  ultimately show ?thesis
    using r False t unfolding recvStep_def IsClosed_def Let_def
    by (cases res) (simp_all only: split sum.case prod.case if_False iterState.simps simp_thms split: if_split)
qed (simp add: recvStep_def IsClosed_def)

lemma grows_step:
  assumes "sess_step md5 s s'"
  shows "grows s s'"
  using assms
proof cases
  case step_recv
  with grows_recvStep[of s md5] show ?thesis by simp
next
  case (step_recv_end e t)
  with grows_recvStep[of s md5] show ?thesis by (simp add: grows_Close)
next
  case step_env
  with envMove_core show ?thesis using grows_core by blast
qed (auto simp: grows_OpenStream grows_streamWrite grows_Handshake grows_synAckTimeout grows_idle grows_heartbeat
    grows_Close streamClose_def grows_closeWithError)

section \<open>What dies is reported\<close>

definition newEvents :: "Session \<Rightarrow> Session \<Rightarrow> event list" where
  "newEvents s s' = drop (length (ss_trace s)) (ss_trace s')"

lemma newEvents_trace: "grows s s' \<Longrightarrow> ss_trace s' = ss_trace s @ newEvents s s'"
  by (auto simp: grows_def newEvents_def prefix_def)

lemma new_deaths:
  assumes "session_inv s" "session_inv s'" "grows s s'"
  shows "dead (ss_objs s) i \<Longrightarrow> dead (ss_objs s') i"
    and "count_list (newEvents s s') (EvStreamDied i) = (if dead (ss_objs s') i \<and> \<not> dead (ss_objs s) i then 1 else 0)"
    and "ss_closed s \<Longrightarrow> ss_closed s'"
    and "count_list (newEvents s s') EvSessionDied = (if ss_closed s' \<and> \<not> ss_closed s then 1 else 0)"
proof -
  have h: "hooks_once (ss_objs s) (ss_closed s) (ss_trace s)" "hooks_once (ss_objs s') (ss_closed s') (ss_trace s')"
    using assms(1,2) by (simp_all add: session_inv_def inv_except_def)
  have c: "count_list (ss_trace s') e = count_list (ss_trace s) e + count_list (newEvents s s') e" for e
    by (simp add: newEvents_trace[OF assms(3)])
  have d: "count_list (ss_trace s) (EvStreamDied i) = (if dead (ss_objs s) i then 1 else 0)"
    "count_list (ss_trace s') (EvStreamDied i) = (if dead (ss_objs s') i then 1 else 0)"
    "count_list (ss_trace s) EvSessionDied = (if ss_closed s then 1 else 0)"
    "count_list (ss_trace s') EvSessionDied = (if ss_closed s' then 1 else 0)"
    using h by (simp_all add: hooks_once_def)
  show "dead (ss_objs s) i \<Longrightarrow> dead (ss_objs s') i"
    "count_list (newEvents s s') (EvStreamDied i) = (if dead (ss_objs s') i \<and> \<not> dead (ss_objs s) i then 1 else 0)"
    using c[of "EvStreamDied i"] unfolding d(1,2) by (simp_all split: if_splits)
  show "ss_closed s \<Longrightarrow> ss_closed s'"
    "count_list (newEvents s s') EvSessionDied = (if ss_closed s' \<and> \<not> ss_closed s then 1 else 0)"
    using c[of EvSessionDied] unfolding d(3,4) by (simp_all split: if_splits)
qed

text \<open>The streams of a list that are still alive, and the deaths of them a trace reports.\<close>

definition living :: "Stream list \<Rightarrow> nat list \<Rightarrow> nat" where
  "living objs is = length (filter (\<lambda>i. \<not> dead objs i) is)"

definition deaths :: "nat list \<Rightarrow> event list \<Rightarrow> nat" where
  "deaths is es = length (filter (\<lambda>e. e \<in> EvStreamDied ` set is) es)"

lemma deaths_Cons: "deaths is (e # es) = (if e \<in> EvStreamDied ` set is then 1 else 0) + deaths is es"
  by (simp add: deaths_def)

text \<open>
  The contract with whoever counts on die hooks: an end is final, and each is reported exactly once.
  Then the ends reported are exactly what is missing among the living.
\<close>

locale die_hooks =
  fixes ok :: "'s \<Rightarrow> bool" and moved :: "'s \<Rightarrow> 's \<Rightarrow> bool" and ended :: "'s \<Rightarrow> nat \<Rightarrow> bool"
    and died :: "nat \<Rightarrow> 'e" and news :: "'s \<Rightarrow> 's \<Rightarrow> 'e list"
  assumes own_event: "inj died"
    and final: "ok s \<Longrightarrow> ok s' \<Longrightarrow> moved s s' \<Longrightarrow> ended s i \<Longrightarrow> ended s' i"
    and once: "ok s \<Longrightarrow> ok s' \<Longrightarrow> moved s s' \<Longrightarrow>
      count_list (news s s') (died i) = (if ended s' i \<and> \<not> ended s i then 1 else 0)"
begin

definition reports :: "nat list \<Rightarrow> 'e list \<Rightarrow> nat" where
  "reports is es = length (filter (\<lambda>e. e \<in> died ` set is) es)"

lemma reports_insert: "i \<notin> set is \<Longrightarrow> reports (i # is) es = count_list es (died i) + reports is es"
  using own_event by (induction es) (auto simp: reports_def inj_def)

lemma accounted:
  assumes "ok s" "ok s'" "moved s s'" "distinct is"
  shows "length (filter (\<lambda>i. \<not> ended s i) is) = length (filter (\<lambda>i. \<not> ended s' i) is) + reports is (news s s')"
  using assms(4)
proof (induction "is")
  case Nil
  then show ?case by (simp add: reports_def)
next
  case (Cons i "is")
  then show ?case
    using final[OF assms(1-3), of i] once[OF assms(1-3), of i] by (auto simp: reports_insert)
qed

end

interpretation sess_hooks: die_hooks session_inv grows "\<lambda>s. dead (ss_objs s)" EvStreamDied newEvents
  by unfold_locales (simp add: inj_def, rule new_deaths, assumption+, rule new_deaths)

lemma living_split:
  assumes "session_inv s" "session_inv s'" "grows s s'" "distinct is"
  shows "living (ss_objs s) is = living (ss_objs s') is + deaths is (newEvents s s')"
  using sess_hooks.accounted[OF assms] by (simp add: living_def deaths_def sess_hooks.reports_def)

section \<open>The stream counter is the pool's\<close>

lemma active_same [simp]:
  "ss_activeStreams (emit e s) = ss_activeStreams s" "ss_activeStreams (updStream i f s) = ss_activeStreams s"
  "ss_activeStreams (setConn c s) = ss_activeStreams s" "ss_activeStreams (signalIdleReady s) = ss_activeStreams s"
  "ss_activeStreams (snd (newStream sid s)) = ss_activeStreams s"
  "ss_activeStreams (writeFrameBytes cmd sid n s) = ss_activeStreams s"
  "ss_activeStreams (snd (dieStream i err s)) = ss_activeStreams s"
  "ss_activeStreams (closeLocally i s) = ss_activeStreams s"
  "ss_activeStreams (snd (writeConn b ctrl s)) = ss_activeStreams s"
  "ss_activeStreams (maybeStartIdleLoop s) = ss_activeStreams s"
  by (simp_all add: emit_def updStream_def setConn_def signalIdleReady_def newStream_def writeFrameBytes_def
      dieStream_def closeLocally_def writeConn_def flushShaped_def maybeStartIdleLoop_def Let_def split_beta)

lemma active_closeAll [simp]: "ss_activeStreams (foldl (\<lambda>s i. closeLocally i s) s is) = ss_activeStreams s"
  by (induction "is" arbitrary: s) simp_all

lemma active_Close [simp]: "ss_activeStreams (snd (Close s)) = ss_activeStreams s"
  by (simp add: Close_def Let_def split_beta)

lemma active_writeControlFrame [simp]: "ss_activeStreams (snd (writeControlFrame f s)) = ss_activeStreams s"
  by (simp add: writeControlFrame_def Let_def split_beta split: option.split)

lemma active_OpenStream [simp]: "ss_activeStreams (snd (OpenStream s)) = ss_activeStreams s"
  by (simp add: OpenStream_def Let_def split_beta split: option.split)

lemma active_Run [simp]: "ss_activeStreams (Run s) = ss_activeStreams s"
  by (simp add: Run_def Let_def)

text \<open>A control frame that could not be sent has closed the session, and with it every registered stream.\<close>

lemma failed_control_kills:
  assumes "writeControlFrame f s = ((n, Some e), s')" and "length (f_data f) \<le> maxFrameDataLen"
    and "session_inv s" "\<not> ss_closed s" "(sid, i) \<in> set (ss_streams s)"
  shows "dead (ss_objs s') i"
proof -
  obtain m err t where w: "writeConn (encodeFrame f) True s = ((m, err), t)" by (metis prod.collapse)
  have c: "core t = core s" using writeConn_core_eq[of "encodeFrame f" True s] w by simp
  from assms(1,2) w have "s' = snd (Close t)"
    by (auto simp: writeControlFrame_def Let_def split: option.splits if_splits)
  moreover have "\<not> ss_closed t" "(sid, i) \<in> set (ss_streams t)" and inv: "inv_except {} t"
    using c assms(3-5) session_inv_frame[OF assms(3) c] by (simp_all add: core_def session_inv_def)
  moreover have "ss_objs (snd (Close t)) = ss_objs (closingStreams t)"
    using Close_core[of t] calculation by (simp add: core_def)
  ultimately show ?thesis
    using closingStreams_inv(2)[OF inv] by simp
qed

text \<open>The stream \<open>OpenStream\<close> registers is new, and dead when an error comes with it.\<close>

lemma OpenStream_result:
  assumes o': "OpenStream s = ((i, err), s')"
  shows "i = None \<Longrightarrow> s' = s \<and> err \<noteq> None" and "err = None \<Longrightarrow> i \<noteq> None"
    and "i = Some j \<Longrightarrow> j = length (ss_objs s) \<and> j < length (ss_objs s')"
    and "i = Some j \<Longrightarrow> err \<noteq> None \<Longrightarrow> session_inv s \<Longrightarrow> dead (ss_objs s') j"
proof -
  show "i = None \<Longrightarrow> s' = s \<and> err \<noteq> None" "err = None \<Longrightarrow> i \<noteq> None"
    using o' by (auto simp: OpenStream_def Let_def split_beta split: if_splits option.splits)
  assume i: "i = Some j"
  then have open': "\<not> (IsClosed s \<or> ss_connBroken s)" "\<not> ss_closed s"
    using o' by (auto simp: OpenStream_def IsClosed_def split: if_splits)
  define sid where "sid = ss_streamId s + 1"
  obtain k s1 where n: "newStream sid (s\<lparr>ss_streamId := sid\<rparr>) = (k, s1)" by fastforce
  then have k: "k = length (ss_objs s)" "length (ss_objs s1) = Suc k"
    by (auto simp: newStream_def)
  define s2 where "s2 = (if sid \<ge> 2 \<and> ss_peerVersion s1 \<ge> 2
      then updStream k (\<lambda>st. st\<lparr>st_synTimer := True\<rparr>) s1 else s1)"
  define s3 where "s3 = s2\<lparr>ss_streams := AList.update sid k (ss_streams s2)\<rparr>"
  obtain m e s4 where w: "writeControlFrame (newFrame cmdSYN sid) s3 = ((m, e), s4)" by (metis prod.collapse)
  have r: "j = k \<and> err = e \<and> length (ss_objs s') = length (ss_objs s4) \<and>
      (err \<noteq> None \<longrightarrow> s' = updStream k (\<lambda>st. st\<lparr>st_synTimer := False\<rparr>) (s4\<lparr>ss_streams := AList.delete sid (ss_streams s4)\<rparr>))"
    using o' i open'(1) n w unfolding OpenStream_def s3_def s2_def sid_def
    by (auto simp: Let_def updStream_def split: option.splits)
  have "grows s3 s4" using grows_writeControlFrame[of s3 s3 "newFrame cmdSYN sid"] w by simp
  then have "k < length (ss_objs s4)"
    using k(2) by (simp add: grows_def s3_def s2_def updStream_def split: if_splits)
  with r k(1) show "j = length (ss_objs s) \<and> j < length (ss_objs s')"
    by simp
  assume err: "err \<noteq> None" and inv: "session_inv s"
  have inv0: "session_inv (s\<lparr>ss_streamId := sid\<rparr>)" using inv by (rule session_inv_frame) simp
  have reg: "session_inv (s1\<lparr>ss_streams := AList.update sid k (ss_streams s1)\<rparr>)"
    by (intro register_inv [OF inv0 _ n]) (simp add: open')
  have "s3 = (if sid \<ge> 2 \<and> ss_peerVersion s1 \<ge> 2
      then updStream k (\<lambda>st. st\<lparr>st_synTimer := True\<rparr>) (s1\<lparr>ss_streams := AList.update sid k (ss_streams s1)\<rparr>)
      else s1\<lparr>ss_streams := AList.update sid k (ss_streams s1)\<rparr>)"
    by (simp add: s3_def s2_def updStream_def)
  then have "session_inv s3" using reg updStream_inv [OF reg, of "\<lambda>st. st\<lparr>st_synTimer := True\<rparr>"] by simp
  moreover have "\<not> ss_closed s3"
    using open'(2) n by (auto simp: s3_def s2_def updStream_def newStream_def)
  moreover have "(sid, k) \<in> set (ss_streams s3)"
    by (simp add: s3_def) (metis map_of_SomeD update_conv' fun_upd_same)
  moreover obtain e' where "e = Some e'" using r err by auto
  ultimately have "dead (ss_objs s4) k"
    using failed_control_kills[of "newFrame cmdSYN sid" s3 m e' s4 sid k] w by (simp add: newFrame_def)
  with r err show "dead (ss_objs s') j"
    by (auto simp: dead_def updStream_def nth_list_update)
qed

end
