(* ===== verification/Session_Loops.thy ===== *)
theory Session_Loops
  imports Session_Trace
begin

text \<open>
  The two background loops of a session, \<open>idleLoop\<close> and \<open>heartbeatLoop\<close>, as goroutines that wait for the
  first traffic, sleep, act and sleep again, until the session dies.
\<close>

section \<open>Goroutines\<close>

text \<open>\<open>Sleeping\<close> carries the instant of its timer, \<open>Probed\<close> when the request was sent and when the answer is due.\<close>

datatype bgloop = Awaiting | Sleeping int | Probed int int | Ended

record heartbeats =
  hb_interval :: duration
  hb_quietWindow :: duration
  hb_timeout :: duration

definition idleSleep :: "Session \<Rightarrow> bgloop \<times> Session" where
  "idleSleep s =
     (let (d, r) = IdleInterval (ss_shaper s) (ss_rand s) in (Sleeping (ss_now s + d), s\<lparr>ss_rand := r\<rparr>))"

text \<open>One scheduling of \<open>idleLoop\<close>; a wait that is not over leaves everything as it is.\<close>

definition idleLoop :: "bgloop \<Rightarrow> Session \<Rightarrow> bgloop \<times> Session" where
  "idleLoop l s =
     (if ss_closed s then (Ended, s)
      else case l of
             Awaiting \<Rightarrow>
               if \<not> ss_idleReady s then (l, s)
               else let (enabled, s) = idleLoopStart s in if enabled then idleSleep s else (Ended, s)
           | Sleeping t \<Rightarrow>
               if ss_now s < t then (l, s)
               else let (goesOn, s) = idleTick s in if goesOn then idleSleep s else (Ended, s)
           | _ \<Rightarrow> (Ended, s))"

definition heartbeatSleep :: "heartbeats \<Rightarrow> Session \<Rightarrow> bgloop \<times> Session" where
  "heartbeatSleep hb s =
     (let (d, r) = nextHeartbeatInterval (hb_interval hb) (ss_rand s) in (Sleeping (ss_now s + d), s\<lparr>ss_rand := r\<rparr>))"

text \<open>\<open>stuck\<close> and \<open>blocked\<close> are as in \<open>heartbeatSend\<close> and \<open>heartbeatVerdict\<close>.\<close>

definition heartbeatLoop :: "heartbeats \<Rightarrow> bool \<Rightarrow> bool \<Rightarrow> bgloop \<Rightarrow> Session \<Rightarrow> bgloop \<times> Session" where
  "heartbeatLoop hb stuck blocked l s =
     (if ss_closed s then (Ended, s)
      else case l of
             Awaiting \<Rightarrow> if \<not> ss_idleReady s then (l, s) else heartbeatSleep hb s
           | Sleeping t \<Rightarrow>
               if ss_now s < t then (l, s)
               else (case heartbeatSend (hb_quietWindow hb) stuck s of
                       (ProbeStop, s) \<Rightarrow> (Ended, s)
                     | (ProbeQuiet, s) \<Rightarrow> heartbeatSleep hb s
                     | (ProbeSent sentAt, s) \<Rightarrow>
                         (Probed sentAt (ss_now s + heartbeatValue (hb_timeout hb) defaultHeartbeatTimeout), s))
           | Probed sentAt due \<Rightarrow>
               if ss_now s < due then (l, s)
               else let (goesOn, s) = heartbeatVerdict sentAt blocked s in if goesOn then heartbeatSleep hb s else (Ended, s)
           | Ended \<Rightarrow> (Ended, s))"

section \<open>The loops are steps of the session\<close>

lemma step_rand: "sess_step md5 s (s\<lparr>ss_rand := r\<rparr>)"
proof -
  have "envMove (ss_now s) r (ss_connLocked s) (ss_activeStreams s) [] (c_sched (ss_conn s)) s = s\<lparr>ss_rand := r\<rparr>"
    by (simp add: envMove_def setConn_def)
  then show ?thesis by (metis step_env)
qed

lemma sleeps_step: "sess_step md5 s (snd (idleSleep s))" "sess_step md5 s (snd (heartbeatSleep hb s))"
  by (simp_all add: idleSleep_def heartbeatSleep_def split_beta step_rand)

lemma idleLoop_steps: "(sess_step md5)\<^sup>*\<^sup>* s (snd (idleLoop l s))"
proof -
  have "(sess_step md5)\<^sup>*\<^sup>* s (snd (if fst x then idleSleep (snd x) else (Ended, snd x)))"
    if "sess_step md5 s (snd x)" for x :: "bool \<times> Session"
    using that sleeps_step(1)[of md5 "snd x"] by (auto intro: rtranclp.rtrancl_into_rtrancl)
  from this[OF step_idle_start] this[OF step_idle] show ?thesis
    by (simp add: idleLoop_def split_beta split: bgloop.split)
qed

lemma heartbeatLoop_steps: "(sess_step md5)\<^sup>*\<^sup>* s (snd (heartbeatLoop hb stuck blocked l s))"
proof -
  have sent: "sess_step md5 s s'" if "heartbeatSend q stuck s = (p, s')" for q p s'
    using step_probe[of md5 s q stuck] that by simp
  have judged: "sess_step md5 s s'" if "heartbeatVerdict t blocked s = (g, s')" for t g s'
    using step_verdict[of md5 s t blocked] that by simp
  have "(sess_step md5)\<^sup>*\<^sup>* s (snd (heartbeatSleep hb s'))" if "sess_step md5 s s'" for s'
    using that sleeps_step(2)[of md5 s' hb] by (auto intro: rtranclp.rtrancl_into_rtrancl)
  then show ?thesis
    using sleeps_step(2)[of md5 s hb] sent judged
    unfolding heartbeatLoop_def Let_def
    by (auto split: bgloop.split prod.split probe.split)
qed

section \<open>What the loops do\<close>

text \<open>A loop ends the next time it is scheduled after its session has died.\<close>

lemma loops_end: "ss_closed s \<Longrightarrow> idleLoop l s = (Ended, s)" "ss_closed s \<Longrightarrow> heartbeatLoop hb stuck blocked l s = (Ended, s)"
  by (simp_all add: idleLoop_def heartbeatLoop_def)

lemma loops_ended [simp]: "idleLoop Ended s = (Ended, s)" "heartbeatLoop hb stuck blocked Ended s = (Ended, s)"
  by (simp_all add: idleLoop_def heartbeatLoop_def)

text \<open>Before the first traffic, and while a timer runs, neither loop does anything.\<close>

lemma loops_wait:
  "\<not> ss_closed s \<Longrightarrow> \<not> ss_idleReady s \<Longrightarrow> idleLoop Awaiting s = (Awaiting, s) \<and> heartbeatLoop hb stuck blocked Awaiting s = (Awaiting, s)"
  "\<not> ss_closed s \<Longrightarrow> ss_now s < t \<Longrightarrow> idleLoop (Sleeping t) s = (Sleeping t, s) \<and> heartbeatLoop hb stuck blocked (Sleeping t) s = (Sleeping t, s)"
  by (simp_all add: idleLoop_def heartbeatLoop_def)

text \<open>The pause between heartbeats is the configured one up to a quarter.\<close>

lemma heartbeat_pause:
  assumes "nextHeartbeatInterval configured r = (d, r')" "base = heartbeatValue configured defaultHeartbeatInterval div millisecond"
    and "base < 2 ^ 40"
  shows "(base - base div 4) * millisecond \<le> d" "d \<le> (base + base div 4) * millisecond"
proof -
  have b: "0 \<le> base"
    by (simp add: assms(2) heartbeatValue_def defaultHeartbeatInterval_def pos_imp_zdiv_nonneg_iff)
  obtain off r1 where f: "FastIntn (2 * (base div 4) + 1) r = (off, r1)" by fastforce
  have off: "0 \<le> off" "off \<le> 2 * (base div 4)"
    using FastIntn_range[OF f] b by simp_all
  let ?x = "(base - base div 4 + off) * millisecond"
  have x: "0 \<le> base - base div 4 + off" "base - base div 4 + off \<le> base + base div 4" using off b by auto
  have "wrap64 ?x = ?x"
    using x assms(3) by (intro wrap64_id) (simp_all add: millisecond_def int64_min_def int64_max_def)
  then have "d = ?x" using assms(1) f by (simp add: nextHeartbeatInterval_def assms(2) Let_def)
  with off show "(base - base div 4) * millisecond \<le> d" "d \<le> (base + base div 4) * millisecond"
    by (simp_all add: millisecond_def)
qed

text \<open>
  The heartbeat loop closes a session that was open only when the answer to a probe is overdue and the
  receive loop is not held up by a reader, or when the request could not be written.
\<close>

lemma heartbeatSleep_closed: "heartbeatSleep hb s = (l, s') \<Longrightarrow> ss_closed s' = ss_closed s"
  by (auto simp: heartbeatSleep_def split: prod.splits)

lemma written_open:
  assumes "writeControlFrame f s = ((n, None), s')"
  shows "ss_closed s' = ss_closed s"
proof -
  obtain m err t where w: "writeConn (encodeFrame f) True s = ((m, err), t)" by (metis prod.collapse)
  have "core t = core s" using writeConn_core_eq[of "encodeFrame f" True s] w by simp
  then show ?thesis
    using assms w by (auto simp: writeControlFrame_def core_def Let_def split: option.splits if_splits)
qed

lemma heartbeatSend_closed:
  assumes "heartbeatSend q stuck s = (p, s')" "\<not> ss_closed s" "ss_closed s'"
  shows "p = ProbeStop \<and> (stuck \<or> snd (fst (writeControlFrame (newFrame cmdHeartRequest 0) s)) \<noteq> None)"
proof -
  obtain n err t where w: "writeControlFrame (newFrame cmdHeartRequest 0) s = ((n, err), t)" by (metis prod.collapse)
  show ?thesis
    using assms written_open[of "newFrame cmdHeartRequest 0" s n t] w
    by (cases err) (auto simp: heartbeatSend_def Let_def split: if_splits)
qed

lemma heartbeat_closes_only_silent:
  assumes "heartbeatLoop hb stuck blocked l s = (l', s')" "\<not> IsClosed s" "IsClosed s'"
  shows "l' = Ended \<and>
    ((\<exists>sentAt due. l = Probed sentAt due \<and> due \<le> ss_now s \<and> ss_lastHeartRespNano s < sentAt \<and> \<not> blocked) \<or>
     (\<exists>t. l = Sleeping t \<and> t \<le> ss_now s \<and> (stuck \<or> snd (fst (writeControlFrame (newFrame cmdHeartRequest 0) s)) \<noteq> None)))"
proof -
  have s: "\<not> ss_closed s" "ss_closed s'" using assms(2,3) by (simp_all add: IsClosed_def)
  show ?thesis
  proof (cases l)
    case Awaiting
    then show ?thesis using assms(1) s by (auto simp: heartbeatLoop_def dest: heartbeatSleep_closed split: if_splits)
  next
    case (Sleeping t)
    obtain p u where p: "heartbeatSend (hb_quietWindow hb) stuck s = (p, u)" by fastforce
    show ?thesis
      using assms(1) s Sleeping p heartbeatSend_closed[OF p s(1)]
      by (auto simp: heartbeatLoop_def dest: heartbeatSleep_closed split: if_splits probe.splits)
  next
    case (Probed sentAt due)
    then show ?thesis
      using assms(1) s
      by (auto simp: heartbeatLoop_def heartbeatVerdict_def Let_def dest: heartbeatSleep_closed split: if_splits)
  next
    case Ended
    then show ?thesis using assms(1) s by (simp add: heartbeatLoop_def)
  qed
qed

end
