(* ===== verification/MigrationDetect.thy ===== *)
theory MigrationDetect
  imports Prelude
begin

text \<open>
  \<open>session/migration_detect.go\<close>: the scanner that walks the relayed TLS record stream and the
  handshake detector that authorises (or forbids) the cut-over of a flow to its own connection.
  A callback of the source that mutates captured state is a state transformer of the model.
\<close>

section \<open>Constants\<close>

definition tlsRecordHandshake :: byte where [simp]: "tlsRecordHandshake = 0x16"
definition tlsHandshakeServerHello :: byte where [simp]: "tlsHandshakeServerHello = 0x02"
definition migMinBulkBytes :: int where [simp]: "migMinBulkBytes = 64 * 1024"
definition migMinBulkFloor :: int where [simp]: "migMinBulkFloor = 2 * 1024"

definition resolveMinBulk :: "int \<Rightarrow> int" where
  "resolveMinBulk n =
     (if n \<le> 0 then migMinBulkBytes else if n < migMinBulkFloor then migMinBulkFloor else n)"

section \<open>The record scanner\<close>

text \<open>
  \<open>hdr\<close> holds the header bytes buffered so far, \<open>hdrLen\<close> of the source being its length.
\<close>

record recordScanner =
  hdr :: bytes
  bodyLeft :: nat
  recLength :: nat
  recType :: byte
  firstByte :: byte
  gotFirst :: bool
  reported :: bool
  broken :: bool

definition newScanner :: recordScanner where
  "newScanner = \<lparr>hdr = [], bodyLeft = 0, recLength = 0, recType = 0, firstByte = 0,
     gotFirst = False, reported = False, broken = False\<rparr>"

type_synonym tlsrec = "byte \<times> nat \<times> byte"

definition resetForNext :: "recordScanner \<Rightarrow> recordScanner" where
  "resetForNext rs = rs\<lparr>hdr := []\<rparr>"

text \<open>The part of the loop body below the header: skip body bytes, report the record once.\<close>

definition feedBody ::
    "(tlsrec \<Rightarrow> 's \<Rightarrow> 's) \<Rightarrow> bytes \<Rightarrow> recordScanner \<Rightarrow> 's \<Rightarrow> bytes \<times> recordScanner \<times> 's" where
  "feedBody onRecord p rs s =
     (let tk = (if bodyLeft rs > length p then length p else bodyLeft rs);
          rs = (if \<not> gotFirst rs \<and> tk > 0 then rs\<lparr>firstByte := p ! 0, gotFirst := True\<rparr> else rs);
          (rs, s) = (if \<not> reported rs \<and> gotFirst rs
                     then (rs\<lparr>reported := True\<rparr>, onRecord (recType rs, recLength rs, firstByte rs) s)
                     else (rs, s));
          rs = rs\<lparr>bodyLeft := bodyLeft rs - tk\<rparr>
      in (drop tk p, if bodyLeft rs = 0 then resetForNext rs else rs, s))"

text \<open>The header is complete: read type and length, or give up on the stream.\<close>

definition startRecord :: "recordScanner \<Rightarrow> recordScanner" where
  "startRecord rs =
     rs\<lparr>recType := hdr rs ! 0,
        recLength := unat (hdr rs ! 3) * 256 + unat (hdr rs ! 4)\<rparr>"

definition initRecord :: "recordScanner \<Rightarrow> recordScanner" where
  "initRecord rs =
     rs\<lparr>bodyLeft := recLength rs, gotFirst := False, reported := False, firstByte := 0\<rparr>"

lemma feedBody_decreases:
  assumes "feedBody onRecord p rs s = (p', rs', s')"
  shows "length p' \<le> length p" "p \<noteq> [] \<Longrightarrow> \<not> length p' < length p \<Longrightarrow> hdr rs' = []"
  using assms by (auto simp: feedBody_def resetForNext_def Let_def split: if_splits)

function feedLoop ::
    "(tlsrec \<Rightarrow> 's \<Rightarrow> 's) \<Rightarrow> bytes \<Rightarrow> recordScanner \<Rightarrow> 's \<Rightarrow> recordScanner \<times> 's" where
  "feedLoop onRecord p rs s =
     (if p = [] then (rs, s)
      else if length (hdr rs) < 5 then
        let n = min (5 - length (hdr rs)) (length p);
            rs1 = rs\<lparr>hdr := hdr rs @ take n p\<rparr>;
            p1 = drop n p
        in if length (hdr rs1) < 5 then (rs1, s)
           else let rs2 = startRecord rs1
                in if recLength rs2 > 0x4800 then (rs2\<lparr>broken := True\<rparr>, s)
                   else let rs3 = initRecord rs2
                        in if recLength rs3 = 0
                           then feedLoop onRecord p1 (resetForNext (rs3\<lparr>reported := True\<rparr>))
                                  (onRecord (recType rs3, 0, 0) s)
                           else let (p2, rs4, s2) = feedBody onRecord p1 rs3 s
                                in feedLoop onRecord p2 rs4 s2
      else let (p2, rs4, s2) = feedBody onRecord p rs s
           in feedLoop onRecord p2 rs4 s2)"
  by pat_completeness auto
termination
proof (relation "measure (\<lambda>(f, p, rs, s). 2 * length p + (if length (hdr rs) < 5 then 0 else 1))",
    goal_cases)
  case 1
  then show ?case by simp
next
  case (2 f p rs s n rs1 p1 rs2 rs3)
  then have "length p1 < length p" by (cases p) auto
  then show ?case by (simp add: resetForNext_def)
next
  case (3 f p rs s n rs1 p1 rs2 rs3 x p2 y rs4 s2)
  then have "length p1 < length p" by (cases p) auto
  moreover have "length p2 \<le> length p1"
    using feedBody_decreases(1) 3 by metis
  ultimately show ?case by auto
next
  case (4 f p rs s x p2 y rs4 s2)
  then have "feedBody f p rs s = (p2, rs4, s2)" by simp
  note dec = feedBody_decreases [OF this]
  have "2 * length p2 + (if length (hdr rs4) < 5 then 0 else 1) < Suc (2 * length p)"
    using dec 4(1) by (cases "length p2 < length p") auto
  with 4(2) show ?case by simp
qed

declare feedLoop.simps [simp del]

definition feed ::
    "(tlsrec \<Rightarrow> 's \<Rightarrow> 's) \<Rightarrow> bytes \<Rightarrow> recordScanner \<Rightarrow> 's \<Rightarrow> recordScanner \<times> 's" where
  "feed onRecord p rs s = (if broken rs then (rs, s) else feedLoop onRecord p rs s)"

section \<open>The detector\<close>

datatype migDetectState =
    migDetectInit
  | migDetectClientHello
  | migDetectServerHello
  | migDetectHandshakeDone
  | migDetectBulk
  | migDetectReady
  | migDetectAborted

record handshakeDetector =
  dstate :: migDetectState
  upScan :: recordScanner
  downScan :: recordScanner
  serverHelloSeen :: bool
  serverFlightAfter :: nat
  clientFlightAfter :: bool
  downlinkSinceDone :: int
  bulkBytes :: int
  minBulk :: int
  tlsOnly :: bool

definition newHandshakeDetector :: "int \<Rightarrow> handshakeDetector" where
  "newHandshakeDetector n =
     \<lparr>dstate = migDetectInit, upScan = newScanner, downScan = newScanner, serverHelloSeen = False,
      serverFlightAfter = 0, clientFlightAfter = False, downlinkSinceDone = 0, bulkBytes = 0,
      minBulk = resolveMinBulk n, tlsOnly = False\<rparr>"

definition Ready :: "handshakeDetector \<Rightarrow> bool" where
  "Ready d \<longleftrightarrow> dstate d = migDetectReady"

definition Aborted :: "handshakeDetector \<Rightarrow> bool" where
  "Aborted d \<longleftrightarrow> dstate d = migDetectAborted"

definition abort :: "handshakeDetector \<Rightarrow> handshakeDetector" where
  "abort d = d\<lparr>dstate := migDetectAborted\<rparr>"

definition addBulk :: "nat \<Rightarrow> handshakeDetector \<Rightarrow> handshakeDetector" where
  "addBulk n d =
     (let d = d\<lparr>bulkBytes := bulkBytes d + int n\<rparr>
      in if bulkBytes d \<ge> minBulk d then d\<lparr>dstate := migDetectReady\<rparr> else d)"

definition maybeHandshakeDone :: "handshakeDetector \<Rightarrow> handshakeDetector" where
  "maybeHandshakeDone d =
     (if dstate d = migDetectServerHello \<and> serverFlightAfter d \<ge> 1 \<and> clientFlightAfter d
      then d\<lparr>dstate := migDetectHandshakeDone, downlinkSinceDone := 0\<rparr>
      else d)"

definition onUplinkRecord :: "tlsrec \<Rightarrow> handshakeDetector \<Rightarrow> handshakeDetector" where
  "onUplinkRecord rc d =
     (if dstate d = migDetectServerHello then maybeHandshakeDone (d\<lparr>clientFlightAfter := True\<rparr>) else d)"

definition scanUplink :: "bytes \<Rightarrow> handshakeDetector \<Rightarrow> handshakeDetector" where
  "scanUplink p d = (let (sc, d') = feed onUplinkRecord p (upScan d) d in d'\<lparr>upScan := sc\<rparr>)"

definition observeUplink :: "bytes \<Rightarrow> handshakeDetector \<Rightarrow> handshakeDetector" where
  "observeUplink p d =
     (case dstate d of
        migDetectAborted \<Rightarrow> d
      | migDetectHandshakeDone \<Rightarrow> d
      | migDetectReady \<Rightarrow> d
      | migDetectBulk \<Rightarrow> addBulk (length p) d
      | migDetectInit \<Rightarrow>
          if length p = 0 then d
          else if p ! 0 \<noteq> tlsRecordHandshake
          then (if tlsOnly d then abort d
                else addBulk (length p) (d\<lparr>dstate := migDetectBulk\<rparr>))
          else scanUplink p (d\<lparr>dstate := migDetectClientHello\<rparr>)
      | migDetectClientHello \<Rightarrow> scanUplink p d
      | migDetectServerHello \<Rightarrow> scanUplink p d)"

definition onDownlinkRecord :: "tlsrec \<Rightarrow> handshakeDetector \<Rightarrow> handshakeDetector" where
  "onDownlinkRecord rc d =
     (let (typ, len, fb) = rc
      in case dstate d of
           migDetectClientHello \<Rightarrow>
             if typ = tlsRecordHandshake \<and> (fb = tlsHandshakeServerHello \<or> len = 0)
             then d\<lparr>dstate := migDetectServerHello, serverHelloSeen := True\<rparr>
             else abort d
         | migDetectServerHello \<Rightarrow>
             if typ = tlsRecordHandshake then abort d
             else maybeHandshakeDone (d\<lparr>serverFlightAfter := serverFlightAfter d + 1\<rparr>)
         | _ \<Rightarrow> d)"

definition scanDownlink :: "bytes \<Rightarrow> handshakeDetector \<Rightarrow> handshakeDetector" where
  "scanDownlink p d = (let (sc, d') = feed onDownlinkRecord p (downScan d) d in d'\<lparr>downScan := sc\<rparr>)"

definition observeDownlink :: "bytes \<Rightarrow> handshakeDetector \<Rightarrow> handshakeDetector" where
  "observeDownlink p d =
     (case dstate d of
        migDetectAborted \<Rightarrow> d
      | migDetectReady \<Rightarrow> d
      | migDetectBulk \<Rightarrow> addBulk (length p) d
      | migDetectHandshakeDone \<Rightarrow>
          (let d = d\<lparr>downlinkSinceDone := downlinkSinceDone d + int (length p)\<rparr>
           in if downlinkSinceDone d \<ge> minBulk d then d\<lparr>dstate := migDetectReady\<rparr> else d)
      | _ \<Rightarrow> scanDownlink p d)"

section \<open>The scanner against a byte-at-a-time reference\<close>

text \<open>
  The reference walks the stream one byte at a time and buffers nothing but the header: the
  bytes of a header, then the first body byte (which reports the record), then the rest.
\<close>

definition scanByte :: "(tlsrec \<Rightarrow> 's \<Rightarrow> 's) \<Rightarrow> recordScanner \<times> 's \<Rightarrow> byte \<Rightarrow> recordScanner \<times> 's" where
  "scanByte onRecord st b =
     (let (rs, s) = st
      in if broken rs then (rs, s)
         else if length (hdr rs) < 4 then (rs\<lparr>hdr := hdr rs @ [b]\<rparr>, s)
         else if length (hdr rs) = 4 then
           let rs2 = startRecord (rs\<lparr>hdr := hdr rs @ [b]\<rparr>)
           in if recLength rs2 > 0x4800 then (rs2\<lparr>broken := True\<rparr>, s)
              else if recLength rs2 = 0
              then (resetForNext (initRecord rs2\<lparr>reported := True\<rparr>), onRecord (recType rs2, 0, 0) s)
              else (initRecord rs2, s)
         else let (rs1, s1) = (if reported rs then (rs, s)
                               else (rs\<lparr>firstByte := b, gotFirst := True, reported := True\<rparr>,
                                     onRecord (recType rs, recLength rs, b) s));
                  rs2 = rs1\<lparr>bodyLeft := bodyLeft rs1 - 1\<rparr>
              in (if bodyLeft rs2 = 0 then resetForNext rs2 else rs2, s1))"

definition scan_ok :: "recordScanner \<Rightarrow> bool" where
  "scan_ok rs \<longleftrightarrow> length (hdr rs) \<le> 5 \<and>
     (length (hdr rs) = 5 \<longrightarrow> broken rs \<or> (0 < bodyLeft rs \<and> gotFirst rs = reported rs))"

lemma scan_ok_new [simp]: "scan_ok newScanner"
  by (simp add: scan_ok_def newScanner_def)

lemma startRecord_simps [simp]:
  "hdr (startRecord rs) = hdr rs" "broken (startRecord rs) = broken rs"
  "gotFirst (startRecord rs) = gotFirst rs" "reported (startRecord rs) = reported rs"
  by (simp_all add: startRecord_def)

lemma initRecord_simps [simp]:
  "hdr (initRecord rs) = hdr rs" "broken (initRecord rs) = broken rs"
  "bodyLeft (initRecord rs) = recLength rs" "recLength (initRecord rs) = recLength rs"
  "recType (initRecord rs) = recType rs" "\<not> gotFirst (initRecord rs)" "\<not> reported (initRecord rs)"
  by (simp_all add: initRecord_def)

lemma resetForNext_simps [simp]:
  "hdr (resetForNext rs) = []" "broken (resetForNext rs) = broken rs"
  by (simp_all add: resetForNext_def)

lemma scanByte_ok: "scan_ok rs \<Longrightarrow> scan_ok (fst (scanByte f (rs, s) b))"
  by (auto simp: scan_ok_def scanByte_def Let_def)

lemma foldl_scanByte_ok: "scan_ok rs \<Longrightarrow> scan_ok (fst (foldl (scanByte f) (rs, s) p))"
proof (induction p arbitrary: rs s)
  case (Cons b p)
  obtain rs1 s1 where "scanByte f (rs, s) b = (rs1, s1)" by fastforce
  with Cons scanByte_ok [of rs f s b] show ?case by simp
qed simp

lemma scanByte_broken: "broken rs \<Longrightarrow> foldl (scanByte f) (rs, s) p = (rs, s)"
  by (induction p) (simp_all add: scanByte_def)

lemma scanByte_header:
  assumes "\<not> broken rs" "length (hdr rs) + length p < 5"
  shows "foldl (scanByte f) (rs, s) p = (rs\<lparr>hdr := hdr rs @ p\<rparr>, s)"
  using assms
proof (induction p arbitrary: rs)
  case (Cons b p)
  then have "scanByte f (rs, s) b = (rs\<lparr>hdr := hdr rs @ [b]\<rparr>, s)" by (simp add: scanByte_def)
  with Cons.IH [of "rs\<lparr>hdr := hdr rs @ [b]\<rparr>"] Cons.prems show ?case by simp
qed simp

lemma scanByte_body:
  assumes "\<not> broken rs" "length (hdr rs) = 5" "reported rs" "length p \<le> bodyLeft rs" "0 < bodyLeft rs"
  shows "foldl (scanByte f) (rs, s) p =
    (let rs' = rs\<lparr>bodyLeft := bodyLeft rs - length p\<rparr>
     in (if bodyLeft rs' = 0 then resetForNext rs' else rs', s))"
  using assms
proof (induction p arbitrary: rs)
  case (Cons b p)
  let ?rs = "rs\<lparr>bodyLeft := bodyLeft rs - 1\<rparr>"
  show ?case
  proof (cases "bodyLeft rs = 1")
    case True
    with Cons.prems show ?thesis by (simp add: scanByte_def Let_def)
  next
    case False
    with Cons.prems have "scanByte f (rs, s) b = (?rs, s)" by (simp add: scanByte_def Let_def)
    with False Cons.IH [of ?rs] Cons.prems show ?thesis by (simp add: Let_def)
  qed
qed (simp add: Let_def)

lemma feedBody_scan:
  assumes "\<not> broken rs" "length (hdr rs) = 5" "0 < bodyLeft rs" "gotFirst rs = reported rs"
    and "feedBody f p rs s = (p', rs', s')"
  shows "foldl (scanByte f) (rs, s) p = foldl (scanByte f) (rs', s') p' \<and>
    scan_ok rs' \<and> \<not> broken rs'"
proof (cases p)
  case Nil
  with assms show ?thesis by (auto simp: feedBody_def scan_ok_def Let_def)
next
  case (Cons b bs)
  let ?n = "min (bodyLeft rs) (length p)"
  let ?rs1 = "if reported rs then rs else rs\<lparr>firstByte := b, gotFirst := True, reported := True\<rparr>"
  let ?s1 = "if reported rs then s else f (recType rs, recLength rs, b) s"
  have n: "0 < ?n" using assms(3) Cons by simp
  have fb: "p' = drop ?n p" "s' = ?s1"
    "rs' = (let r = ?rs1\<lparr>bodyLeft := bodyLeft rs - ?n\<rparr> in if bodyLeft r = 0 then resetForNext r else r)"
    using assms(3,4,5) Cons by (auto simp: feedBody_def Let_def min_def split: if_splits)
  have "foldl (scanByte f) (rs, s) (take ?n p) = foldl (scanByte f) (?rs1, ?s1) (take ?n p)"
    using assms n Cons by (cases ?n) (auto simp: scanByte_def Let_def)
  also have "\<dots> = (rs', s')"
    using scanByte_body [of ?rs1 "take ?n p" f ?s1] assms fb by (auto simp: Let_def)
  finally have "foldl (scanByte f) (rs, s) (take ?n p @ drop ?n p) = foldl (scanByte f) (rs', s') p'"
    unfolding foldl_append using fb(1) by simp
  moreover have "scan_ok rs' \<and> \<not> broken rs'"
    using fb(3) assms by (auto simp: scan_ok_def Let_def)
  ultimately show ?thesis by simp
qed

lemma scanByte_header_complete:
  assumes "\<not> broken rs" "length (hdr rs) < 5" "length (hdr rs) + length q = 5"
  shows "foldl (scanByte f) (rs, s) q =
    (let rs2 = startRecord (rs\<lparr>hdr := hdr rs @ q\<rparr>)
     in if recLength rs2 > 0x4800 then (rs2\<lparr>broken := True\<rparr>, s)
        else if recLength rs2 = 0
        then (resetForNext (initRecord rs2\<lparr>reported := True\<rparr>), f (recType rs2, 0, 0) s)
        else (initRecord rs2, s))"
proof -
  from assms have "q \<noteq> []" by auto
  then obtain q' b where q: "q = q' @ [b]" by (metis append_butlast_last_id)
  have "foldl (scanByte f) (rs, s) q' = (rs\<lparr>hdr := hdr rs @ q'\<rparr>, s)"
    using assms q by (intro scanByte_header) auto
  with assms q show ?thesis by (simp add: scanByte_def Let_def)
qed

text \<open>One unfolding of the loop per path through its body.\<close>

lemma feedLoop_Nil: "feedLoop f [] rs s = (rs, s)"
  by (subst feedLoop.simps) simp

lemma feedLoop_body:
  assumes "p \<noteq> []" "\<not> length (hdr rs) < 5" "feedBody f p rs s = (p2, rs4, s2)"
  shows "feedLoop f p rs s = feedLoop f p2 rs4 s2"
  using assms by (subst feedLoop.simps) simp

lemma feedLoop_partial:
  assumes "p \<noteq> []" "length (hdr rs) + length p < 5"
  shows "feedLoop f p rs s = (rs\<lparr>hdr := hdr rs @ p\<rparr>, s)"
  using assms by (subst feedLoop.simps) (simp add: Let_def)

lemma feedLoop_header:
  assumes "q \<noteq> []" "length (hdr rs) + length q = 5"
  shows "feedLoop f (q @ p) rs s =
    (let rs2 = startRecord (rs\<lparr>hdr := hdr rs @ q\<rparr>)
     in if recLength rs2 > 0x4800 then (rs2\<lparr>broken := True\<rparr>, s)
        else if recLength rs2 = 0
        then feedLoop f p (resetForNext (initRecord rs2\<lparr>reported := True\<rparr>)) (f (recType rs2, 0, 0) s)
        else let (p2, rs4, s2) = feedBody f p (initRecord rs2) s in feedLoop f p2 rs4 s2)"
proof -
  have n: "min (5 - length (hdr rs)) (length (q @ p)) = length q" using assms by simp
  have "length (hdr rs) < 5" using assms by (cases q) auto
  with assms show ?thesis by (subst feedLoop.simps) (simp add: Let_def n)
qed

lemma feedLoop_scan:
  assumes "scan_ok rs" "\<not> broken rs"
  shows "feedLoop f p rs s = foldl (scanByte f) (rs, s) p"
  using assms
proof (induction "2 * length p + (if length (hdr rs) < 5 then 0 else 1)" arbitrary: p rs s
    rule: less_induct)
  case less
  have body: "feedLoop f p2 rs4 s2 = foldl (scanByte f) (rs0, s0) p0"
    if fb: "feedBody f p0 rs0 s0 = (p2, rs4, s2)" and ok: "length (hdr rs0) = 5" "0 < bodyLeft rs0"
      "gotFirst rs0 = reported rs0" "\<not> broken rs0"
      and m: "2 * length p2 + (if length (hdr rs4) < 5 then 0 else 1)
        < 2 * length p + (if length (hdr rs) < 5 then 0 else (1::nat))"
    for p0 rs0 s0 p2 rs4 s2
    using feedBody_scan [OF ok(4,1,2,3) fb] less.hyps [OF m] by simp
  show ?case
  proof (cases "p = []")
    case True
    then show ?thesis by (simp add: feedLoop_Nil)
  next
    case ne: False
    show ?thesis
    proof (cases "length (hdr rs) < 5")
      case False
      obtain p2 rs4 s2 where fb: "feedBody f p rs s = (p2, rs4, s2)" by (metis prod_cases3)
      have m: "2 * length p2 + (if length (hdr rs4) < 5 then 0 else 1)
          < 2 * length p + (if length (hdr rs) < 5 then 0 else (1::nat))"
        using feedBody_decreases [OF fb] ne False by (cases "length p2 < length p") auto
      show ?thesis
        using body [OF fb _ _ _ _ m] less.prems False feedLoop_body [OF ne False fb]
        by (auto simp: scan_ok_def)
    next
      case hd: True
      show ?thesis
      proof (cases "length (hdr rs) + length p < 5")
        case True
        with less.prems ne show ?thesis by (simp add: feedLoop_partial scanByte_header)
      next
        case False
        define q p1 where "q = take (5 - length (hdr rs)) p" and "p1 = drop (5 - length (hdr rs)) p"
        define rs2 where "rs2 = startRecord (rs\<lparr>hdr := hdr rs @ q\<rparr>)"
        have p: "p = q @ p1" and q: "length (hdr rs) + length q = 5" "q \<noteq> []"
          using False hd by (auto simp: q_def p1_def)
        have h5: "length (hdr rs2) = 5" "\<not> broken rs2" using q less.prems by (simp_all add: rs2_def)
        have shrink: "length p1 < length p" using p q by auto
        note loop = feedLoop_header [OF q(2,1), of f p1 s, folded rs2_def]
        note scan = scanByte_header_complete [OF less.prems(2) hd q(1), of f s, folded rs2_def]
        consider (big) "recLength rs2 > 0x4800" | (zero) "recLength rs2 = 0"
          | (pos) "0 < recLength rs2" "recLength rs2 \<le> 0x4800" by linarith
        then show ?thesis
        proof cases
          case big
          then show ?thesis using loop scan by (simp add: p Let_def scanByte_broken)
        next
          case zero
          let ?rs3 = "resetForNext (initRecord rs2\<lparr>reported := True\<rparr>)"
          have "feedLoop f p1 ?rs3 s' = foldl (scanByte f) (?rs3, s') p1" for s'
            using shrink h5 by (intro less.hyps) (auto simp: scan_ok_def)
          then show ?thesis using zero loop scan by (simp add: p Let_def)
        next
          case pos
          obtain p2 rs4 s2 where fb: "feedBody f p1 (initRecord rs2) s = (p2, rs4, s2)"
            by (metis prod_cases3)
          have "feedLoop f p2 rs4 s2 = foldl (scanByte f) (initRecord rs2, s) p1"
            using pos h5 shrink feedBody_decreases(1) [OF fb] hd by (intro body [OF fb]) auto
          then show ?thesis using pos loop scan fb by (simp add: p Let_def)
        qed
      qed
    qed
  qed
qed

lemma feed_scan: "scan_ok rs \<Longrightarrow> feed f p rs s = foldl (scanByte f) (rs, s) p"
  by (simp add: feed_def feedLoop_scan scanByte_broken)

text \<open>
  Property C35.  However the stream is cut into chunks, the scanner behaves like the
  byte-at-a-time reference: header bytes split across any number of calls are reassembled and
  every record is reported once, when its first body byte arrives.
\<close>

theorem feed_reference:
  assumes "scan_ok rs"
  shows "feed f p rs s = foldl (scanByte f) (rs, s) p
    \<and> feed f (p @ q) rs s = (let (rs', s') = feed f p rs s in feed f q rs' s')"
proof -
  obtain rs1 s1 where r: "foldl (scanByte f) (rs, s) p = (rs1, s1)" by fastforce
  then have "scan_ok rs1" using foldl_scanByte_ok [OF assms, of f s p] by simp
  with assms r show ?thesis by (simp add: feed_scan)
qed

theorem feed_reference_witness:
  "feed (\<lambda>r s. r # s) [22, 3, 3, 0, 2, 1, 9] newScanner []
   = foldl (scanByte (\<lambda>r s. r # s)) (newScanner, []) [22, 3, 3, 0, 2, 1, 9]"
  using feed_reference [OF scan_ok_new, of "\<lambda>r s. r # s" "[22, 3, 3, 0, 2, 1, 9]" "[]"] by blast

section \<open>The records of a stream\<close>

definition collect :: "tlsrec \<Rightarrow> tlsrec list \<Rightarrow> tlsrec list" where
  "collect r rs = rs @ [r]"

definition records :: "recordScanner \<Rightarrow> bytes \<Rightarrow> tlsrec list" where
  "records rs p = snd (feed collect p rs [])"

definition scanEnd :: "recordScanner \<Rightarrow> bytes \<Rightarrow> recordScanner" where
  "scanEnd rs p = fst (feed collect p rs [])"

lemma scanByte_param:
  "scanByte f (rs, s) b =
     (fst (scanByte collect (rs, []) b), foldl (\<lambda>s r. f r s) s (snd (scanByte collect (rs, []) b)))"
  by (simp add: scanByte_def collect_def Let_def)

lemma foldl_scanByte_param:
  "foldl (scanByte f) (rs, s) p =
     (fst (foldl (scanByte collect) (rs, []) p),
      foldl (\<lambda>s r. f r s) s (snd (foldl (scanByte collect) (rs, []) p)))"
proof (induction p rule: rev_induct)
  case Nil
  then show ?case by simp
next
  case (snoc b p)
  obtain rs1 rcs where r: "foldl (scanByte collect) (rs, []) p = (rs1, rcs)" by fastforce
  have acc: "foldl (\<lambda>s r. collect r s) a xs = a @ xs" for a xs
    by (induction xs arbitrary: a) (simp_all add: collect_def)
  show ?case
    using snoc r scanByte_param [of f rs1 _ b] scanByte_param [of collect rs1 rcs b] acc
    by simp
qed

lemma feed_records:
  assumes "scan_ok rs"
  shows "feed f p rs s = (scanEnd rs p, foldl (\<lambda>s r. f r s) s (records rs p))"
  using foldl_scanByte_param [of f rs s p] assms by (simp add: feed_scan records_def scanEnd_def)

lemma scanEnd_ok: "scan_ok rs \<Longrightarrow> scan_ok (scanEnd rs p)"
  by (simp add: scanEnd_def feed_scan foldl_scanByte_ok)

lemma records_append:
  assumes "scan_ok rs"
  shows "records rs (p @ q) = records rs p @ records (scanEnd rs p) q"
    and "scanEnd rs (p @ q) = scanEnd (scanEnd rs p) q"
proof -
  obtain rs1 rcs where r: "foldl (scanByte collect) (rs, []) p = (rs1, rcs)" by fastforce
  have ok: "scan_ok rs1" using foldl_scanByte_ok [OF assms, of collect "[]" p] r by simp
  have acc: "foldl (\<lambda>s r. collect r s) a xs = a @ xs" for a xs
    by (induction xs arbitrary: a) (simp_all add: collect_def)
  show "records rs (p @ q) = records rs p @ records (scanEnd rs p) q"
    and "scanEnd rs (p @ q) = scanEnd (scanEnd rs p) q"
    using r ok assms foldl_scanByte_param [of collect rs1 rcs q] acc
    by (simp_all add: records_def scanEnd_def feed_scan)
qed

lemma records_Nil [simp]: "records rs [] = []" "scanEnd rs [] = rs"
  by (simp_all add: records_def scanEnd_def feed_def feedLoop_Nil)

text \<open>A TLS record as it appears on the wire: type, version, 16-bit length, body.\<close>

definition tlsBytes :: "byte \<times> byte \<times> byte \<times> bytes \<Rightarrow> bytes" where
  "tlsBytes x = (let (t, v1, v2, body) = x
     in [t, v1, v2, word_of_nat (length body div 256), word_of_nat (length body mod 256)] @ body)"

definition tlsReport :: "byte \<times> byte \<times> byte \<times> bytes \<Rightarrow> tlsrec" where
  "tlsReport x = (let (t, v1, v2, body) = x in (t, length body, if body = [] then 0 else hd body))"

lemma unat_byte: "n < 256 \<Longrightarrow> unat (word_of_nat n :: byte) = n"
  by (simp add: unat_of_nat take_bit_eq_mod)

lemma scan_one_record:
  assumes "\<not> broken rs" "hdr rs = []" "length body \<le> 0x4800"
  shows "\<exists>rs'. foldl (scanByte f) (rs, s) (tlsBytes (t, v1, v2, body))
    = (rs', f (tlsReport (t, v1, v2, body)) s) \<and> \<not> broken rs' \<and> hdr rs' = []"
proof -
  define h where "h = [t, v1, v2, word_of_nat (length body div 256), word_of_nat (length body mod 256)]"
  define rs2 where "rs2 = startRecord (rs\<lparr>hdr := h\<rparr>)"
  have len: "recLength rs2 = length body" "recType rs2 = t" "\<not> broken rs2" "length (hdr rs2) = 5"
    using assms by (simp_all add: rs2_def h_def startRecord_def unat_byte)
  have "length h = 5" by (simp add: h_def)
  then have hd: "foldl (scanByte f) (rs, s) h =
      (if length body = 0 then (resetForNext (initRecord rs2\<lparr>reported := True\<rparr>), f (t, 0, 0) s)
       else (initRecord rs2, s))"
    using scanByte_header_complete [of rs h f s] assms len rs2_def by (simp add: Let_def)
  have bytes: "tlsBytes (t, v1, v2, body) = h @ body" by (simp add: tlsBytes_def h_def)
  show ?thesis
  proof (cases body)
    case Nil
    then have "foldl (scanByte f) (rs, s) (tlsBytes (t, v1, v2, body)) =
        (resetForNext (initRecord rs2\<lparr>reported := True\<rparr>), f (tlsReport (t, v1, v2, body)) s)"
      using hd bytes by (simp add: tlsReport_def)
    with len show ?thesis by simp
  next
    case (Cons b bs)
    let ?rs4 = "initRecord rs2\<lparr>firstByte := b, gotFirst := True, reported := True\<rparr>"
    let ?rs5 = "?rs4\<lparr>bodyLeft := length bs\<rparr>"
    have first: "scanByte f (initRecord rs2, s) b =
        (if bs = [] then resetForNext ?rs5 else ?rs5, f (t, length body, b) s)"
      using len Cons by (simp add: scanByte_def Let_def)
    have "\<exists>rs'. foldl (scanByte f) (if bs = [] then resetForNext ?rs5 else ?rs5, f (t, length body, b) s) bs
        = (rs', f (t, length body, b) s) \<and> \<not> broken rs' \<and> hdr rs' = []"
      using scanByte_body [of ?rs5 bs f "f (t, length body, b) s"] len by (cases bs) (simp_all add: Let_def)
    moreover have "foldl (scanByte f) (rs, s) (tlsBytes (t, v1, v2, body)) =
        foldl (scanByte f) (if bs = [] then resetForNext ?rs5 else ?rs5, f (t, length body, b) s) bs"
      unfolding bytes foldl_append hd using first Cons by simp
    ultimately show ?thesis using Cons by (simp add: tlsReport_def)
  qed
qed

lemma scan_all_records:
  assumes "\<not> broken rs" "hdr rs = []" "\<forall>x \<in> set xs. length (snd (snd (snd x))) \<le> 0x4800"
  shows "\<exists>rs'. foldl (scanByte f) (rs, s) (concat (map tlsBytes xs))
    = (rs', foldl (\<lambda>s r. f r s) s (map tlsReport xs)) \<and> \<not> broken rs' \<and> hdr rs' = []"
  using assms
proof (induction xs arbitrary: rs s)
  case (Cons x xs)
  obtain t v1 v2 body where x: "x = (t, v1, v2, body)" by (metis prod_cases4)
  from scan_one_record [of rs body f s t v1 v2] Cons.prems x
  obtain rs1 where r1: "foldl (scanByte f) (rs, s) (tlsBytes x) = (rs1, f (tlsReport x) s)"
    "\<not> broken rs1" "hdr rs1 = []" by auto
  from Cons.IH [of rs1 "f (tlsReport x) s"] Cons.prems r1 show ?case by simp
qed simp

text \<open>
  On a well-formed stream of TLS records the scanner reports every record exactly
  once and in order, with its type, its length and its first body byte, and ends between records.
\<close>

theorem records_wellformed:
  assumes "\<forall>x \<in> set xs. length (snd (snd (snd x))) \<le> 0x4800"
  shows "records newScanner (concat (map tlsBytes xs)) = map tlsReport xs
    \<and> hdr (scanEnd newScanner (concat (map tlsBytes xs))) = []"
proof -
  have acc: "foldl (\<lambda>s r. collect r s) a ys = a @ ys" for a ys
    by (induction ys arbitrary: a) (simp_all add: collect_def)
  from scan_all_records [of newScanner xs collect "[]"] assms show ?thesis
    by (auto simp: records_def scanEnd_def feed_scan acc newScanner_def scan_ok_def)
qed

theorem records_wellformed_witness:
  "records newScanner (concat (map tlsBytes [(22, 3, 3, [1, 0]), (23, 3, 3, [])])) = [(22, 2, 1), (23, 0, 0)]"
  using records_wellformed [of "[(22, 3, 3, [1, 0]), (23, 3, 3, [])]"] by (simp add: tlsReport_def)

section \<open>The detector over a whole flow\<close>

text \<open>
  The two \<open>observe\<close> methods are called from different goroutines under the detector's mutex, so a
  flow is a sequence of observed chunks of either direction in any interleaving.
\<close>

datatype observation = Up bytes | Down bytes

fun observe :: "handshakeDetector \<Rightarrow> observation \<Rightarrow> handshakeDetector" where
  "observe d (Up p) = observeUplink p d"
| "observe d (Down p) = observeDownlink p d"

definition observeAll :: "handshakeDetector \<Rightarrow> observation list \<Rightarrow> handshakeDetector" where
  "observeAll d evs = foldl observe d evs"

fun upBytes :: "observation \<Rightarrow> bytes" where
  "upBytes (Up p) = p"
| "upBytes (Down p) = []"

fun downBytes :: "observation \<Rightarrow> bytes" where
  "downBytes (Up p) = []"
| "downBytes (Down p) = p"

definition ups :: "observation list \<Rightarrow> bytes" where "ups evs = concat (map upBytes evs)"
definition downs :: "observation list \<Rightarrow> bytes" where "downs evs = concat (map downBytes evs)"

lemma observeAll_simps [simp]:
  "observeAll d [] = d" "observeAll d (evs @ [e]) = observe (observeAll d evs) e"
  "observeAll d (e # evs) = observeAll (observe d e) evs"
  "observeAll d (evs @ evs') = observeAll (observeAll d evs) evs'"
  by (simp_all add: observeAll_def)

lemma ups_downs_simps [simp]:
  "ups [] = []" "ups (xs @ ys) = ups xs @ ups ys" "ups (e # xs) = upBytes e @ ups xs"
  "downs [] = []" "downs (xs @ ys) = downs xs @ downs ys" "downs (e # xs) = downBytes e @ downs xs"
  by (simp_all add: ups_def downs_def)

text \<open>What the detector takes for a ServerHello, and for a TLS 1.3 server flight after it.\<close>

definition is_server_hello :: "tlsrec \<Rightarrow> bool" where
  "is_server_hello r \<longleftrightarrow> fst r = 0x16 \<and> (snd (snd r) = 0x02 \<or> fst (snd r) = 0)"

definition tls13_evidence :: "tlsrec list \<Rightarrow> bool" where
  "tls13_evidence recs \<longleftrightarrow>
     (\<exists>pre sh r post. recs = pre @ sh # r # post \<and> is_server_hello sh \<and> fst r \<noteq> 0x16)"

text \<open>An uplink record was begun when the downlink had already shown a ServerHello.\<close>

definition client_responded :: "observation list \<Rightarrow> bool" where
  "client_responded evs \<longleftrightarrow>
     (\<exists>a b. evs = a @ b \<and> list_ex is_server_hello (records newScanner (downs a))
        \<and> length (records newScanner (ups a)) < length (records newScanner (ups evs)))"

definition handshake_complete :: "observation list \<Rightarrow> bool" where
  "handshake_complete evs \<longleftrightarrow> ups evs \<noteq> [] \<and> hd (ups evs) = 0x16
     \<and> tls13_evidence (records newScanner (downs evs)) \<and> client_responded evs"

lemma client_responded_append: "client_responded evs \<Longrightarrow> client_responded (evs @ xs)"
proof -
  assume "client_responded evs"
  then obtain a b where ab: "evs = a @ b" "list_ex is_server_hello (records newScanner (downs a))"
    "length (records newScanner (ups a)) < length (records newScanner (ups evs))"
    unfolding client_responded_def by blast
  have "length (records newScanner (ups evs)) \<le> length (records newScanner (ups (evs @ xs)))"
    unfolding ups_downs_simps by (simp add: records_append)
  with ab have "evs @ xs = a @ (b @ xs) \<and> list_ex is_server_hello (records newScanner (downs a))
      \<and> length (records newScanner (ups a)) < length (records newScanner (ups (evs @ xs)))" by simp
  then show ?thesis unfolding client_responded_def by blast
qed

text \<open>The record-level invariant of the downlink.\<close>

definition flight :: "handshakeDetector \<Rightarrow> tlsrec list \<Rightarrow> bool" where
  "flight d recs \<longleftrightarrow> (case dstate d of
      migDetectInit \<Rightarrow> serverFlightAfter d = 0 \<and> \<not> clientFlightAfter d
    | migDetectClientHello \<Rightarrow> serverFlightAfter d = 0 \<and> \<not> clientFlightAfter d
    | migDetectServerHello \<Rightarrow> (\<exists>pre sh rest. recs = pre @ sh # rest \<and> is_server_hello sh
        \<and> (\<forall>r \<in> set rest. fst r \<noteq> 0x16) \<and> length rest = serverFlightAfter d)
    | migDetectHandshakeDone \<Rightarrow> tls13_evidence recs \<and> clientFlightAfter d \<and> downlinkSinceDone d = 0
    | migDetectAborted \<Rightarrow> True
    | _ \<Rightarrow> False)"

lemma tls13_evidence_append: "tls13_evidence recs \<Longrightarrow> tls13_evidence (recs @ xs)"
  unfolding tls13_evidence_def by fastforce

lemma tls13_evidence_flight:
  assumes "is_server_hello sh" "\<forall>r \<in> set rest. fst r \<noteq> 0x16" "rest \<noteq> []"
  shows "tls13_evidence (pre @ sh # rest)"
proof -
  from assms(3) obtain r post where "rest = r # post" by (cases rest) auto
  with assms have "pre @ sh # rest = pre @ sh # r # post \<and> is_server_hello sh \<and> fst r \<noteq> 0x16" by simp
  then show ?thesis unfolding tls13_evidence_def by blast
qed

lemma flight_maybeHandshakeDone: "flight d recs \<Longrightarrow> flight (maybeHandshakeDone d) recs"
  by (auto simp: flight_def maybeHandshakeDone_def intro!: tls13_evidence_flight)

lemma flight_uplink: "flight d recs \<Longrightarrow> flight (onUplinkRecord rc d) recs"
  unfolding onUplinkRecord_def
  by (auto intro!: flight_maybeHandshakeDone) (auto simp: flight_def)

lemma flight_downlink:
  assumes "flight d recs"
  shows "flight (onDownlinkRecord rc d) (recs @ [rc])"
proof (cases "dstate d = migDetectServerHello \<and> fst rc \<noteq> 0x16")
  case True
  with assms obtain pre sh rest where "recs = pre @ sh # rest" "is_server_hello sh"
    "\<forall>r \<in> set rest. fst r \<noteq> 0x16" "length rest = serverFlightAfter d" by (auto simp: flight_def)
  with True have "recs @ [rc] = pre @ sh # (rest @ [rc]) \<and> is_server_hello sh
      \<and> (\<forall>r \<in> set (rest @ [rc]). fst r \<noteq> 0x16) \<and> length (rest @ [rc]) = serverFlightAfter d + 1"
    by simp
  then have "\<exists>pre sh rest. recs @ [rc] = pre @ sh # rest \<and> is_server_hello sh
      \<and> (\<forall>r \<in> set rest. fst r \<noteq> 0x16) \<and> length rest = serverFlightAfter d + 1" by blast
  with True have "flight (d\<lparr>serverFlightAfter := serverFlightAfter d + 1\<rparr>) (recs @ [rc])"
    by (simp add: flight_def)
  then have "flight (maybeHandshakeDone (d\<lparr>serverFlightAfter := serverFlightAfter d + 1\<rparr>)) (recs @ [rc])"
    by (rule flight_maybeHandshakeDone)
  with True show ?thesis by (auto simp: onDownlinkRecord_def Let_def split: prod.splits)
next
  case False
  with assms show ?thesis
    by (auto simp: onDownlinkRecord_def Let_def abort_def flight_def is_server_hello_def
        tls13_evidence_append split: prod.splits migDetectState.splits)
qed

lemma flight_downlinks:
  "flight d recs \<Longrightarrow> flight (foldl (\<lambda>d r. onDownlinkRecord r d) d rcs) (recs @ rcs)"
proof (induction rcs arbitrary: d recs)
  case (Cons r rcs)
  from Cons.IH [OF flight_downlink [OF Cons.prems, of r]] show ?case by simp
qed simp

lemma flight_uplinks: "flight d recs \<Longrightarrow> flight (foldl (\<lambda>d r. onUplinkRecord r d) d rcs) recs"
  by (induction rcs arbitrary: d) (auto simp: flight_uplink)

text \<open>The fields the record callbacks leave alone.\<close>

lemma onRecord_frame [simp]:
  "minBulk (onDownlinkRecord rc d) = minBulk d" "tlsOnly (onDownlinkRecord rc d) = tlsOnly d"
  "upScan (onDownlinkRecord rc d) = upScan d" "bulkBytes (onDownlinkRecord rc d) = bulkBytes d"
  "clientFlightAfter (onDownlinkRecord rc d) = clientFlightAfter d"
  "minBulk (onUplinkRecord rc d) = minBulk d" "tlsOnly (onUplinkRecord rc d) = tlsOnly d"
  "downScan (onUplinkRecord rc d) = downScan d" "bulkBytes (onUplinkRecord rc d) = bulkBytes d"
  by (auto simp: onDownlinkRecord_def onUplinkRecord_def maybeHandshakeDone_def abort_def Let_def
      split: prod.splits migDetectState.splits)

lemma onDownlinkRecord_Init_iff [simp]:
  "dstate (onDownlinkRecord rc d) = migDetectInit \<longleftrightarrow> dstate d = migDetectInit"
  "dstate (onUplinkRecord rc d) = migDetectInit \<longleftrightarrow> dstate d = migDetectInit"
  by (auto simp: onDownlinkRecord_def onUplinkRecord_def maybeHandshakeDone_def abort_def Let_def
      split: prod.splits migDetectState.splits)

lemma onRecords_frame [simp]:
  fixes d rcs
  defines "dn \<equiv> foldl (\<lambda>d r. onDownlinkRecord r d) d rcs"
    and "up \<equiv> foldl (\<lambda>d r. onUplinkRecord r d) d rcs"
  shows "minBulk dn = minBulk d" "tlsOnly dn = tlsOnly d" "upScan dn = upScan d"
    "bulkBytes dn = bulkBytes d" "clientFlightAfter dn = clientFlightAfter d"
    "(dstate dn = migDetectInit) = (dstate d = migDetectInit)"
    "minBulk up = minBulk d" "tlsOnly up = tlsOnly d" "downScan up = downScan d"
    "bulkBytes up = bulkBytes d" "(dstate up = migDetectInit) = (dstate d = migDetectInit)"
  unfolding dn_def up_def by (induction rcs arbitrary: d) simp_all

lemma scanUplink_eq:
  assumes "scan_ok (upScan d)"
  shows "scanUplink p d = (foldl (\<lambda>d r. onUplinkRecord r d) d (records (upScan d) p))
    \<lparr>upScan := scanEnd (upScan d) p\<rparr>"
  using assms by (simp add: scanUplink_def feed_records)

lemma scanDownlink_eq:
  assumes "scan_ok (downScan d)"
  shows "scanDownlink p d = (foldl (\<lambda>d r. onDownlinkRecord r d) d (records (downScan d) p))
    \<lparr>downScan := scanEnd (downScan d) p\<rparr>"
  using assms by (simp add: scanDownlink_def feed_records)

lemma flight_scan_update [simp]:
  "flight (d\<lparr>upScan := x\<rparr>) recs = flight d recs" "flight (d\<lparr>downScan := x\<rparr>) recs = flight d recs"
  by (simp_all add: flight_def cong: migDetectState.case_cong)

text \<open>
  The invariant of a run: what the detector has seen when it is in each of its states.
\<close>

definition scanning :: "observation list \<Rightarrow> handshakeDetector \<Rightarrow> bool" where
  "scanning evs d \<longleftrightarrow> upScan d = scanEnd newScanner (ups evs)
     \<and> downScan d = scanEnd newScanner (downs evs) \<and> bulkBytes d = 0
     \<and> flight d (records newScanner (downs evs)) \<and> (clientFlightAfter d \<longrightarrow> client_responded evs)"

definition tls_gate :: "observation list \<Rightarrow> int \<Rightarrow> bool" where
  "tls_gate evs m \<longleftrightarrow>
     (\<exists>e1 e2. evs = e1 @ e2 \<and> handshake_complete e1 \<and> m \<le> int (length (downs e2)))"

definition bulk_gate :: "observation list \<Rightarrow> int \<Rightarrow> bool" where
  "bulk_gate evs m \<longleftrightarrow> ups evs \<noteq> [] \<and> hd (ups evs) \<noteq> 0x16
     \<and> m \<le> int (length (ups evs) + length (downs evs))"

definition run_inv :: "observation list \<Rightarrow> handshakeDetector \<Rightarrow> bool" where
  "run_inv evs d \<longleftrightarrow> (case dstate d of
      migDetectInit \<Rightarrow> ups evs = [] \<and> scanning evs d
    | migDetectClientHello \<Rightarrow> ups evs \<noteq> [] \<and> hd (ups evs) = 0x16 \<and> scanning evs d
    | migDetectServerHello \<Rightarrow> ups evs \<noteq> [] \<and> hd (ups evs) = 0x16 \<and> scanning evs d
    | migDetectHandshakeDone \<Rightarrow> tls_gate evs (downlinkSinceDone d)
    | migDetectBulk \<Rightarrow> \<not> tlsOnly d \<and> bulk_gate evs (bulkBytes d)
    | migDetectReady \<Rightarrow> tls_gate evs (minBulk d) \<or> \<not> tlsOnly d \<and> bulk_gate evs (minBulk d)
    | migDetectAborted \<Rightarrow> True)"

lemma tls_gate_more: "tls_gate evs m \<Longrightarrow> tls_gate (evs @ [e]) (m + int (length (downBytes e)))"
proof -
  assume "tls_gate evs m"
  then obtain e1 e2 where "evs = e1 @ e2" "handshake_complete e1" "m \<le> int (length (downs e2))"
    unfolding tls_gate_def by blast
  then have "evs @ [e] = e1 @ (e2 @ [e]) \<and> handshake_complete e1
      \<and> m + int (length (downBytes e)) \<le> int (length (downs (e2 @ [e])))" by simp
  then show ?thesis unfolding tls_gate_def by blast
qed

lemma tls_gate_mono: "tls_gate evs m \<Longrightarrow> m' \<le> m \<Longrightarrow> tls_gate evs m'"
  unfolding tls_gate_def by (blast intro: order_trans)

lemma tls_gate_keep: "tls_gate evs m \<Longrightarrow> tls_gate (evs @ [e]) m"
  by (erule tls_gate_mono [OF tls_gate_more]) simp

lemma bulk_gate_more:
  "bulk_gate evs m \<Longrightarrow> bulk_gate (evs @ [e]) (m + int (length (upBytes e) + length (downBytes e)))"
  by (simp add: bulk_gate_def)

lemma bulk_gate_mono: "bulk_gate evs m \<Longrightarrow> m' \<le> m \<Longrightarrow> bulk_gate evs m'"
  by (simp add: bulk_gate_def)

lemma bulk_gate_keep: "bulk_gate evs m \<Longrightarrow> bulk_gate (evs @ [e]) m"
  by (erule bulk_gate_mono [OF bulk_gate_more]) simp

lemma run_inv_addBulk:
  assumes "\<not> tlsOnly d" "dstate d = migDetectBulk" "bulk_gate evs (bulkBytes d + int n)"
  shows "run_inv evs (addBulk n d)"
  using assms by (auto simp: addBulk_def run_inv_def Let_def intro: bulk_gate_mono)

text \<open>A scan leaves the detector scanning, aborted, or past the handshake with an empty gate.\<close>

lemma run_inv_scanning:
  assumes "scanning evs d" "ups evs \<noteq> []" "hd (ups evs) = 0x16" "dstate d \<noteq> migDetectInit"
  shows "run_inv evs d"
proof (cases "dstate d = migDetectHandshakeDone")
  case True
  with assms have "evs = evs @ [] \<and> handshake_complete evs \<and> downlinkSinceDone d \<le> int (length (downs []))"
    by (simp add: scanning_def flight_def handshake_complete_def)
  then have "tls_gate evs (downlinkSinceDone d)" unfolding tls_gate_def by blast
  with True show ?thesis by (simp add: run_inv_def)
next
  case False
  with assms show ?thesis
    by (auto simp: run_inv_def scanning_def flight_def split: migDetectState.splits)
qed

lemma scanning_downlink:
  assumes "scanning evs d"
  shows "scanning (evs @ [Down p]) (scanDownlink p d)"
proof -
  have ok: "scan_ok (downScan d)" using assms by (simp add: scanning_def scanEnd_ok)
  have "flight (foldl (\<lambda>d r. onDownlinkRecord r d) d (records (downScan d) p))
      (records newScanner (downs evs) @ records (downScan d) p)"
    using assms by (simp add: scanning_def flight_downlinks)
  with assms ok show ?thesis
    by (auto simp: scanning_def scanDownlink_eq records_append client_responded_append)
qed

lemma flight_server_hello:
  assumes "flight d recs" "dstate d = migDetectServerHello"
  shows "list_ex is_server_hello recs"
  using assms by (auto simp: flight_def)

lemma onUplinkRecord_client:
  assumes "clientFlightAfter (foldl (\<lambda>d r. onUplinkRecord r d) d rcs)" "\<not> clientFlightAfter d"
  shows "rcs \<noteq> [] \<and> dstate d = migDetectServerHello"
proof -
  have "foldl (\<lambda>d r. onUplinkRecord r d) d rcs = d" if "dstate d \<noteq> migDetectServerHello"
    using that by (induction rcs) (simp_all add: onUplinkRecord_def)
  with assms have "dstate d = migDetectServerHello" by metis
  moreover have "rcs \<noteq> []" using assms by auto
  ultimately show ?thesis by simp
qed

lemma scanning_uplink:
  assumes "scanning evs d"
  shows "scanning (evs @ [Up p]) (scanUplink p d)"
proof -
  let ?rcs = "records (upScan d) p"
  let ?d = "foldl (\<lambda>d r. onUplinkRecord r d) d ?rcs"
  have ok: "scan_ok (upScan d)" using assms by (simp add: scanning_def scanEnd_ok)
  have fl: "flight ?d (records newScanner (downs evs))"
    using assms by (simp add: scanning_def flight_uplinks)
  have "client_responded (evs @ [Up p])" if c: "clientFlightAfter ?d"
  proof (cases "clientFlightAfter d")
    case True
    with assms show ?thesis by (simp add: scanning_def client_responded_append)
  next
    case False
    from onUplinkRecord_client [OF c False] assms
    have "evs @ [Up p] = evs @ [Up p] \<and> list_ex is_server_hello (records newScanner (downs evs))
      \<and> length (records newScanner (ups evs)) < length (records newScanner (ups (evs @ [Up p])))"
      by (auto simp: scanning_def records_append intro!: flight_server_hello)
    then show ?thesis unfolding client_responded_def by blast
  qed
  with assms ok fl show ?thesis
    by (simp add: scanning_def scanUplink_eq records_append)
qed

lemma scan_Init_iff [simp]:
  "scan_ok (upScan d) \<Longrightarrow> dstate (scanUplink p d) = migDetectInit \<longleftrightarrow> dstate d = migDetectInit"
  "scan_ok (downScan d) \<Longrightarrow> dstate (scanDownlink p d) = migDetectInit \<longleftrightarrow> dstate d = migDetectInit"
  by (simp_all add: scanUplink_eq scanDownlink_eq)

lemma scanning_ok: "scanning evs d \<Longrightarrow> scan_ok (upScan d) \<and> scan_ok (downScan d)"
  by (simp add: scanning_def scanEnd_ok)

lemma scanDownlink_Init:
  assumes "scanning evs d" "dstate d = migDetectInit"
  shows "dstate (scanDownlink p d) = migDetectInit"
  using assms scanning_ok [OF assms(1)] by simp

lemma run_inv_downlink:
  assumes "run_inv evs d"
  shows "run_inv (evs @ [Down p]) (observeDownlink p d)"
proof (cases "dstate d")
  case migDetectInit
  with assms have s: "scanning evs d" "ups evs = []" by (simp_all add: run_inv_def)
  from scanning_downlink [OF s(1), of p] scanDownlink_Init [OF s(1) migDetectInit, of p] s(2)
  show ?thesis using migDetectInit by (simp add: observeDownlink_def run_inv_def)
next
  case migDetectClientHello
  with assms have s: "scanning evs d" "ups evs \<noteq> []" "hd (ups evs) = 0x16" by (simp_all add: run_inv_def)
  from run_inv_scanning [OF scanning_downlink [OF s(1), of p]] s scanning_ok [OF s(1)]
  show ?thesis using migDetectClientHello by (simp add: observeDownlink_def)
next
  case migDetectServerHello
  with assms have s: "scanning evs d" "ups evs \<noteq> []" "hd (ups evs) = 0x16" by (simp_all add: run_inv_def)
  from run_inv_scanning [OF scanning_downlink [OF s(1), of p]] s scanning_ok [OF s(1)]
  show ?thesis using migDetectServerHello by (simp add: observeDownlink_def)
next
  case migDetectHandshakeDone
  with assms tls_gate_more [of evs "downlinkSinceDone d" "Down p"]
  have g: "tls_gate (evs @ [Down p]) (downlinkSinceDone d + int (length p))" by (simp add: run_inv_def)
  with tls_gate_mono [OF g] migDetectHandshakeDone show ?thesis
    by (simp add: observeDownlink_def run_inv_def Let_def)
next
  case migDetectBulk
  with assms bulk_gate_more [of evs "bulkBytes d" "Down p"] show ?thesis
    by (simp add: observeDownlink_def run_inv_def [of evs] run_inv_addBulk)
next
  case migDetectReady
  with assms show ?thesis
    by (auto simp: observeDownlink_def run_inv_def tls_gate_keep bulk_gate_keep)
next
  case migDetectAborted
  then show ?thesis by (simp add: observeDownlink_def run_inv_def)
qed

lemma scanning_ClientHello:
  "scanning evs d \<Longrightarrow> dstate d = migDetectInit \<Longrightarrow> scanning evs (d\<lparr>dstate := migDetectClientHello\<rparr>)"
  by (simp add: scanning_def flight_def)

lemma run_inv_uplink:
  assumes "run_inv evs d"
  shows "run_inv (evs @ [Up p]) (observeUplink p d)"
proof (cases "dstate d")
  case migDetectInit
  with assms have s: "scanning evs d" "ups evs = []" by (simp_all add: run_inv_def)
  note s' = scanning_ClientHello [OF s(1) migDetectInit]
  consider "p = []" | "p \<noteq> []" "p ! 0 \<noteq> 0x16" "tlsOnly d" | "p \<noteq> []" "p ! 0 \<noteq> 0x16" "\<not> tlsOnly d"
    | "p \<noteq> []" "p ! 0 = 0x16" by blast
  then show ?thesis
  proof cases
    case 1
    with s migDetectInit show ?thesis
      by (simp add: observeUplink_def run_inv_def scanning_def client_responded_append)
  next
    case 2
    with migDetectInit show ?thesis by (simp add: observeUplink_def run_inv_def abort_def)
  next
    case 3
    with s have "bulk_gate (evs @ [Up p]) (bulkBytes d + int (length p))"
      by (simp add: bulk_gate_def scanning_def hd_conv_nth)
    with 3 migDetectInit show ?thesis by (simp add: observeUplink_def run_inv_addBulk)
  next
    case 4
    with run_inv_scanning [OF scanning_uplink [OF s', of p]] s(2) scanning_ok [OF s'] migDetectInit
    show ?thesis by (simp add: observeUplink_def hd_conv_nth)
  qed
next
  case migDetectClientHello
  with assms have s: "scanning evs d" "ups evs \<noteq> []" "hd (ups evs) = 0x16" by (simp_all add: run_inv_def)
  from run_inv_scanning [OF scanning_uplink [OF s(1), of p]] s scanning_ok [OF s(1)]
  show ?thesis using migDetectClientHello by (simp add: observeUplink_def)
next
  case migDetectServerHello
  with assms have s: "scanning evs d" "ups evs \<noteq> []" "hd (ups evs) = 0x16" by (simp_all add: run_inv_def)
  from run_inv_scanning [OF scanning_uplink [OF s(1), of p]] s scanning_ok [OF s(1)]
  show ?thesis using migDetectServerHello by (simp add: observeUplink_def)
next
  case migDetectBulk
  with assms bulk_gate_more [of evs "bulkBytes d" "Up p"] show ?thesis
    by (simp add: observeUplink_def run_inv_def [of evs] run_inv_addBulk)
qed (use assms in \<open>auto simp: observeUplink_def run_inv_def tls_gate_keep bulk_gate_keep\<close>)

lemma addBulk_frame [simp]: "minBulk (addBulk n d) = minBulk d" "tlsOnly (addBulk n d) = tlsOnly d"
  by (simp_all add: addBulk_def Let_def)

lemma onRecords_config:
  "minBulk (scanUplink p d) = minBulk d" "tlsOnly (scanUplink p d) = tlsOnly d"
  "minBulk (scanDownlink p d) = minBulk d" "tlsOnly (scanDownlink p d) = tlsOnly d"
  if "scan_ok (upScan d)" "scan_ok (downScan d)"
  using that by (simp_all add: scanUplink_eq scanDownlink_eq)

lemma run_inv_ok:
  assumes "run_inv evs d" "dstate d \<in> {migDetectInit, migDetectClientHello, migDetectServerHello}"
  shows "scan_ok (upScan d)" "scan_ok (downScan d)"
  using assms by (auto simp: run_inv_def scanning_ok)

lemma observe_config:
  assumes "run_inv evs d"
  shows "minBulk (observe d e) = minBulk d \<and> tlsOnly (observe d e) = tlsOnly d"
proof (cases e)
  case (Up p)
  with assms run_inv_ok [OF assms] show ?thesis
    by (cases "dstate d") (simp_all add: observeUplink_def onRecords_config abort_def)
next
  case (Down p)
  with assms run_inv_ok [OF assms] show ?thesis
    by (cases "dstate d") (simp_all add: observeDownlink_def onRecords_config Let_def)
qed

lemma run_inv_new: "run_inv [] (newHandshakeDetector n\<lparr>tlsOnly := t\<rparr>)"
  by (simp add: newHandshakeDetector_def run_inv_def scanning_def flight_def)

lemma run_inv_observeAll:
  fixes n t
  defines "d0 \<equiv> newHandshakeDetector n\<lparr>tlsOnly := t\<rparr>"
  shows "run_inv evs (observeAll d0 evs) \<and> minBulk (observeAll d0 evs) = resolveMinBulk n
    \<and> tlsOnly (observeAll d0 evs) = t"
proof (induction evs rule: rev_induct)
  case Nil
  then show ?case using run_inv_new [where n = n and t = t] by (simp add: d0_def newHandshakeDetector_def)
next
  case (snoc e evs)
  then have inv: "run_inv evs (observeAll d0 evs)" by simp
  have "run_inv (evs @ [e]) (observe (observeAll d0 evs) e)"
    using run_inv_uplink [OF inv] run_inv_downlink [OF inv] by (cases e) auto
  with snoc observe_config [OF inv, of e] show ?case by simp
qed

text \<open>
  Property C7.  A cut-over is authorised only on evidence.  Whatever chunks of the two directions are
  observed in whatever interleaving, a detector that is \<open>Ready\<close> has either seen a complete TLS 1.3
  handshake (the uplink starts with a handshake record, the downlink shows a ServerHello directly
  followed by a record that is not a cleartext handshake record, and an uplink record was begun after
  the ServerHello) followed by at least the bulk gate's number of downlink bytes, or, outside tls-only mode, it relays
  an opaque flow of at least the gate's volume.  The gate is never below 2048 bytes.
\<close>

theorem detector_ready_sound:
  assumes "Ready (observeAll (newHandshakeDetector n\<lparr>tlsOnly := t\<rparr>) evs)"
  shows "(tls_gate evs (resolveMinBulk n) \<or> \<not> t \<and> bulk_gate evs (resolveMinBulk n)) \<and> 2048 \<le> resolveMinBulk n"
  using assms run_inv_observeAll [where evs = evs and n = n and t = t]
  by (auto simp: run_inv_def Ready_def resolveMinBulk_def)

lemma opaque_flow_ready:
  assumes "b \<noteq> 0x16" "resolveMinBulk n \<le> 1 + int (length p)"
  shows "Ready (observeAll (newHandshakeDetector n) [Up (b # p)])"
  using assms by (simp add: observeUplink_def newHandshakeDetector_def addBulk_def Ready_def Let_def)

theorem detector_ready_sound_witness:
  "bulk_gate [Up (0x17 # replicate 4095 0)] (resolveMinBulk 4096)
   \<or> tls_gate [Up (0x17 # replicate 4095 0)] (resolveMinBulk 4096)"
proof -
  have "newHandshakeDetector 4096\<lparr>tlsOnly := False\<rparr> = newHandshakeDetector 4096"
    by (simp add: newHandshakeDetector_def)
  then show ?thesis
    using detector_ready_sound [where n = 4096 and t = False and evs = "[Up (0x17 # replicate 4095 0)]"]
      opaque_flow_ready [where b = "0x17" and n = 4096 and p = "replicate 4095 0"]
    by (auto simp: resolveMinBulk_def)
qed

text \<open>
  A verdict is final: once the detector is \<open>Ready\<close> or \<open>Aborted\<close>, no later traffic
  changes anything in it.
\<close>

theorem detector_verdict_final:
  assumes "Ready d \<or> Aborted d"
  shows "observeAll d evs = d"
proof (induction evs)
  case (Cons e evs)
  moreover have "observe d e = d"
    using assms by (cases e) (auto simp: Ready_def Aborted_def observeUplink_def observeDownlink_def)
  ultimately show ?case by simp
qed simp

theorem detector_verdict_final_witness:
  "Aborted (observeAll (abort (newHandshakeDetector 0)) [Up [1, 2], Down [3]])"
  using detector_verdict_final [of "abort (newHandshakeDetector 0)" "[Up [1, 2], Down [3]]"]
  by (simp add: Aborted_def abort_def)

text \<open>Scanning whole records from a scanner that stands between two records.\<close>

definition fits :: "(byte \<times> byte \<times> byte \<times> bytes) list \<Rightarrow> bool" where
  "fits xs \<longleftrightarrow> (\<forall>x \<in> set xs. length (snd (snd (snd x))) \<le> 0x4800)"

abbreviation wireRecords :: "(byte \<times> byte \<times> byte \<times> bytes) list \<Rightarrow> bytes" where
  "wireRecords xs \<equiv> concat (map tlsBytes xs)"

definition between :: "recordScanner \<Rightarrow> bool" where
  "between rs \<longleftrightarrow> \<not> broken rs \<and> hdr rs = []"

lemma between_ok [simp]: "between rs \<Longrightarrow> scan_ok rs"
  by (simp add: between_def scan_ok_def)

lemma between_new [simp]: "between newScanner"
  by (simp add: between_def newScanner_def)

lemma records_between:
  assumes "between rs" "fits xs"
  shows "records rs (wireRecords xs) = map tlsReport xs" "between (scanEnd rs (wireRecords xs))"
proof -
  have acc: "foldl (\<lambda>s r. collect r s) a ys = a @ ys" for a ys
    by (induction ys arbitrary: a) (simp_all add: collect_def)
  from scan_all_records [of rs xs collect "[]"] assms
  show "records rs (wireRecords xs) = map tlsReport xs" "between (scanEnd rs (wireRecords xs))"
    by (auto simp: records_def scanEnd_def feed_scan acc between_def scan_ok_def fits_def)
qed

lemma scanUplink_records:
  assumes "between (upScan d)" "fits xs"
  shows "\<exists>u. scanUplink (wireRecords xs) d =
      foldl (\<lambda>d r. onUplinkRecord r d) d (map tlsReport xs)\<lparr>upScan := u\<rparr> \<and> between u"
  using assms records_between [OF assms] by (auto simp: scanUplink_eq)

lemma scanDownlink_records:
  assumes "between (downScan d)" "fits xs"
  shows "\<exists>u. scanDownlink (wireRecords xs) d =
      foldl (\<lambda>d r. onDownlinkRecord r d) d (map tlsReport xs)\<lparr>downScan := u\<rparr> \<and> between u"
  using assms records_between [OF assms] by (auto simp: scanDownlink_eq)

lemma onUplinkRecords_ClientHello:
  "dstate d = migDetectClientHello \<Longrightarrow> foldl (\<lambda>d r. onUplinkRecord r d) d rcs = d"
  by (induction rcs) (simp_all add: onUplinkRecord_def)

lemma onDownlinkRecords_flight:
  assumes "dstate d = migDetectServerHello" "\<not> clientFlightAfter d" "\<forall>r \<in> set rcs. fst r \<noteq> 0x16"
  shows "foldl (\<lambda>d r. onDownlinkRecord r d) d rcs
    = d\<lparr>serverFlightAfter := serverFlightAfter d + length rcs\<rparr>"
  using assms
proof (induction rcs arbitrary: d)
  case (Cons r rcs)
  then have "onDownlinkRecord r d = d\<lparr>serverFlightAfter := serverFlightAfter d + 1\<rparr>"
    by (auto simp: onDownlinkRecord_def maybeHandshakeDone_def split: prod.splits)
  with Cons show ?case by simp
qed simp

text \<open>The ClientHello, then the ServerHello and a flight of other records, in two chunks.\<close>

lemma hello_exchange:
  assumes "fits ch" "ch \<noteq> []" "fst (hd ch) = 0x16"
    and "fits (sh # fl)" "is_server_hello (tlsReport sh)" "\<forall>x \<in> set fl. fst x \<noteq> 0x16"
  shows "\<exists>u v. observeAll (newHandshakeDetector n\<lparr>tlsOnly := t\<rparr>) [Up (wireRecords ch), Down (wireRecords (sh # fl))]
    = (newHandshakeDetector n)\<lparr>tlsOnly := t, dstate := migDetectServerHello, serverHelloSeen := True,
         serverFlightAfter := length fl, upScan := u, downScan := v\<rparr> \<and> between u \<and> between v"
proof -
  let ?d0 = "newHandshakeDetector n\<lparr>tlsOnly := t\<rparr>"
  let ?d1 = "?d0\<lparr>dstate := migDetectClientHello\<rparr>"
  obtain t0 v1 v2 body ch' where ch: "ch = (t0, v1, v2, body) # ch'" using assms(2) by (cases ch) auto
  have first: "wireRecords ch \<noteq> []" "wireRecords ch ! 0 = 0x16"
    using assms(3) ch by (simp_all add: tlsBytes_def)
  have b0: "between (upScan ?d1)" "between (downScan ?d1)" by (simp_all add: newHandshakeDetector_def)
  obtain u where u: "scanUplink (wireRecords ch) ?d1 = ?d1\<lparr>upScan := u\<rparr>" "between u"
    using scanUplink_records [OF b0(1) assms(1)] onUplinkRecords_ClientHello [of ?d1] by auto
  have o1: "observeUplink (wireRecords ch) ?d0 = ?d1\<lparr>upScan := u\<rparr>"
    using first u(1) by (simp add: observeUplink_def newHandshakeDetector_def)
  let ?d2 = "?d1\<lparr>upScan := u\<rparr>"
  let ?d3 = "?d2\<lparr>dstate := migDetectServerHello, serverHelloSeen := True\<rparr>"
  have sh: "onDownlinkRecord (tlsReport sh) ?d2 = ?d3"
    using assms(5) by (auto simp: onDownlinkRecord_def is_server_hello_def split: prod.splits)
  have fl: "\<forall>r \<in> set (map tlsReport fl). fst r \<noteq> 0x16"
    using assms(6) by (auto simp: tlsReport_def)
  have "foldl (\<lambda>d r. onDownlinkRecord r d) ?d2 (map tlsReport (sh # fl))
      = ?d3\<lparr>serverFlightAfter := length fl\<rparr>"
    using onDownlinkRecords_flight [of ?d3, OF _ _ fl] sh by (simp add: newHandshakeDetector_def)
  moreover have "between (downScan ?d2)" using b0 by simp
  note scanDownlink_records [OF this assms(4)]
  ultimately obtain v where "scanDownlink (wireRecords (sh # fl)) ?d2
      = ?d3\<lparr>serverFlightAfter := length fl, downScan := v\<rparr>" "between v" by auto
  with o1 have "observeAll ?d0 [Up (wireRecords ch), Down (wireRecords (sh # fl))]
      = (newHandshakeDetector n)\<lparr>tlsOnly := t, dstate := migDetectServerHello, serverHelloSeen := True,
         serverFlightAfter := length fl, upScan := u, downScan := v\<rparr>"
    by (simp add: observeDownlink_def newHandshakeDetector_def)
  with u(2) \<open>between v\<close> show ?thesis by blast
qed





end
