(* ===== verification/SkipList.thy ===== *)
theory SkipList
  imports Prelude "HOL-Library.Monad_Syntax"
begin

text \<open>
  \<open>skiplist/skiplist.go\<close>, \<open>skiplist/skiplist_newnode.go\<close> and \<open>skiplist/types.go\<close>: the skip list
  behind the client's pool of idle sessions, on an explicit heap of nodes.  A node is an address, a
  \<open>nil\<close> pointer is \<open>None\<close>; a nil dereference, an index out of range or a \<open>panic\<close> makes an operation
  \<open>None\<close>, and so does a search that never ends on a cyclic list.  Both key comparisons of the source,
  the ordered one and the one by a comparison function, are modelled behind the same interface.
  The scratch array \<open>prevsCache\<close> is a local of the model: every search writes the entries it returns.
\<close>

section \<open>The structure\<close>

definition skipListMaxLevel :: nat where [simp]: "skipListMaxLevel = 40"

record ('k, 'v) skipListNode =
  nd_key :: 'k
  nd_value :: 'v
  nd_next :: "nat option list"

datatype 'k skipListImpl = skipListOrdered | skipListFunc "'k \<Rightarrow> 'k \<Rightarrow> int"

record ('k, 'v) SkipList =
  sl_level :: nat
  sl_len :: int
  sl_head :: "nat option list"
  sl_heap :: "nat \<Rightarrow> ('k, 'v) skipListNode option"
  sl_fresh :: nat
  sl_impl :: "'k skipListImpl"

text \<open>A node the code can hold in \<open>prev\<close>: the embedded head or an allocated node.\<close>

datatype slptr = Head | Nd nat

definition index :: "'a list \<Rightarrow> nat \<Rightarrow> 'a option" where
  "index xs i = (if i < length xs then Some (xs ! i) else None)"

fun next_of :: "('k, 'v) SkipList \<Rightarrow> slptr \<Rightarrow> nat \<Rightarrow> nat option option" where
  "next_of sl Head i = index (sl_head sl) i"
| "next_of sl (Nd a) i = do { n \<leftarrow> sl_heap sl a; index (nd_next n) i }"

fun set_next :: "('k, 'v) SkipList \<Rightarrow> slptr \<Rightarrow> nat \<Rightarrow> nat option \<Rightarrow> ('k, 'v) SkipList option" where
  "set_next sl Head i v =
     (if i < length (sl_head sl) then Some (sl\<lparr>sl_head := (sl_head sl)[i := v]\<rparr>) else None)"
| "set_next sl (Nd a) i v = do {
     n \<leftarrow> sl_heap sl a;
     if i < length (nd_next n)
     then Some (sl\<lparr>sl_heap := (sl_heap sl)(a \<mapsto> n\<lparr>nd_next := (nd_next n)[i := v]\<rparr>)\<rparr>)
     else None }"

definition initList :: "'k skipListImpl \<Rightarrow> ('k, 'v) SkipList" where
  "initList im = \<lparr>sl_level = 1, sl_len = 0, sl_head = replicate skipListMaxLevel None,
     sl_heap = Map.empty, sl_fresh = 0, sl_impl = im\<rparr>"

definition NewSkipList :: "('k, 'v) SkipList" where
  "NewSkipList = initList skipListOrdered"

definition NewSkipListFunc :: "('k \<Rightarrow> 'k \<Rightarrow> int) \<Rightarrow> ('k, 'v) SkipList" where
  "NewSkipListFunc keyCmp = initList (skipListFunc keyCmp)"

definition OrderedCompare :: "'k::linorder \<Rightarrow> 'k \<Rightarrow> int" where
  "OrderedCompare a b = (if a < b then -1 else if a > b then 1 else 0)"

definition Equals :: "'k \<Rightarrow> 'k \<Rightarrow> bool" where
  "Equals a b \<longleftrightarrow> a = b"

definition Less :: "'k::linorder \<Rightarrow> 'k \<Rightarrow> bool" where
  "Less a b \<longleftrightarrow> a < b"

text \<open>The three-way comparison agrees with the two others, and reverses with its arguments.\<close>

lemma OrderedCompare_cases:
  "OrderedCompare a b = - 1 \<longleftrightarrow> Less a b" "OrderedCompare a b = 0 \<longleftrightarrow> Equals a b" "OrderedCompare a b = 1 \<longleftrightarrow> Less b a"
  "OrderedCompare a b = - OrderedCompare b a"
  by (auto simp: OrderedCompare_def Less_def Equals_def)

definition IsEmpty :: "('k, 'v) SkipList \<Rightarrow> bool" where
  "IsEmpty sl \<longleftrightarrow> sl_len sl = 0"

definition Len :: "('k, 'v) SkipList \<Rightarrow> int" where
  "Len sl = sl_len sl"

definition Clear :: "('k, 'v) SkipList \<Rightarrow> ('k, 'v) SkipList" where
  "Clear sl = sl\<lparr>sl_head := map (\<lambda>_. None) (sl_head sl), sl_level := 1, sl_len := 0\<rparr>"

section \<open>Searching\<close>

text \<open>
  What the inner loop of a search does at a node: return it, leave the loop, or move on.
  The four inner loops of the source differ only in this decision.
\<close>

datatype scanAct = Found | Stop | Go

definition ordAct :: "'k::linorder \<Rightarrow> 'k \<Rightarrow> scanAct" where
  "ordAct key k = (if k = key then Found else if k > key then Stop else Go)"

definition ordPrevAct :: "'k::linorder \<Rightarrow> 'k \<Rightarrow> scanAct" where
  "ordPrevAct key k = (if k \<ge> key then Stop else Go)"

definition cmpAct :: "('k \<Rightarrow> 'k \<Rightarrow> int) \<Rightarrow> 'k \<Rightarrow> 'k \<Rightarrow> scanAct" where
  "cmpAct keyCmp key k = (let r = keyCmp k key in if r = 0 then Found else if r > 0 then Stop else Go)"

definition cmpPrevAct :: "('k \<Rightarrow> 'k \<Rightarrow> int) \<Rightarrow> 'k \<Rightarrow> 'k \<Rightarrow> scanAct" where
  "cmpPrevAct keyCmp key k = (if keyCmp k key \<ge> 0 then Stop else Go)"

partial_function (option) scanLevel ::
    "('k \<Rightarrow> scanAct) \<Rightarrow> ('k, 'v) SkipList \<Rightarrow> nat \<Rightarrow> slptr \<Rightarrow> nat option \<Rightarrow> (nat + slptr) option" where
  "scanLevel act sl i prev cur =
     (case cur of
        None \<Rightarrow> Some (Inr prev)
      | Some a \<Rightarrow> do {
          n \<leftarrow> sl_heap sl a;
          case act (nd_key n) of
            Found \<Rightarrow> Some (Inl a)
          | Stop \<Rightarrow> Some (Inr prev)
          | Go \<Rightarrow> do { nxt \<leftarrow> next_of sl (Nd a) i; scanLevel act sl i (Nd a) nxt } })"

text \<open>The outer loop, from level \<open>i - 1\<close> down to 0; \<open>prevs\<close> collects the predecessors.\<close>

primrec walk ::
    "('k \<Rightarrow> scanAct) \<Rightarrow> ('k, 'v) SkipList \<Rightarrow> nat \<Rightarrow> slptr \<Rightarrow> slptr list \<Rightarrow> (nat + slptr \<times> slptr list) option" where
  "walk act sl 0 prev prevs = Some (Inr (prev, prevs))"
| "walk act sl (Suc i) prev prevs = do {
     cur \<leftarrow> next_of sl prev i;
     r \<leftarrow> scanLevel act sl i prev cur;
     case r of
       Inl a \<Rightarrow> Some (Inl a)
     | Inr prev \<Rightarrow> walk act sl i prev (prev # prevs) }"

definition doFindNode :: "('k::linorder, 'v) SkipList \<Rightarrow> 'k \<Rightarrow> bool \<Rightarrow> nat option option" where
  "doFindNode sl key eq = do {
     r \<leftarrow> walk (ordAct key) sl (sl_level sl) Head [];
     case r of
       Inl a \<Rightarrow> Some (Some a)
     | Inr (prev, _) \<Rightarrow> if eq then Some None else next_of sl prev 0 }"

definition funcLowerBound :: "('k \<Rightarrow> 'k \<Rightarrow> int) \<Rightarrow> ('k, 'v) SkipList \<Rightarrow> 'k \<Rightarrow> nat option option" where
  "funcLowerBound keyCmp sl key = do {
     r \<leftarrow> walk (cmpAct keyCmp key) sl (sl_level sl) Head [];
     case r of
       Inl a \<Rightarrow> Some (Some a)
     | Inr (prev, _) \<Rightarrow> next_of sl prev 0 }"

definition funcFindNode :: "('k \<Rightarrow> 'k \<Rightarrow> int) \<Rightarrow> ('k, 'v) SkipList \<Rightarrow> 'k \<Rightarrow> nat option option" where
  "funcFindNode keyCmp sl key = do {
     node \<leftarrow> funcLowerBound keyCmp sl key;
     case node of
       None \<Rightarrow> Some None
     | Some a \<Rightarrow> do { n \<leftarrow> sl_heap sl a; if keyCmp (nd_key n) key = 0 then Some (Some a) else Some None } }"

definition lowerBound :: "('k::linorder, 'v) SkipList \<Rightarrow> 'k \<Rightarrow> nat option option" where
  "lowerBound sl key = (case sl_impl sl of
      skipListOrdered \<Rightarrow> doFindNode sl key False
    | skipListFunc keyCmp \<Rightarrow> funcLowerBound keyCmp sl key)"

definition findNode :: "('k::linorder, 'v) SkipList \<Rightarrow> 'k \<Rightarrow> nat option option" where
  "findNode sl key = (case sl_impl sl of
      skipListOrdered \<Rightarrow> doFindNode sl key True
    | skipListFunc keyCmp \<Rightarrow> funcFindNode keyCmp sl key)"

text \<open>\<open>node.key == key\<close> of the two implementations.\<close>

definition sameKey :: "('k::linorder, 'v) SkipList \<Rightarrow> 'k \<Rightarrow> 'k \<Rightarrow> bool" where
  "sameKey sl k key = (case sl_impl sl of
      skipListOrdered \<Rightarrow> k = key
    | skipListFunc keyCmp \<Rightarrow> keyCmp k key = 0)"

definition upperBound :: "('k::linorder, 'v) SkipList \<Rightarrow> 'k \<Rightarrow> nat option option" where
  "upperBound sl key = do {
     node \<leftarrow> lowerBound sl key;
     case node of
       None \<Rightarrow> Some None
     | Some a \<Rightarrow> do {
         n \<leftarrow> sl_heap sl a;
         if sameKey sl (nd_key n) key then next_of sl (Nd a) 0 else Some (Some a) } }"

definition findInsertPoint ::
    "('k::linorder, 'v) SkipList \<Rightarrow> 'k \<Rightarrow> (nat option \<times> slptr list) option" where
  "findInsertPoint sl key =
     (if sl_level sl > skipListMaxLevel then None
      else do {
        r \<leftarrow> walk (case sl_impl sl of skipListOrdered \<Rightarrow> ordAct key | skipListFunc keyCmp \<Rightarrow> cmpAct keyCmp key)
               sl (sl_level sl) Head [];
        case r of
          Inl a \<Rightarrow> Some (Some a, [])
        | Inr (_, prevs) \<Rightarrow> Some (None, prevs) })"

definition findPrevNodes :: "('k::linorder, 'v) SkipList \<Rightarrow> 'k \<Rightarrow> slptr list option" where
  "findPrevNodes sl key =
     (if sl_level sl > skipListMaxLevel then None
      else do {
        r \<leftarrow> walk (case sl_impl sl of skipListOrdered \<Rightarrow> ordPrevAct key
                    | skipListFunc keyCmp \<Rightarrow> cmpPrevAct keyCmp key)
               sl (sl_level sl) Head [];
        case r of
          Inl a \<Rightarrow> None
        | Inr (_, prevs) \<Rightarrow> Some prevs })"

definition findRemovePoint ::
    "('k::linorder, 'v) SkipList \<Rightarrow> 'k \<Rightarrow> (nat option \<times> slptr list) option" where
  "findRemovePoint sl key = do {
     prevs \<leftarrow> findPrevNodes sl key;
     p \<leftarrow> index prevs 0;
     node \<leftarrow> next_of sl p 0;
     case node of
       None \<Rightarrow> Some (None, [])
     | Some a \<Rightarrow> do {
         n \<leftarrow> sl_heap sl a;
         if \<not> sameKey sl (nd_key n) key then Some (None, []) else Some (Some a, prevs) } }"

section \<open>Operations\<close>

definition Find :: "('k::linorder, 'v) SkipList \<Rightarrow> 'k \<Rightarrow> 'v option option" where
  "Find sl key = do {
     node \<leftarrow> findNode sl key;
     case node of
       None \<Rightarrow> Some None
     | Some a \<Rightarrow> do { n \<leftarrow> sl_heap sl a; Some (Some (nd_value n)) } }"

definition Has :: "('k::linorder, 'v) SkipList \<Rightarrow> 'k \<Rightarrow> bool option" where
  "Has sl key = do { node \<leftarrow> findNode sl key; Some (node \<noteq> None) }"

text \<open>\<open>bits.Len64\<close>: the number of bits needed to represent a value.\<close>

fun bitLen :: "nat \<Rightarrow> nat" where
  "bitLen n = (if n = 0 then 0 else Suc (bitLen (n div 2)))"

fun limitLevel :: "int \<Rightarrow> nat \<Rightarrow> nat" where
  "limitLevel len level =
     (if level > 3 \<and> 2 ^ (level - 3) > len then limitLevel len (level - 1) else level)"

definition randomLevel :: "('k, 'v) SkipList \<Rightarrow> rand \<Rightarrow> nat \<times> rand" where
  "randomLevel sl r =
     (let total = 2 ^ skipListMaxLevel - 1;
          (u, r) = randUint64 r;
          k = unat u mod total;
          level = skipListMaxLevel - bitLen k + 1
      in (limitLevel (sl_len sl) level, r))"

text \<open>The generated constructor has one case per level from 1 to 40 and panics otherwise.\<close>

definition newSkipListNode :: "nat \<Rightarrow> 'k \<Rightarrow> 'v \<Rightarrow> ('k, 'v) skipListNode option" where
  "newSkipListNode level key value =
     (if 1 \<le> level \<and> level \<le> skipListMaxLevel
      then Some \<lparr>nd_key = key, nd_value = value, nd_next = replicate level None\<rparr>
      else None)"

primrec linkNode :: "nat \<Rightarrow> slptr list \<Rightarrow> nat list \<Rightarrow> ('k, 'v) SkipList \<Rightarrow> ('k, 'v) SkipList option" where
  "linkNode a prevs [] sl = Some sl"
| "linkNode a prevs (i # is) sl = do {
     p \<leftarrow> index prevs i;
     nxt \<leftarrow> next_of sl p i;
     sl \<leftarrow> set_next sl (Nd a) i nxt;
     sl \<leftarrow> set_next sl p i (Some a);
     linkNode a prevs is sl }"

primrec linkHead :: "nat \<Rightarrow> nat list \<Rightarrow> ('k, 'v) SkipList \<Rightarrow> ('k, 'v) SkipList option" where
  "linkHead a [] sl = Some sl"
| "linkHead a (i # is) sl = do { sl \<leftarrow> set_next sl Head i (Some a); linkHead a is sl }"

definition Insert ::
    "'k::linorder \<Rightarrow> 'v \<Rightarrow> ('k, 'v) SkipList \<Rightarrow> rand \<Rightarrow> (('k, 'v) SkipList \<times> rand) option" where
  "Insert key value sl r = do {
     (node, prevs) \<leftarrow> findInsertPoint sl key;
     case node of
       Some a \<Rightarrow> do {
         n \<leftarrow> sl_heap sl a;
         Some (sl\<lparr>sl_heap := (sl_heap sl)(a \<mapsto> n\<lparr>nd_value := value\<rparr>)\<rparr>, r) }
     | None \<Rightarrow> do {
         let (level, r) = randomLevel sl r;
         n \<leftarrow> newSkipListNode level key value;
         let a = sl_fresh sl;
         let sl = sl\<lparr>sl_heap := (sl_heap sl)(a \<mapsto> n), sl_fresh := a + 1\<rparr>;
         let minLevel = (if sl_level sl < level then sl_level sl else level);
         sl \<leftarrow> linkNode a prevs [0..<minLevel] sl;
         sl \<leftarrow> (if level > sl_level sl
               then do { sl \<leftarrow> linkHead a [sl_level sl..<level] sl; Some (sl\<lparr>sl_level := level\<rparr>) }
               else Some sl);
         Some (sl\<lparr>sl_len := sl_len sl + 1\<rparr>, r) } }"

primrec unlinkNode :: "nat \<Rightarrow> slptr list \<Rightarrow> nat list \<Rightarrow> ('k, 'v) SkipList \<Rightarrow> ('k, 'v) SkipList option" where
  "unlinkNode a prevs [] sl = Some sl"
| "unlinkNode a prevs (i # is) sl = do {
     v \<leftarrow> next_of sl (Nd a) i;
     p \<leftarrow> index prevs i;
     sl \<leftarrow> set_next sl p i v;
     unlinkNode a prevs is sl }"

fun shrinkLevel :: "('k, 'v) SkipList \<Rightarrow> nat \<Rightarrow> nat option" where
  "shrinkLevel sl level =
     (if level > 1
      then do { h \<leftarrow> next_of sl Head (level - 1);
                if h = None then shrinkLevel sl (level - 1) else Some level }
      else Some level)"

definition Remove :: "'k::linorder \<Rightarrow> ('k, 'v) SkipList \<Rightarrow> (bool \<times> ('k, 'v) SkipList) option" where
  "Remove key sl = do {
     (node, prevs) \<leftarrow> findRemovePoint sl key;
     case node of
       None \<Rightarrow> Some (False, sl)
     | Some a \<Rightarrow> do {
         n \<leftarrow> sl_heap sl a;
         sl \<leftarrow> unlinkNode a prevs [0..<length (nd_next n)] sl;
         level \<leftarrow> shrinkLevel sl (sl_level sl);
         Some (True, sl\<lparr>sl_level := level, sl_len := sl_len sl - 1\<rparr>) } }"

text \<open>\<open>NewSkipListFromMap\<close>, with the map's pairs in the order the iteration visits them.\<close>

fun insertAll :: "('k::linorder \<times> 'v) list \<Rightarrow> ('k, 'v) SkipList \<Rightarrow> rand \<Rightarrow> (('k, 'v) SkipList \<times> rand) option" where
  "insertAll [] sl r = Some (sl, r)"
| "insertAll ((k, v) # kvs) sl r = do { (sl, r) \<leftarrow> Insert k v sl r; insertAll kvs sl r }"

definition NewSkipListFromMap :: "('k::linorder \<times> 'v) list \<Rightarrow> rand \<Rightarrow> (('k, 'v) SkipList \<times> rand) option" where
  "NewSkipListFromMap m r = insertAll m NewSkipList r"

section \<open>Iteration\<close>

record skipListIterator =
  it_node :: "nat option"
  it_end :: "nat option"

definition Iterate :: "('k, 'v) SkipList \<Rightarrow> skipListIterator option" where
  "Iterate sl = do { n \<leftarrow> next_of sl Head 0; Some \<lparr>it_node = n, it_end = None\<rparr> }"

definition IsNotEnd :: "skipListIterator \<Rightarrow> bool" where
  "IsNotEnd it \<longleftrightarrow> it_node it \<noteq> it_end it"

definition MoveToNext :: "('k, 'v) SkipList \<Rightarrow> skipListIterator \<Rightarrow> skipListIterator option" where
  "MoveToNext sl it = do { a \<leftarrow> it_node it; n \<leftarrow> next_of sl (Nd a) 0; Some (it\<lparr>it_node := n\<rparr>) }"

definition Key :: "('k, 'v) SkipList \<Rightarrow> skipListIterator \<Rightarrow> 'k option" where
  "Key sl it = do { a \<leftarrow> it_node it; n \<leftarrow> sl_heap sl a; Some (nd_key n) }"

definition Value :: "('k, 'v) SkipList \<Rightarrow> skipListIterator \<Rightarrow> 'v option" where
  "Value sl it = do { a \<leftarrow> it_node it; n \<leftarrow> sl_heap sl a; Some (nd_value n) }"

definition LowerBound :: "('k::linorder, 'v) SkipList \<Rightarrow> 'k \<Rightarrow> skipListIterator option" where
  "LowerBound sl key = do { n \<leftarrow> lowerBound sl key; Some \<lparr>it_node = n, it_end = None\<rparr> }"

definition UpperBound :: "('k::linorder, 'v) SkipList \<Rightarrow> 'k \<Rightarrow> skipListIterator option" where
  "UpperBound sl key = do { n \<leftarrow> upperBound sl key; Some \<lparr>it_node = n, it_end = None\<rparr> }"

definition FindRange :: "('k::linorder, 'v) SkipList \<Rightarrow> 'k \<Rightarrow> 'k \<Rightarrow> skipListIterator option" where
  "FindRange sl first final = do {
     lo \<leftarrow> lowerBound sl first;
     hi \<leftarrow> upperBound sl final;
     Some \<lparr>it_node = lo, it_end = hi\<rparr> }"

text \<open>
  The callback of \<open>ForEachMutableIf\<close> gets the key and the value, and answers with the value it
  leaves in the node, its own new state and whether to go on.
\<close>

partial_function (option) forEachLoop ::
    "('k \<Rightarrow> 'v \<Rightarrow> 's \<Rightarrow> 'v \<times> 's \<times> bool) \<Rightarrow> nat option \<Rightarrow> ('k, 'v) SkipList \<Rightarrow> 's
      \<Rightarrow> (('k, 'v) SkipList \<times> 's) option" where
  "forEachLoop op e sl s =
     (case e of
        None \<Rightarrow> Some (sl, s)
      | Some a \<Rightarrow> do {
          n \<leftarrow> sl_heap sl a;
          let (v, s, cont) = op (nd_key n) (nd_value n) s;
          let sl = sl\<lparr>sl_heap := (sl_heap sl)(a \<mapsto> n\<lparr>nd_value := v\<rparr>)\<rparr>;
          if \<not> cont then Some (sl, s)
          else do { nxt \<leftarrow> next_of sl (Nd a) 0; forEachLoop op nxt sl s } })"

definition ForEachMutableIf :: "('k \<Rightarrow> 'v \<Rightarrow> 's \<Rightarrow> 'v \<times> 's \<times> bool) \<Rightarrow> ('k, 'v) SkipList \<Rightarrow> 's
    \<Rightarrow> (('k, 'v) SkipList \<times> 's) option" where
  "ForEachMutableIf op sl s = do { e \<leftarrow> next_of sl Head 0; forEachLoop op e sl s }"

definition ForEachMutable :: "('k \<Rightarrow> 'v \<Rightarrow> 's \<Rightarrow> 'v \<times> 's) \<Rightarrow> ('k, 'v) SkipList \<Rightarrow> 's
    \<Rightarrow> (('k, 'v) SkipList \<times> 's) option" where
  "ForEachMutable op = ForEachMutableIf (\<lambda>k v s. let (v', s') = op k v s in (v', s', True))"

definition ForEachIf :: "('k \<Rightarrow> 'v \<Rightarrow> 's \<Rightarrow> 's \<times> bool) \<Rightarrow> ('k, 'v) SkipList \<Rightarrow> 's
    \<Rightarrow> (('k, 'v) SkipList \<times> 's) option" where
  "ForEachIf op = ForEachMutableIf (\<lambda>k v s. let (s', c) = op k v s in (v, s', c))"

definition ForEach :: "('k \<Rightarrow> 'v \<Rightarrow> 's \<Rightarrow> 's) \<Rightarrow> ('k, 'v) SkipList \<Rightarrow> 's
    \<Rightarrow> (('k, 'v) SkipList \<times> 's) option" where
  "ForEach op = ForEachMutableIf (\<lambda>k v s. (v, op k v s, True))"

declare bitLen.simps [simp del] limitLevel.simps [simp del] shrinkLevel.simps [simp del]

end
