(* ===== verification/SkipList_Links.thy ===== *)
theory SkipList_Links
  imports SkipList
begin

text \<open>
  The linked structure of the skip list: the list of one level, the effect of the pointer updates,
  the invariant of the whole structure, and that every search of \<open>skiplist/skiplist.go\<close> finds the
  place of its key.
\<close>

declare next_of.simps [simp del] set_next.simps [simp del]

section \<open>Linked lists of one level\<close>

text \<open>
  \<open>path sl i p as\<close>: following the pointers of level \<open>i\<close> from \<open>p\<close> visits exactly the nodes \<open>as\<close>.
\<close>

fun path :: "('k, 'v) SkipList \<Rightarrow> nat \<Rightarrow> slptr \<Rightarrow> nat list \<Rightarrow> bool" where
  "path sl i p [] \<longleftrightarrow> next_of sl p i = Some None"
| "path sl i p (a # as) \<longleftrightarrow> next_of sl p i = Some (Some a) \<and> path sl i (Nd a) as"

fun endp :: "slptr \<Rightarrow> nat list \<Rightarrow> slptr" where
  "endp p [] = p"
| "endp p (a # as) = endp (Nd a) as"

lemma endp_append [simp]: "endp p (as @ bs) = endp (endp p as) bs"
  by (induction as arbitrary: p) simp_all

lemma endp_in: "endp p as = p \<or> endp p as \<in> Nd ` set as"
  by (induction as arbitrary: p) auto

lemma path_append: "path sl i p (as @ bs) \<Longrightarrow> path sl i (endp p as) bs"
  by (induction as arbitrary: p) auto

lemma path_next: "path sl i p as \<Longrightarrow> next_of sl p i = Some (case as of [] \<Rightarrow> None | a # _ \<Rightarrow> Some a)"
  by (cases as) simp_all

lemma path_cong:
  assumes "path sl i p as" "\<And>q. q = p \<or> q \<in> Nd ` set as \<Longrightarrow> next_of sl' q i = next_of sl q i"
  shows "path sl' i p as"
  using assms by (induction as arbitrary: p) auto

lemma path_from:
  assumes "path sl i p as" "next_of sl' p' i = next_of sl p i"
    and "\<And>a. a \<in> set as \<Longrightarrow> next_of sl' (Nd a) i = next_of sl (Nd a) i"
  shows "path sl' i p' as"
proof (cases as)
  case (Cons a as')
  have "path sl' i (Nd a) as'"
  proof (rule path_cong)
    show "path sl i (Nd a) as'" using assms(1) Cons by simp
    show "next_of sl' q i = next_of sl q i" if "q = Nd a \<or> q \<in> Nd ` set as'" for q
      using that assms(3) Cons by auto
  qed
  with assms Cons show ?thesis by simp
qed (use assms in simp)

lemma path_insert:
  assumes "path sl i p (as @ bs)" "distinct (as @ bs)" "p \<notin> Nd ` set (as @ bs)"
    and "next_of sl' (endp p as) i = Some (Some a)" "next_of sl' (Nd a) i = next_of sl (endp p as) i"
    and "\<And>q. q \<noteq> endp p as \<Longrightarrow> q = p \<or> q \<in> Nd ` set (as @ bs) \<Longrightarrow> next_of sl' q i = next_of sl q i"
  shows "path sl' i p (as @ a # bs)"
  using assms
proof (induction as arbitrary: p)
  case Nil
  have "next_of sl' (Nd b) i = next_of sl (Nd b) i" if "b \<in> set bs" for b
    using that Nil.prems(3) Nil.prems(6) [of "Nd b"] by auto
  with Nil have "path sl' i (Nd a) bs" by (intro path_from [of sl i p bs sl' "Nd a"]) auto
  with Nil show ?case by simp
next
  case (Cons b as)
  have "endp (Nd b) as \<noteq> p" using endp_in [of "Nd b" as] Cons.prems(3) by auto
  then have "next_of sl' p i = Some (Some b)" using Cons.prems(1) Cons.prems(6) [of p] by auto
  moreover have "path sl' i (Nd b) (as @ a # bs)"
    using Cons.prems by (intro Cons.IH) auto
  ultimately show ?case by simp
qed

lemma path_remove:
  assumes "path sl i p (as @ a # bs)" "distinct (as @ a # bs)" "p \<notin> Nd ` set (as @ a # bs)"
    and "next_of sl' (endp p as) i = next_of sl (Nd a) i"
    and "\<And>q. q \<noteq> endp p as \<Longrightarrow> q = p \<or> q \<in> Nd ` set (as @ bs) \<Longrightarrow> next_of sl' q i = next_of sl q i"
  shows "path sl' i p (as @ bs)"
  using assms
proof (induction as arbitrary: p)
  case Nil
  have "next_of sl' (Nd b) i = next_of sl (Nd b) i" if "b \<in> set bs" for b
    using that Nil.prems(3) Nil.prems(5) [of "Nd b"] by auto
  with Nil have "path sl' i p bs" by (intro path_from [of sl i "Nd a" bs sl' p]) auto
  then show ?case by simp
next
  case (Cons b as)
  have "endp (Nd b) as \<noteq> p" using endp_in [of "Nd b" as] Cons.prems(3) by auto
  then have "next_of sl' p i = Some (Some b)" using Cons.prems(1) Cons.prems(5) [of p] by auto
  moreover have "path sl' i (Nd b) (as @ bs)"
    using Cons.prems by (intro Cons.IH) auto
  ultimately show ?case by simp
qed

section \<open>Effects of the pointer updates\<close>

definition keyOf :: "('k, 'v) SkipList \<Rightarrow> nat \<Rightarrow> 'k" where
  "keyOf sl a = nd_key (the (sl_heap sl a))"

definition valueOf :: "('k, 'v) SkipList \<Rightarrow> nat \<Rightarrow> 'v" where
  "valueOf sl a = nd_value (the (sl_heap sl a))"

fun height :: "('k, 'v) SkipList \<Rightarrow> slptr \<Rightarrow> nat" where
  "height sl Head = length (sl_head sl)"
| "height sl (Nd a) = (case sl_heap sl a of None \<Rightarrow> 0 | Some n \<Rightarrow> length (nd_next n))"

lemma height_Nd: "sl_heap sl a = Some n \<Longrightarrow> height sl (Nd a) = length (nd_next n)"
  by simp

lemma next_of_defined: "next_of sl p i \<noteq> None \<longleftrightarrow> i < height sl p"
  by (cases p) (auto simp: next_of.simps index_def split: option.splits)

lemma next_of_Some: "i < height sl p \<Longrightarrow> \<exists>v. next_of sl p i = Some v"
  using next_of_defined [of sl p i] by auto

declare height.simps [simp del]

text \<open>Two lists that differ only in their links.\<close>

definition same_nodes :: "('k, 'v) SkipList \<Rightarrow> ('k, 'v) SkipList \<Rightarrow> bool" where
  "same_nodes sl sl' \<longleftrightarrow> sl_level sl' = sl_level sl \<and> sl_len sl' = sl_len sl \<and> sl_fresh sl' = sl_fresh sl
     \<and> sl_impl sl' = sl_impl sl \<and> dom (sl_heap sl') = dom (sl_heap sl)
     \<and> (\<forall>p. height sl' p = height sl p) \<and> (\<forall>a. keyOf sl' a = keyOf sl a) \<and> (\<forall>a. valueOf sl' a = valueOf sl a)"

lemma same_nodes_refl [simp]: "same_nodes sl sl"
  by (simp add: same_nodes_def)

lemma same_nodes_trans: "same_nodes a b \<Longrightarrow> same_nodes b c \<Longrightarrow> same_nodes a c"
  by (simp add: same_nodes_def)

lemma set_next_Some:
  assumes "i < height sl p"
  shows "\<exists>sl'. set_next sl p i v = Some sl' \<and> same_nodes sl sl'
    \<and> (\<forall>q j. next_of sl' q j = (if q = p \<and> j = i then Some v else next_of sl q j))"
proof (cases p)
  case Head
  let ?sl' = "sl\<lparr>sl_head := (sl_head sl)[i := v]\<rparr>"
  have "next_of ?sl' q j = (if q = p \<and> j = i then Some v else next_of sl q j)" for q j
    using assms Head by (cases q) (auto simp: next_of.simps height.simps index_def)
  moreover have "height ?sl' q = height sl q" for q by (cases q) (simp_all add: height.simps)
  ultimately show ?thesis using assms Head
    by (auto simp: same_nodes_def keyOf_def valueOf_def set_next.simps height.simps(1))
next
  case (Nd a)
  with assms obtain n where n: "sl_heap sl a = Some n" "i < length (nd_next n)"
    by (auto simp: height.simps split: option.splits)
  let ?sl' = "sl\<lparr>sl_heap := (sl_heap sl)(a \<mapsto> n\<lparr>nd_next := (nd_next n)[i := v]\<rparr>)\<rparr>"
  have "next_of ?sl' q j = (if q = p \<and> j = i then Some v else next_of sl q j)" for q j
    using n Nd by (cases q) (auto simp: next_of.simps index_def)
  moreover have "height ?sl' q = height sl q" for q using n by (cases q) (auto simp: height.simps)
  moreover have "set_next sl p i v = Some ?sl'" using n Nd by (simp add: set_next.simps)
  moreover have "same_nodes sl ?sl'"
    using n calculation(2) by (auto simp: same_nodes_def keyOf_def valueOf_def)
  ultimately show ?thesis by blast
qed

lemma linkNode_Some:
  assumes "distinct is" "\<forall>i \<in> set is. i < length prevs \<and> i < height sl (prevs ! i)
      \<and> i < height sl (Nd a) \<and> prevs ! i \<noteq> Nd a"
  shows "\<exists>sl'. linkNode a prevs is sl = Some sl' \<and> same_nodes sl sl'
    \<and> (\<forall>q j. next_of sl' q j =
          (if j \<in> set is \<and> q = Nd a then next_of sl (prevs ! j) j
           else if j \<in> set is \<and> q = prevs ! j then Some (Some a)
           else next_of sl q j))"
  using assms
proof (induction "is" arbitrary: sl)
  case (Cons i "is")
  let ?p = "prevs ! i"
  have i: "i < length prevs" "i < height sl ?p" "i < height sl (Nd a)" "?p \<noteq> Nd a"
    using Cons.prems by auto
  obtain nxt where nxt: "next_of sl ?p i = Some nxt" using next_of_Some [OF i(2)] by blast
  obtain sl1 where s1: "set_next sl (Nd a) i nxt = Some sl1" "same_nodes sl sl1"
    "\<forall>q j. next_of sl1 q j = (if q = Nd a \<and> j = i then Some nxt else next_of sl q j)"
    using set_next_Some [OF i(3)] by blast
  have "i < height sl1 ?p" using s1(2) i(2) by (simp add: same_nodes_def)
  then obtain sl2 where s2: "set_next sl1 ?p i (Some a) = Some sl2" "same_nodes sl1 sl2"
    "\<forall>q j. next_of sl2 q j = (if q = ?p \<and> j = i then Some (Some a) else next_of sl1 q j)"
    using set_next_Some by blast
  have sn: "same_nodes sl sl2" using s1(2) s2(2) same_nodes_trans by blast
  then have "\<forall>i \<in> set is. i < length prevs \<and> i < height sl2 (prevs ! i)
      \<and> i < height sl2 (Nd a) \<and> prevs ! i \<noteq> Nd a"
    using Cons.prems(2) by (simp add: same_nodes_def)
  then obtain sl' where s': "linkNode a prevs is sl2 = Some sl'" "same_nodes sl2 sl'"
    "\<forall>q j. next_of sl' q j =
          (if j \<in> set is \<and> q = Nd a then next_of sl2 (prevs ! j) j
           else if j \<in> set is \<and> q = prevs ! j then Some (Some a)
           else next_of sl2 q j)"
    using Cons.IH [of sl2] Cons.prems(1) by auto
  have "linkNode a prevs (i # is) sl = Some sl'"
    using i(1) nxt s1(1) s2(1) s'(1) by (simp add: index_def)
  moreover have "next_of sl' q j =
          (if j \<in> set (i # is) \<and> q = Nd a then next_of sl (prevs ! j) j
           else if j \<in> set (i # is) \<and> q = prevs ! j then Some (Some a)
           else next_of sl q j)" for q j
    using Cons.prems(1) i(4) s1(3) s2(3) s'(3) nxt by auto
  ultimately show ?case using sn s'(2) same_nodes_trans by blast
qed simp

lemma linkHead_Some:
  assumes "\<forall>i \<in> set is. i < height sl Head"
  shows "\<exists>sl'. linkHead a is sl = Some sl' \<and> same_nodes sl sl'
    \<and> (\<forall>q j. next_of sl' q j = (if j \<in> set is \<and> q = Head then Some (Some a) else next_of sl q j))"
  using assms
proof (induction "is" arbitrary: sl)
  case (Cons i "is")
  then have "i < height sl Head" by simp
  from set_next_Some [OF this, of "Some a"] obtain sl1 where
    s1: "set_next sl Head i (Some a) = Some sl1" "same_nodes sl sl1"
    "\<forall>q j. next_of sl1 q j = (if q = Head \<and> j = i then Some (Some a) else next_of sl q j)" by blast
  have "\<forall>i \<in> set is. i < height sl1 Head" using Cons.prems s1(2) by (simp add: same_nodes_def)
  from Cons.IH [OF this] obtain sl' where s': "linkHead a is sl1 = Some sl'" "same_nodes sl1 sl'"
    "\<forall>q j. next_of sl' q j = (if j \<in> set is \<and> q = Head then Some (Some a) else next_of sl1 q j)" by blast
  have "linkHead a (i # is) sl = Some sl'" using s1(1) s'(1) by simp
  moreover have "next_of sl' q j = (if j \<in> set (i # is) \<and> q = Head then Some (Some a) else next_of sl q j)" for q j
    using s1(3) s'(3) by auto
  ultimately show ?case using s1(2) s'(2) same_nodes_trans by blast
qed simp

lemma unlinkNode_Some:
  assumes "distinct is" "\<forall>i \<in> set is. i < length prevs \<and> i < height sl (prevs ! i)
      \<and> i < height sl (Nd a) \<and> prevs ! i \<noteq> Nd a"
  shows "\<exists>sl'. unlinkNode a prevs is sl = Some sl' \<and> same_nodes sl sl'
    \<and> (\<forall>q j. next_of sl' q j =
          (if j \<in> set is \<and> q = prevs ! j then next_of sl (Nd a) j else next_of sl q j))"
  using assms
proof (induction "is" arbitrary: sl)
  case (Cons i "is")
  let ?p = "prevs ! i"
  have i: "i < length prevs" "i < height sl ?p" "i < height sl (Nd a)" "?p \<noteq> Nd a"
    using Cons.prems by auto
  obtain v where v: "next_of sl (Nd a) i = Some v" using next_of_Some [OF i(3)] by blast
  obtain sl1 where s1: "set_next sl ?p i v = Some sl1" "same_nodes sl sl1"
    "\<forall>q j. next_of sl1 q j = (if q = ?p \<and> j = i then Some v else next_of sl q j)"
    using set_next_Some [OF i(2)] by blast
  have "\<forall>i \<in> set is. i < length prevs \<and> i < height sl1 (prevs ! i)
      \<and> i < height sl1 (Nd a) \<and> prevs ! i \<noteq> Nd a"
    using Cons.prems(2) s1(2) by (simp add: same_nodes_def)
  then obtain sl' where s': "unlinkNode a prevs is sl1 = Some sl'" "same_nodes sl1 sl'"
    "\<forall>q j. next_of sl' q j =
          (if j \<in> set is \<and> q = prevs ! j then next_of sl1 (Nd a) j else next_of sl1 q j)"
    using Cons.IH [of sl1] Cons.prems(1) by auto
  have "unlinkNode a prevs (i # is) sl = Some sl'"
    using i(1) v s1(1) s'(1) by (simp add: index_def)
  moreover have "next_of sl' q j =
          (if j \<in> set (i # is) \<and> q = prevs ! j then next_of sl (Nd a) j else next_of sl q j)" for q j
    using Cons.prems(1) i(4) s1(3) s'(3) v by auto
  ultimately show ?case using s1(2) s'(2) same_nodes_trans by blast
qed simp

section \<open>The invariant\<close>

text \<open>
  The nodes \<open>ns\<close> of the bottom level, strictly sorted by key; level \<open>i\<close> links exactly those whose
  tower is higher than \<open>i\<close>.
\<close>

definition levelNodes :: "('k, 'v) SkipList \<Rightarrow> nat list \<Rightarrow> nat \<Rightarrow> nat list" where
  "levelNodes sl ns i = filter (\<lambda>a. i < height sl (Nd a)) ns"

definition cmp_ok :: "('k::linorder) skipListImpl \<Rightarrow> bool" where
  "cmp_ok im \<longleftrightarrow> (case im of
      skipListOrdered \<Rightarrow> True
    | skipListFunc c \<Rightarrow> \<forall>a b. (c a b < 0 \<longleftrightarrow> a < b) \<and> (c a b = 0 \<longleftrightarrow> a = b))"

definition sl_inv :: "('k::linorder, 'v) SkipList \<Rightarrow> nat list \<Rightarrow> bool" where
  "sl_inv sl ns \<longleftrightarrow> cmp_ok (sl_impl sl)
     \<and> 1 \<le> sl_level sl \<and> sl_level sl \<le> skipListMaxLevel \<and> length (sl_head sl) = skipListMaxLevel
     \<and> sl_len sl = int (length ns)
     \<and> sorted_wrt (<) (map (keyOf sl) ns)
     \<and> (\<forall>a \<in> set ns. a < sl_fresh sl \<and> 1 \<le> height sl (Nd a) \<and> height sl (Nd a) \<le> sl_level sl)
     \<and> (\<forall>i < skipListMaxLevel. path sl i Head (levelNodes sl ns i))
     \<and> (\<forall>a. sl_heap sl a \<noteq> None \<longrightarrow> a < sl_fresh sl)"

lemma sl_inv_distinct: "sl_inv sl ns \<Longrightarrow> distinct ns"
  using strict_sorted_iff [of "map (keyOf sl) ns"] by (auto simp: sl_inv_def distinct_map)

lemma sl_inv_node:
  assumes "sl_inv sl ns" "a \<in> set ns"
  shows "\<exists>n. sl_heap sl a = Some n \<and> nd_key n = keyOf sl a \<and> nd_value n = valueOf sl a"
proof -
  have "0 < height sl (Nd a)" using assms by (auto simp: sl_inv_def)
  then show ?thesis by (auto simp: height.simps keyOf_def valueOf_def split: option.splits)
qed

lemma initList_inv: "cmp_ok im \<Longrightarrow> sl_inv (initList im) []"
  by (simp add: sl_inv_def initList_def levelNodes_def next_of.simps index_def)

text \<open>The nodes of level \<open>i\<close> with keys below, and not below, a given key.\<close>

definition low :: "('k::linorder, 'v) SkipList \<Rightarrow> nat list \<Rightarrow> 'k \<Rightarrow> nat \<Rightarrow> nat list" where
  "low sl ns key i = filter (\<lambda>a. keyOf sl a < key) (levelNodes sl ns i)"

definition high :: "('k::linorder, 'v) SkipList \<Rightarrow> nat list \<Rightarrow> 'k \<Rightarrow> nat \<Rightarrow> nat list" where
  "high sl ns key i = filter (\<lambda>a. \<not> keyOf sl a < key) (levelNodes sl ns i)"

lemma sorted_split:
  fixes f :: "'a \<Rightarrow> 'k::linorder"
  assumes "sorted_wrt (<) (map f xs)"
  shows "xs = filter (\<lambda>x. f x < k) xs @ filter (\<lambda>x. \<not> f x < k) xs"
  using assms
proof (induction xs)
  case (Cons x xs)
  show ?case
  proof (cases "f x < k")
    case False
    then have "filter (\<lambda>x. f x < k) xs = []" using Cons.prems by (auto simp: filter_empty_conv)
    with False Cons show ?thesis by auto
  qed (use Cons in auto)
qed simp

lemma sorted_split_le:
  fixes f :: "'a \<Rightarrow> 'k::linorder"
  assumes "sorted_wrt (<) (map f xs)"
  shows "xs = filter (\<lambda>x. f x \<le> k) xs @ filter (\<lambda>x. k < f x) xs"
  using assms
proof (induction xs)
  case (Cons x xs)
  show ?case
  proof (cases "f x \<le> k")
    case False
    then have "filter (\<lambda>x. f x \<le> k) xs = []" using Cons.prems by (auto simp: filter_empty_conv)
    with False Cons show ?thesis by (auto simp: filter_empty_conv)
  qed (use Cons in auto)
qed simp

lemma levelNodes_sorted: "sl_inv sl ns \<Longrightarrow> sorted_wrt (<) (map (keyOf sl) (levelNodes sl ns i))"
  by (simp add: sl_inv_def levelNodes_def sorted_wrt_map sorted_wrt_filter)

lemma levelNodes_split: "sl_inv sl ns \<Longrightarrow> levelNodes sl ns i = low sl ns key i @ high sl ns key i"
  unfolding low_def high_def by (rule sorted_split [OF levelNodes_sorted])

lemma sl_inv_height:
  "sl_inv sl ns \<Longrightarrow> a \<in> set ns \<Longrightarrow> 1 \<le> height sl (Nd a) \<and> height sl (Nd a) \<le> sl_level sl"
  by (simp add: sl_inv_def)

lemma sl_inv_path: "sl_inv sl ns \<Longrightarrow> i < skipListMaxLevel \<Longrightarrow> path sl i Head (levelNodes sl ns i)"
  by (simp add: sl_inv_def)

lemma path_low:
  assumes "sl_inv sl ns" "i < skipListMaxLevel"
  shows "path sl i (endp Head (low sl ns key i)) (high sl ns key i)"
  using sl_inv_path [OF assms] path_append levelNodes_split [OF assms(1), of i key] by metis

section \<open>Searching finds the place of a key\<close>

text \<open>A decision that moves on exactly below \<open>key\<close>.\<close>

definition cuts :: "('k::linorder \<Rightarrow> scanAct) \<Rightarrow> 'k \<Rightarrow> bool" where
  "cuts act key \<longleftrightarrow> (\<forall>k. (act k = Go \<longleftrightarrow> k < key) \<and> (act k = Found \<longrightarrow> k = key))"

lemma cuts_acts [simp]: "cuts (ordAct key) key" "cuts (ordPrevAct key) key"
  by (auto simp: cuts_def ordAct_def ordPrevAct_def)

lemma cmpAct_ordAct:
  assumes "cmp_ok (skipListFunc c)"
  shows "cmpAct c = ordAct" "cmpPrevAct c = ordPrevAct"
proof -
  have c: "c k key < 0 \<longleftrightarrow> k < key" "c k key = 0 \<longleftrightarrow> k = key" for k key using assms by (simp_all add: cmp_ok_def)
  have c': "c k key > 0 \<longleftrightarrow> k > key" for k key using c [of k key] by (auto simp: not_less_iff_gr_or_eq)
  show "cmpAct c = ordAct" by (intro ext) (simp add: cmpAct_def ordAct_def c c' Let_def)
  show "cmpPrevAct c = ordPrevAct"
  proof (intro ext)
    fix key k
    show "cmpPrevAct c key k = ordPrevAct key k"
      using c(1) [of k key] by (auto simp: cmpPrevAct_def ordPrevAct_def)
  qed
qed

lemma cmp_ok_OrderedCompare: "cmp_ok (skipListFunc OrderedCompare)"
  by (auto simp: cmp_ok_def OrderedCompare_def)

lemma scanLevel_None: "scanLevel act sl i prev None = Some (Inr prev)"
  by (subst scanLevel.simps) simp

lemma scanLevel_Some:
  "sl_heap sl a = Some n \<Longrightarrow> scanLevel act sl i prev (Some a) =
     (case act (nd_key n) of
        Found \<Rightarrow> Some (Inl a)
      | Stop \<Rightarrow> Some (Inr prev)
      | Go \<Rightarrow> do { nxt \<leftarrow> next_of sl (Nd a) i; scanLevel act sl i (Nd a) nxt })"
  by (subst scanLevel.simps) simp

text \<open>What a scan answers when it stops in front of the nodes \<open>hs\<close> with \<open>p\<close> as predecessor.\<close>

definition scanned :: "('k \<Rightarrow> scanAct) \<Rightarrow> ('k, 'v) SkipList \<Rightarrow> nat list \<Rightarrow> slptr \<Rightarrow> nat + slptr" where
  "scanned act sl hs p =
     (case hs of [] \<Rightarrow> Inr p | a # _ \<Rightarrow> if act (keyOf sl a) = Found then Inl a else Inr p)"

lemma scanned_found: "act (keyOf sl a) = Found \<Longrightarrow> scanned act sl (a # hs) p = Inl a"
  by (simp add: scanned_def)

lemma scanned_stop: "\<forall>a \<in> set hs. act (keyOf sl a) \<noteq> Found \<Longrightarrow> scanned act sl hs p = Inr p"
  by (simp add: scanned_def split: list.split)

lemma scanLevel_path:
  assumes "cuts act key" "path sl i p as" "next_of sl p i = Some cur"
    and "\<forall>a \<in> set as. \<exists>n. sl_heap sl a = Some n \<and> nd_key n = keyOf sl a"
  shows "scanLevel act sl i p cur =
    Some (scanned act sl (dropWhile (\<lambda>a. keyOf sl a < key) as)
      (endp p (takeWhile (\<lambda>a. keyOf sl a < key) as)))"
  using assms(2-)
proof (induction as arbitrary: p cur)
  case Nil
  then show ?case by (simp add: scanLevel_None scanned_def)
next
  case (Cons a as)
  then have cur: "cur = Some a" by simp
  obtain n where n: "sl_heap sl a = Some n" "nd_key n = keyOf sl a" using Cons.prems by auto
  show ?case
  proof (cases "keyOf sl a < key")
    case True
    then have go: "act (keyOf sl a) = Go" using assms(1) by (simp add: cuts_def)
    obtain nxt where nxt: "next_of sl (Nd a) i = Some nxt" using Cons.prems(1) path_next by fastforce
    with Cons True go cur n show ?thesis by (simp add: scanLevel_Some)
  next
    case False
    with assms(1) have "act (keyOf sl a) \<noteq> Go" by (simp add: cuts_def)
    with False cur n show ?thesis
      by (cases "act (keyOf sl a)") (simp_all add: scanLevel_Some scanned_def)
  qed
qed

lemma set_low [simp]:
  "a \<in> set (low sl ns key i) \<longleftrightarrow> a \<in> set ns \<and> i < height sl (Nd a) \<and> keyOf sl a < key"
  "a \<in> set (high sl ns key i) \<longleftrightarrow> a \<in> set ns \<and> i < height sl (Nd a) \<and> \<not> keyOf sl a < key"
  "a \<in> set (levelNodes sl ns i) \<longleftrightarrow> a \<in> set ns \<and> i < height sl (Nd a)"
  by (auto simp: low_def high_def levelNodes_def)

text \<open>The predecessor one level up lies on this level, so the scan resumes from it.\<close>

lemma resume_point:
  assumes "sl_inv sl ns"
  shows "\<exists>as bs. low sl ns key i = as @ bs \<and> endp Head (low sl ns key (Suc i)) = endp Head as"
proof (cases "low sl ns key (Suc i)" rule: rev_cases)
  case Nil
  then have "low sl ns key i = [] @ low sl ns key i \<and> endp Head (low sl ns key (Suc i)) = endp Head []"
    by simp
  then show ?thesis by blast
next
  case (snoc ys x)
  then have "x \<in> set (low sl ns key (Suc i))" by simp
  then have "x \<in> set (low sl ns key i)" by simp
  then obtain as bs where "low sl ns key i = as @ x # bs" by (meson split_list)
  then have "low sl ns key i = (as @ [x]) @ bs \<and> endp Head (low sl ns key (Suc i)) = endp Head (as @ [x])"
    using snoc by simp
  then show ?thesis by blast
qed

lemma scan_level:
  assumes inv: "sl_inv sl ns" and cut: "cuts act key" and i: "i < skipListMaxLevel"
    and p: "p = endp Head (low sl ns key (Suc i))"
  shows "\<exists>cur. next_of sl p i = Some cur \<and> scanLevel act sl i p cur =
    Some (scanned act sl (high sl ns key i) (endp Head (low sl ns key i)))"
proof -
  obtain as bs where ab: "low sl ns key i = as @ bs" "p = endp Head as"
    using resume_point [OF inv] p by blast
  let ?P = "\<lambda>a. keyOf sl a < key" and ?H = "high sl ns key i"
  have "path sl i Head (as @ bs @ ?H)"
    using sl_inv_path [OF inv i] levelNodes_split [OF inv, of i key] ab(1) by simp
  then have path: "path sl i p (bs @ ?H)" using path_append ab(2) by blast
  have low: "\<forall>a \<in> set bs. ?P a" using ab(1) set_low(1) [of _ sl ns key i] by auto
  have high: "takeWhile ?P ?H = []" "dropWhile ?P ?H = ?H"
    using set_low(2) [of _ sl ns key i] by (cases ?H; fastforce)+
  have nodes: "\<forall>a \<in> set (bs @ ?H). \<exists>n. sl_heap sl a = Some n \<and> nd_key n = keyOf sl a"
  proof
    fix a assume "a \<in> set (bs @ ?H)"
    then have "a \<in> set ns" using ab(1) set_low(1) [of a sl ns key i] by auto
    then show "\<exists>n. sl_heap sl a = Some n \<and> nd_key n = keyOf sl a" using sl_inv_node [OF inv] by blast
  qed
  from path obtain cur where cur: "next_of sl p i = Some cur" using path_next by blast
  have "endp p bs = endp Head (low sl ns key i)" using ab by simp
  moreover have "takeWhile ?P (bs @ ?H) = bs" "dropWhile ?P (bs @ ?H) = ?H"
    using low high by (simp_all add: takeWhile_append2 dropWhile_append2)
  ultimately show ?thesis using scanLevel_path [OF cut path cur nodes] cur by simp
qed

lemma high_key:
  assumes inv: "sl_inv sl ns" and a: "a \<in> set ns" "keyOf sl a = key" "i < height sl (Nd a)"
  shows "\<exists>bs. high sl ns key i = a # bs"
proof -
  have mem: "a \<in> set (high sl ns key i)" using a by simp
  then obtain b bs where h: "high sl ns key i = b # bs" by (cases "high sl ns key i") auto
  have "sorted_wrt (<) (map (keyOf sl) (high sl ns key i))"
    using levelNodes_sorted [OF inv] by (simp add: high_def sorted_wrt_map sorted_wrt_filter)
  moreover have "\<not> keyOf sl b < key" using h set_low(2) [of b sl ns key i] by simp
  ultimately have "b = a" using h mem a(2) by auto
  with h show ?thesis by blast
qed

lemma walk_found:
  assumes inv: "sl_inv sl ns" and cut: "cuts act key" and a: "a \<in> set ns" "keyOf sl a = key"
    and f: "act key = Found"
  shows "0 < n \<Longrightarrow> n \<le> skipListMaxLevel \<Longrightarrow>
    walk act sl n (endp Head (low sl ns key n)) prevs = Some (Inl a)"
proof (induction n arbitrary: prevs)
  case (Suc i)
  let ?p = "endp Head (low sl ns key (Suc i))"
  have "i < skipListMaxLevel" using Suc.prems by simp
  from scan_level [OF inv cut this refl] obtain cur where c: "next_of sl ?p i = Some cur"
    "scanLevel act sl i ?p cur = Some (scanned act sl (high sl ns key i) (endp Head (low sl ns key i)))" by blast
  show ?case
  proof (cases "i < height sl (Nd a)")
    case True
    then obtain bs where "high sl ns key i = a # bs" using high_key [OF inv a] by blast
    with c f a(2) show ?thesis by (simp add: scanned_found)
  next
    case False
    have pos: "0 < i" using inv a False by (auto simp: sl_inv_def)
    have "act (keyOf sl b) \<noteq> Found" if "b \<in> set (high sl ns key i)" for b
    proof
      assume "act (keyOf sl b) = Found"
      then have "keyOf sl b = keyOf sl a" using cut a(2) by (simp add: cuts_def)
      moreover have "b \<in> set ns" "b \<noteq> a" using that False by auto
      ultimately show False
        using inv a(1) strict_sorted_iff [of "map (keyOf sl) ns"] by (auto simp: sl_inv_def distinct_map inj_on_def)
    qed
    then have "scanLevel act sl i ?p cur = Some (Inr (endp Head (low sl ns key i)))"
      using c(2) by (simp add: scanned_stop)
    with c(1) Suc.IH [OF pos] Suc.prems show ?thesis by simp
  qed
qed simp

lemma walk_prevs:
  assumes inv: "sl_inv sl ns" and cut: "cuts act key" and f: "\<forall>a \<in> set ns. act (keyOf sl a) \<noteq> Found"
  shows "n \<le> skipListMaxLevel \<Longrightarrow> walk act sl n (endp Head (low sl ns key n)) prevs =
    Some (Inr (endp Head (low sl ns key 0), map (\<lambda>j. endp Head (low sl ns key j)) [0..<n] @ prevs))"
proof (induction n arbitrary: prevs)
  case (Suc i)
  let ?p = "endp Head (low sl ns key (Suc i))"
  have "i < skipListMaxLevel" using Suc.prems by simp
  from scan_level [OF inv cut this refl] obtain cur where c: "next_of sl ?p i = Some cur"
    "scanLevel act sl i ?p cur = Some (scanned act sl (high sl ns key i) (endp Head (low sl ns key i)))" by blast
  have "\<forall>b \<in> set (high sl ns key i). act (keyOf sl b) \<noteq> Found" using f by simp
  then have "scanLevel act sl i ?p cur = Some (Inr (endp Head (low sl ns key i)))"
    using c(2) by (simp add: scanned_stop)
  with c(1) Suc show ?case by simp
qed simp

lemma low_top: "sl_inv sl ns \<Longrightarrow> low sl ns key (sl_level sl) = []"
  using sl_inv_height [of sl ns] by (force simp: low_def levelNodes_def filter_empty_conv)

definition prevsOf :: "('k::linorder, 'v) SkipList \<Rightarrow> nat list \<Rightarrow> 'k \<Rightarrow> slptr list" where
  "prevsOf sl ns key = map (\<lambda>j. endp Head (low sl ns key j)) [0..<sl_level sl]"

lemma walk_top:
  assumes inv: "sl_inv sl ns" and cut: "cuts act key"
  shows "a \<in> set ns \<Longrightarrow> keyOf sl a = key \<Longrightarrow> act key = Found \<Longrightarrow> walk act sl (sl_level sl) Head [] = Some (Inl a)"
    and "\<forall>a \<in> set ns. act (keyOf sl a) \<noteq> Found \<Longrightarrow>
      walk act sl (sl_level sl) Head [] = Some (Inr (endp Head (low sl ns key 0), prevsOf sl ns key))"
  using walk_found [OF inv cut, of a "sl_level sl" "[]"] walk_prevs [OF inv cut, of "sl_level sl" "[]"]
    low_top [OF inv, of key] inv
  by (simp_all add: prevsOf_def sl_inv_def)

lemma levelNodes_0: "sl_inv sl ns \<Longrightarrow> levelNodes sl ns 0 = ns"
  using sl_inv_height [of sl ns] by (force simp: levelNodes_def filter_id_conv)

abbreviation below :: "('k::linorder, 'v) SkipList \<Rightarrow> nat list \<Rightarrow> 'k \<Rightarrow> nat list" where
  "below sl ns key \<equiv> filter (\<lambda>a. keyOf sl a < key) ns"

abbreviation notBelow :: "('k::linorder, 'v) SkipList \<Rightarrow> nat list \<Rightarrow> 'k \<Rightarrow> nat list" where
  "notBelow sl ns key \<equiv> filter (\<lambda>a. \<not> keyOf sl a < key) ns"

lemma low_high_0: "sl_inv sl ns \<Longrightarrow> low sl ns key 0 = below sl ns key \<and> high sl ns key 0 = notBelow sl ns key"
  by (simp add: low_def high_def levelNodes_0)

lemma first_notBelow:
  assumes "sl_inv sl ns"
  shows "next_of sl (endp Head (low sl ns key 0)) 0 =
    Some (case notBelow sl ns key of [] \<Rightarrow> None | a # _ \<Rightarrow> Some a)"
  using path_next [OF path_low [OF assms, of 0 key]] low_high_0 [OF assms, of key] by simp

lemma cmp_cases:
  assumes "sl_inv sl ns"
  obtains "sl_impl sl = skipListOrdered"
    | c where "sl_impl sl = skipListFunc c" "cmpAct c = ordAct" "cmpPrevAct c = ordPrevAct"
      "\<And>a b. c a b = 0 \<longleftrightarrow> a = b"
proof (cases "sl_impl sl")
  case (skipListFunc c)
  with assms have "cmp_ok (skipListFunc c)" by (simp add: sl_inv_def)
  with cmpAct_ordAct [OF this] skipListFunc that(2) show ?thesis by (simp add: cmp_ok_def)
qed (use that in blast)

lemma ordAct_Found [simp]: "ordAct key k = Found \<longleftrightarrow> k = key" "ordPrevAct key k \<noteq> Found"
  by (simp_all add: ordAct_def ordPrevAct_def)

lemma ord_walk:
  assumes inv: "sl_inv sl ns"
  shows "a \<in> set ns \<Longrightarrow> keyOf sl a = key \<Longrightarrow> walk (ordAct key) sl (sl_level sl) Head [] = Some (Inl a)"
    and "key \<notin> keyOf sl ` set ns \<Longrightarrow> walk (ordAct key) sl (sl_level sl) Head []
      = Some (Inr (endp Head (low sl ns key 0), prevsOf sl ns key))"
    and "walk (ordPrevAct key) sl (sl_level sl) Head []
      = Some (Inr (endp Head (low sl ns key 0), prevsOf sl ns key))"
  using walk_top [OF inv cuts_acts(1) [of key]] walk_top(2) [OF inv cuts_acts(2) [of key]] by auto

lemma notBelow_key:
  assumes "sl_inv sl ns" "a \<in> set ns" "keyOf sl a = key"
  shows "\<exists>bs. notBelow sl ns key = a # bs"
  using high_key [OF assms, of 0] low_high_0 [OF assms(1), of key] sl_inv_height [OF assms(1,2)] by simp

lemma lowerBound_spec:
  assumes inv: "sl_inv sl ns"
  shows "lowerBound sl key = Some (case notBelow sl ns key of [] \<Rightarrow> None | a # _ \<Rightarrow> Some a)"
proof -
  have "doFindNode sl key False = Some (case notBelow sl ns key of [] \<Rightarrow> None | a # _ \<Rightarrow> Some a)"
  proof (cases "key \<in> keyOf sl ` set ns")
    case True
    then obtain a where "a \<in> set ns" "keyOf sl a = key" by blast
    with ord_walk(1) [OF inv this] notBelow_key [OF inv this] show ?thesis by (auto simp: doFindNode_def)
  next
    case False
    with ord_walk(2) [OF inv False] first_notBelow [OF inv] show ?thesis by (simp add: doFindNode_def)
  qed
  moreover have "funcLowerBound c sl key = doFindNode sl key False" if "cmpAct c = ordAct" for c
    using that by (cases "walk (ordAct key) sl (sl_level sl) Head []")
      (simp_all add: funcLowerBound_def doFindNode_def split: sum.split prod.split)
  ultimately show ?thesis
    by (cases rule: cmp_cases [OF inv]) (simp_all add: lowerBound_def)
qed

lemma findNode_spec:
  assumes inv: "sl_inv sl ns"
  shows "a \<in> set ns \<Longrightarrow> keyOf sl a = key \<Longrightarrow> findNode sl key = Some (Some a)"
    and "key \<notin> keyOf sl ` set ns \<Longrightarrow> findNode sl key = Some None"
proof -
  assume a: "a \<in> set ns" "keyOf sl a = key"
  obtain n where n: "sl_heap sl a = Some n" "nd_key n = keyOf sl a" using sl_inv_node [OF inv a(1)] by blast
  show "findNode sl key = Some (Some a)"
    using ord_walk(1) [OF inv a] n a(2) by (cases rule: cmp_cases [OF inv])
      (simp_all add: findNode_def doFindNode_def funcFindNode_def funcLowerBound_def)
next
  assume no: "key \<notin> keyOf sl ` set ns"
  show "findNode sl key = Some None"
  proof (cases rule: cmp_cases [OF inv])
    case 1
    with ord_walk(2) [OF inv no] show ?thesis by (simp add: findNode_def doFindNode_def)
  next
    case (2 c)
    have lb: "funcLowerBound c sl key = Some (case notBelow sl ns key of [] \<Rightarrow> None | a # _ \<Rightarrow> Some a)"
      using lowerBound_spec [OF inv, of key] 2(1) by (simp add: lowerBound_def)
    show ?thesis
    proof (cases "notBelow sl ns key")
      case Nil
      with lb 2 show ?thesis by (simp add: findNode_def funcFindNode_def)
    next
      case (Cons b bs)
      then have b: "b \<in> set ns" by (metis filter_is_subset list.set_intros(1) subsetD)
      with sl_inv_node [OF inv b] lb 2 Cons no show ?thesis by (auto simp: findNode_def funcFindNode_def)
    qed
  qed
qed

lemma findInsertPoint_spec:
  assumes inv: "sl_inv sl ns"
  shows "a \<in> set ns \<Longrightarrow> keyOf sl a = key \<Longrightarrow> findInsertPoint sl key = Some (Some a, [])"
    and "key \<notin> keyOf sl ` set ns \<Longrightarrow> findInsertPoint sl key = Some (None, prevsOf sl ns key)"
proof -
  have lvl: "\<not> sl_level sl > skipListMaxLevel" using inv by (simp add: sl_inv_def)
  show "findInsertPoint sl key = Some (Some a, [])" if "a \<in> set ns" "keyOf sl a = key"
    using ord_walk(1) [OF inv that] lvl
    by (cases rule: cmp_cases [OF inv]) (simp_all add: findInsertPoint_def)
  show "findInsertPoint sl key = Some (None, prevsOf sl ns key)" if "key \<notin> keyOf sl ` set ns"
    using ord_walk(2) [OF inv that] lvl
    by (cases rule: cmp_cases [OF inv]) (simp_all add: findInsertPoint_def)
qed

lemma sameKey_eq: "sl_inv sl ns \<Longrightarrow> sameKey sl k key \<longleftrightarrow> k = key"
  by (erule cmp_cases) (simp_all add: sameKey_def)

lemma findRemovePoint_spec:
  assumes inv: "sl_inv sl ns"
  shows "a \<in> set ns \<Longrightarrow> keyOf sl a = key \<Longrightarrow> findRemovePoint sl key = Some (Some a, prevsOf sl ns key)"
    and "key \<notin> keyOf sl ` set ns \<Longrightarrow> findRemovePoint sl key = Some (None, [])"
proof -
  have lvl: "\<not> sl_level sl > skipListMaxLevel" using inv by (simp add: sl_inv_def)
  have p: "findPrevNodes sl key = Some (prevsOf sl ns key)"
    using ord_walk(3) [OF inv, of key] lvl
    by (cases rule: cmp_cases [OF inv]) (simp_all add: findPrevNodes_def)
  have i: "index (prevsOf sl ns key) 0 = Some (endp Head (low sl ns key 0))"
    using inv by (simp add: prevsOf_def index_def sl_inv_def)
  show "findRemovePoint sl key = Some (Some a, prevsOf sl ns key)" if a: "a \<in> set ns" "keyOf sl a = key"
    using notBelow_key [OF inv a] sl_inv_node [OF inv a(1)] a(2) p i first_notBelow [OF inv, of key]
    by (auto simp: findRemovePoint_def sameKey_eq [OF inv])
  show "findRemovePoint sl key = Some (None, [])" if no: "key \<notin> keyOf sl ` set ns"
  proof (cases "notBelow sl ns key")
    case Nil
    with p i first_notBelow [OF inv, of key] show ?thesis by (simp add: findRemovePoint_def)
  next
    case (Cons b bs)
    then have b: "b \<in> set ns" by (metis filter_is_subset list.set_intros(1) subsetD)
    with sl_inv_node [OF inv b] no p i first_notBelow [OF inv, of key] Cons show ?thesis
      by (auto simp: findRemovePoint_def sameKey_eq [OF inv])
  qed
qed

end
