(* ===== verification/SkipList_Map.thy ===== *)
theory SkipList_Map
  imports SkipList_Links
begin

text \<open>
  The skip list as a sorted map: insertion and removal keep the invariant and refine the operations
  on a sorted association list, iteration visits the entries in key order; the interface its
  clients rely on is the locale \<open>ordered_map\<close>, interpreted on the operations of the model.
\<close>

section \<open>Insertion\<close>

lemma limitLevel_le: "limitLevel len level \<le> level"
  by (induction len level rule: limitLevel.induct) (subst limitLevel.simps, force)

lemma limitLevel_pos: "1 \<le> level \<Longrightarrow> 1 \<le> limitLevel len level"
  by (induction len level rule: limitLevel.induct) (subst limitLevel.simps, force)

lemma bitLen_0: "bitLen 0 = 0"
  by (subst bitLen.simps) simp

lemma bitLen_pos: "0 < n \<Longrightarrow> 1 \<le> bitLen n"
  by (subst bitLen.simps) simp

lemma randomLevel_bounds:
  assumes "randomLevel sl r = (level, r')" "sl_len sl < 2 ^ 38"
  shows "1 \<le> level \<and> level \<le> skipListMaxLevel"
proof -
  define k where "k = unat (fst (randUint64 r)) mod (2 ^ skipListMaxLevel - 1)"
  define l where "l = skipListMaxLevel - bitLen k + 1"
  have level: "level = limitLevel (sl_len sl) l"
    using assms(1) by (simp add: randomLevel_def k_def l_def Let_def split: prod.splits)
  have pos: "1 \<le> level" unfolding level by (rule limitLevel_pos) (simp add: l_def)
  have "level \<le> 40"
  proof (cases "k = 0")
    case True
    then have "l = 41" by (simp add: l_def bitLen.simps)
    moreover have "limitLevel (sl_len sl) 41 = limitLevel (sl_len sl) 40"
      using assms(2) by (subst limitLevel.simps) simp
    ultimately show ?thesis using level limitLevel_le [of "sl_len sl" 40] by simp
  next
    case False
    then have "l \<le> 40" using bitLen_pos [of k] by (simp add: l_def)
    then show ?thesis using level limitLevel_le [of "sl_len sl" l] by simp
  qed
  with pos show ?thesis by simp
qed

text \<open>The predecessor at a level has a tower that reaches it.\<close>

lemma endp_low:
  assumes "sl_inv sl ns" "i < skipListMaxLevel"
  shows "endp Head (low sl ns key i) = Head \<or> (\<exists>x \<in> set ns. endp Head (low sl ns key i) = Nd x)"
    and "i < height sl (endp Head (low sl ns key i))"
proof -
  from endp_in [of Head "low sl ns key i"]
  show "endp Head (low sl ns key i) = Head \<or> (\<exists>x \<in> set ns. endp Head (low sl ns key i) = Nd x)" by auto
  from endp_in [of Head "low sl ns key i"] show "i < height sl (endp Head (low sl ns key i))"
    using assms by (auto simp: sl_inv_def height.simps(1))
qed

lemma low_above: "sl_inv sl ns \<Longrightarrow> sl_level sl \<le> i \<Longrightarrow> levelNodes sl ns i = [] \<and> low sl ns key i = []"
  using sl_inv_height [of sl ns] by (force simp: low_def levelNodes_def filter_empty_conv)

text \<open>Splicing a fresh node into every level below its height keeps the invariant.\<close>

lemma sl_inv_splice:
  fixes sl sl' :: "('k::linorder, 'v) SkipList"
  assumes inv: "sl_inv sl ns" and no: "key \<notin> keyOf sl ` set ns"
    and a: "a = sl_fresh sl" and level: "1 \<le> level" "level \<le> skipListMaxLevel"
    and st: "sl_impl sl' = sl_impl sl" "sl_level sl' = max (sl_level sl) level" "sl_len sl' = sl_len sl + 1"
      "sl_fresh sl' = sl_fresh sl + 1" "length (sl_head sl') = length (sl_head sl)"
      "\<And>b. sl_heap sl' b \<noteq> None \<Longrightarrow> b = a \<or> sl_heap sl b \<noteq> None"
    and ht: "\<And>b. height sl' (Nd b) = (if b = a then level else height sl (Nd b))"
    and ky: "\<And>b. keyOf sl' b = (if b = a then key else keyOf sl b)"
    and nx: "\<And>q j. j < skipListMaxLevel \<Longrightarrow> next_of sl' q j =
        (if j < level \<and> q = Nd a then next_of sl (endp Head (low sl ns key j)) j
         else if j < level \<and> q = endp Head (low sl ns key j) then Some (Some a)
         else next_of sl q j)"
  shows "sl_inv sl' (below sl ns key @ a # notBelow sl ns key)"
proof -
  let ?lo = "below sl ns key" and ?hi = "notBelow sl ns key"
  have fresh: "a \<notin> set ns" using inv a by (auto simp: sl_inv_def)
  have part: "ns = ?lo @ ?hi" using inv by (intro sorted_split) (simp add: sl_inv_def)
  have keys: "map (keyOf sl') ns' = map (keyOf sl) ns'" if "set ns' \<subseteq> set ns" for ns'
    using that fresh ky by auto
  have srt: "sorted_wrt (<) (map (keyOf sl) ?lo)" "sorted_wrt (<) (map (keyOf sl) ?hi)"
    using inv by (simp_all add: sl_inv_def sorted_wrt_map sorted_wrt_filter)
  have gt: "key < keyOf sl b" if "b \<in> set ?hi" for b using that no by force
  have "sorted_wrt (<) (map (keyOf sl) ?lo @ key # map (keyOf sl) ?hi)"
    using srt gt by (fastforce simp: sorted_wrt_append intro: less_trans)
  then have sorted: "sorted_wrt (<) (map (keyOf sl') (?lo @ a # ?hi))"
    unfolding map_append list.map keys [of ?lo, OF filter_is_subset] keys [of ?hi, OF filter_is_subset]
    using ky [of a] by simp
  have lev: "levelNodes sl' (?lo @ a # ?hi) j =
      (if j < level then low sl ns key j @ a # high sl ns key j else levelNodes sl ns j)" for j
  proof -
    have same: "levelNodes sl' ns' j = levelNodes sl ns' j" if "set ns' \<subseteq> set ns" for ns'
      unfolding levelNodes_def using that fresh ht by (intro filter_cong) auto
    have "levelNodes sl ?lo j = low sl ns key j" "levelNodes sl ?hi j = high sl ns key j"
      by (simp_all add: levelNodes_def low_def high_def conj_commute)
    then have "levelNodes sl' ?lo j = low sl ns key j" "levelNodes sl' ?hi j = high sl ns key j"
      using same [of ?lo, OF filter_is_subset] same [of ?hi, OF filter_is_subset] by simp_all
    moreover have "levelNodes sl' (?lo @ a # ?hi) j
        = levelNodes sl' ?lo j @ (if j < level then [a] else []) @ levelNodes sl' ?hi j"
      using ht [of a] by (simp add: levelNodes_def)
    ultimately show ?thesis using levelNodes_split [OF inv, of j key] by simp
  qed
  have path: "path sl' j Head (levelNodes sl' (?lo @ a # ?hi) j)" if j: "j < skipListMaxLevel" for j
  proof (cases "j < level")
    case True
    have old: "path sl j Head (low sl ns key j @ high sl ns key j)"
      using sl_inv_path [OF inv j] levelNodes_split [OF inv, of j key] by simp
    have "distinct (levelNodes sl ns j)" using sl_inv_distinct [OF inv] by (simp add: levelNodes_def)
    then have dist: "distinct (low sl ns key j @ high sl ns key j)"
      using levelNodes_split [OF inv, of j key] by simp
    have ne: "endp Head (low sl ns key j) \<noteq> Nd a" using endp_low(1) [OF inv j, of key] fresh by auto
    have "path sl' j Head (low sl ns key j @ a # high sl ns key j)"
    proof (rule path_insert [OF old dist])
      show "next_of sl' q j = next_of sl q j"
        if "q \<noteq> endp Head (low sl ns key j)" "q = Head \<or> q \<in> Nd ` set (low sl ns key j @ high sl ns key j)" for q
        using that nx [OF j, of q] fresh by auto
    qed (use ne nx [OF j] True in auto)
    with lev True show ?thesis by simp
  next
    case False
    have "path sl' j Head (levelNodes sl ns j)"
      by (rule path_cong [OF sl_inv_path [OF inv j]]) (use nx [OF j] False in auto)
    with lev False show ?thesis by simp
  qed
  have "length ns = length ?lo + length ?hi" using arg_cong [OF part, of length] by simp
  then have len: "sl_len sl' = int (length (?lo @ a # ?hi))" using inv st(3) by (simp add: sl_inv_def)
  have nodes: "b < sl_fresh sl' \<and> 1 \<le> height sl' (Nd b) \<and> height sl' (Nd b) \<le> sl_level sl'"
    if "b \<in> set (?lo @ a # ?hi)" for b
  proof (cases "b = a")
    case False
    with that have "b \<in> set ns" by auto
    with inv have "b < sl_fresh sl" by (simp add: sl_inv_def)
    with sl_inv_height [OF inv \<open>b \<in> set ns\<close>] False ht [of b] st(2,4) show ?thesis
      by (simp add: le_max_iff_disj)
  qed (use ht [of a] st(2,4) a level in simp)
  have heap: "b < sl_fresh sl'" if "sl_heap sl' b \<noteq> None" for b
  proof -
    from st(6) [OF that] have "b = a \<or> b < sl_fresh sl" using inv unfolding sl_inv_def by blast
    then show ?thesis using a st(4) by auto
  qed
  have "cmp_ok (sl_impl sl')" "1 \<le> sl_level sl'" "sl_level sl' \<le> skipListMaxLevel"
    "length (sl_head sl') = skipListMaxLevel"
    using inv st level unfolding sl_inv_def by auto
  with sorted path len nodes heap show ?thesis unfolding sl_inv_def by blast
qed

text \<open>Allocating a node touches no link.\<close>

definition allocNode :: "('k, 'v) skipListNode \<Rightarrow> ('k, 'v) SkipList \<Rightarrow> ('k, 'v) SkipList" where
  "allocNode n sl = sl\<lparr>sl_heap := (sl_heap sl)(sl_fresh sl \<mapsto> n), sl_fresh := sl_fresh sl + 1\<rparr>"

lemma allocNode_frame:
  "height (allocNode n sl) p = (if p = Nd (sl_fresh sl) then length (nd_next n) else height sl p)"
  "next_of (allocNode n sl) p i =
    (if p = Nd (sl_fresh sl) then index (nd_next n) i else next_of sl p i)"
  "keyOf (allocNode n sl) b = (if b = sl_fresh sl then nd_key n else keyOf sl b)"
  "valueOf (allocNode n sl) b = (if b = sl_fresh sl then nd_value n else valueOf sl b)"
  "sl_level (allocNode n sl) = sl_level sl" "sl_len (allocNode n sl) = sl_len sl"
  "sl_impl (allocNode n sl) = sl_impl sl" "sl_fresh (allocNode n sl) = sl_fresh sl + 1"
  "sl_head (allocNode n sl) = sl_head sl" "dom (sl_heap (allocNode n sl)) = insert (sl_fresh sl) (dom (sl_heap sl))"
  by (cases p; simp add: allocNode_def height.simps next_of.simps keyOf_def valueOf_def)+

lemma sl_inv_level_update [simp]:
  "next_of (sl\<lparr>sl_level := l\<rparr>) p i = next_of sl p i" "next_of (sl\<lparr>sl_len := m\<rparr>) p i = next_of sl p i"
  "height (sl\<lparr>sl_level := l\<rparr>) p = height sl p" "height (sl\<lparr>sl_len := m\<rparr>) p = height sl p"
  "keyOf (sl\<lparr>sl_level := l\<rparr>) b = keyOf sl b" "keyOf (sl\<lparr>sl_len := m\<rparr>) b = keyOf sl b"
  "valueOf (sl\<lparr>sl_level := l\<rparr>) b = valueOf sl b" "valueOf (sl\<lparr>sl_len := m\<rparr>) b = valueOf sl b"
  by (cases p; simp add: next_of.simps height.simps keyOf_def valueOf_def)+

lemma same_nodes_head: "same_nodes sl sl' \<Longrightarrow> length (sl_head sl') = length (sl_head sl)"
  unfolding same_nodes_def by (metis height.simps(1))

text \<open>The two linking loops together, from a list that has just allocated the node.\<close>

lemma link_loops:
  fixes sl :: "('k::linorder, 'v) SkipList"
  assumes inv: "sl_inv sl ns" and level: "1 \<le> level" "level \<le> skipListMaxLevel"
    and n: "length (nd_next n) = level" "\<forall>i < level. nd_next n ! i = None"
  defines "a \<equiv> sl_fresh sl" and "sl1 \<equiv> allocNode n sl"
  shows "\<exists>sl2. linkNode a (prevsOf sl ns key) [0..<if sl_level sl1 < level then sl_level sl1 else level] sl1 = Some sl2
    \<and> same_nodes sl1 sl2
    \<and> (\<exists>sl3. (if level > sl_level sl2
              then do { sl \<leftarrow> linkHead a [sl_level sl2..<level] sl2; Some (sl\<lparr>sl_level := level\<rparr>) }
              else Some sl2) = Some sl3
         \<and> same_nodes (sl1\<lparr>sl_level := max (sl_level sl) level\<rparr>) sl3
         \<and> (\<forall>q j. j < skipListMaxLevel \<longrightarrow> next_of sl3 q j =
              (if j < level \<and> q = Nd a then next_of sl (endp Head (low sl ns key j)) j
               else if j < level \<and> q = endp Head (low sl ns key j) then Some (Some a)
               else next_of sl q j)))"
proof -
  let ?P = "\<lambda>j. endp Head (low sl ns key j)" and ?min = "min (sl_level sl) level"
  have lvl: "sl_level sl1 = sl_level sl" by (simp add: sl1_def allocNode_frame)
  have fresh: "a \<notin> set ns" using inv by (auto simp: sl_inv_def a_def)
  have P: "?P j \<noteq> Nd a" "j < height sl (?P j)" if "j < skipListMaxLevel" for j
    using endp_low [OF inv that, of key] fresh by auto
  have lmax: "sl_level sl \<le> skipListMaxLevel" using inv by (simp add: sl_inv_def)
  have prev: "prevsOf sl ns key ! j = ?P j" if "j < sl_level sl" for j
    using that by (simp add: prevsOf_def)
  have pre: "\<forall>i \<in> set [0..<?min]. i < length (prevsOf sl ns key) \<and> i < height sl1 (prevsOf sl ns key ! i)
      \<and> i < height sl1 (Nd a) \<and> prevsOf sl ns key ! i \<noteq> Nd a"
    using P lmax prev n(1) by (auto simp: prevsOf_def sl1_def a_def allocNode_frame)
  have "distinct [0..<?min]" by simp
  from linkNode_Some [OF this pre] obtain sl2 where s2: "linkNode a (prevsOf sl ns key) [0..<?min] sl1 = Some sl2"
    "same_nodes sl1 sl2" "\<forall>q j. next_of sl2 q j =
          (if j \<in> set [0..<?min] \<and> q = Nd a then next_of sl1 (prevsOf sl ns key ! j) j
           else if j \<in> set [0..<?min] \<and> q = prevsOf sl ns key ! j then Some (Some a)
           else next_of sl1 q j)" by blast
  have next1: "next_of sl1 q j = (if q = Nd a then if j < level then Some None else None else next_of sl q j)" for q j
    using n by (simp add: sl1_def a_def allocNode_frame index_def)
  have "sl_heap sl a = None" using inv unfolding sl_inv_def a_def by (metis less_irrefl)
  then have nowhere: "next_of sl (Nd a) j = None" for j by (simp add: next_of.simps)
  have next2: "next_of sl2 q j =
      (if j < ?min \<and> q = Nd a then next_of sl (?P j) j
       else if j < ?min \<and> q = ?P j then Some (Some a) else next_of sl1 q j)" if "j < skipListMaxLevel" for q j
    using s2(3) prev [of j] P [OF that] next1 by auto
  have top: "?P j = Head" "next_of sl Head j = Some None" if "sl_level sl \<le> j" "j < skipListMaxLevel" for j
    using low_above [OF inv that(1), of key] sl_inv_path [OF inv that(2)] by auto
  have lvl2: "sl_level sl2 = sl_level sl" "height sl2 Head = skipListMaxLevel"
  proof -
    show "sl_level sl2 = sl_level sl" using s2(2) lvl by (simp add: same_nodes_def)
    show "height sl2 Head = skipListMaxLevel"
      using same_nodes_head [OF s2(2)] inv by (simp add: sl_inv_def height.simps(1) sl1_def allocNode_frame)
  qed
  have min_eq: "(if sl_level sl1 < level then sl_level sl1 else level) = ?min" using lvl by simp
  show ?thesis
  proof (cases "level > sl_level sl")
    case True
    have "\<forall>i \<in> set [sl_level sl..<level]. i < height sl2 Head" using lvl2(2) level(2) by simp
    from linkHead_Some [OF this, of a] obtain sl3 where s3: "linkHead a [sl_level sl..<level] sl2 = Some sl3"
      "same_nodes sl2 sl3" "\<forall>q j. next_of sl3 q j =
        (if j \<in> set [sl_level sl..<level] \<and> q = Head then Some (Some a) else next_of sl2 q j)" by blast
    let ?sl3 = "sl3\<lparr>sl_level := level\<rparr>"
    have "next_of ?sl3 q j = (if j < level \<and> q = Nd a then next_of sl (?P j) j
         else if j < level \<and> q = ?P j then Some (Some a) else next_of sl q j)"
      if "j < skipListMaxLevel" for q j
      using s3(3) next2 [OF that] next1 top [OF _ that] True nowhere by (auto simp: min_def)
    moreover have "same_nodes (sl1\<lparr>sl_level := max (sl_level sl) level\<rparr>) ?sl3"
      using s2(2) s3(2) True by (simp add: same_nodes_def)
    ultimately show ?thesis using s2(1,2) s3(1) lvl2(1) True min_eq by auto
  next
    case False
    have "next_of sl2 q j = (if j < level \<and> q = Nd a then next_of sl (?P j) j
         else if j < level \<and> q = ?P j then Some (Some a) else next_of sl q j)"
      if "j < skipListMaxLevel" for q j
      using next2 [OF that] next1 False nowhere by (auto simp: min_def)
    moreover have "same_nodes (sl1\<lparr>sl_level := max (sl_level sl) level\<rparr>) sl2"
      using s2(2) False lvl by (simp add: same_nodes_def)
    ultimately show ?thesis using s2(1,2) lvl2(1) False min_eq by auto
  qed
qed

lemma Insert_new:
  fixes sl :: "('k::linorder, 'v) SkipList"
  assumes inv: "sl_inv sl ns" and no: "key \<notin> keyOf sl ` set ns" and len: "sl_len sl < 2 ^ 38"
  defines "a \<equiv> sl_fresh sl"
  shows "\<exists>sl' r'. Insert key v sl r = Some (sl', r')
    \<and> sl_inv sl' (below sl ns key @ a # notBelow sl ns key)
    \<and> (\<forall>b. keyOf sl' b = (if b = a then key else keyOf sl b))
    \<and> (\<forall>b. valueOf sl' b = (if b = a then v else valueOf sl b))"
proof -
  obtain level r' where lr: "randomLevel sl r = (level, r')" by fastforce
  from randomLevel_bounds [OF lr len] have level: "1 \<le> level" "level \<le> skipListMaxLevel" by simp_all
  define n where "n = \<lparr>nd_key = key, nd_value = v, nd_next = replicate level None\<rparr>"
  have n: "length (nd_next n) = level" "\<forall>i < level. nd_next n ! i = None" by (simp_all add: n_def)
  have new: "newSkipListNode level key v = Some n"
    using level by (simp add: newSkipListNode_def n_def)
  let ?sl1 = "allocNode n sl"
  let ?sl1' = "?sl1\<lparr>sl_level := max (sl_level sl) level\<rparr>"
  from link_loops [OF inv level n, of key] obtain sl2 sl3 where
    l: "linkNode a (prevsOf sl ns key) [0..<if sl_level ?sl1 < level then sl_level ?sl1 else level] ?sl1 = Some sl2"
      "(if level > sl_level sl2
         then do { sl \<leftarrow> linkHead a [sl_level sl2..<level] sl2; Some (sl\<lparr>sl_level := level\<rparr>) }
         else Some sl2) = Some sl3"
    and sn: "same_nodes ?sl1' sl3"
    and nx: "\<forall>q j. j < skipListMaxLevel \<longrightarrow> next_of sl3 q j =
              (if j < level \<and> q = Nd a then next_of sl (endp Head (low sl ns key j)) j
               else if j < level \<and> q = endp Head (low sl ns key j) then Some (Some a)
               else next_of sl q j)"
    unfolding a_def by blast
  let ?sl' = "sl3\<lparr>sl_len := sl_len sl3 + 1\<rparr>"
  have al: "?sl1 = sl\<lparr>sl_heap := (sl_heap sl)(a \<mapsto> n), sl_fresh := a + 1\<rparr>"
    by (simp add: allocNode_def a_def)
  have l1: "linkNode a (prevsOf sl ns key) [0..<if sl_level sl < level then sl_level sl else level]
      (sl\<lparr>sl_heap := (sl_heap sl)(a \<mapsto> n), sl_fresh := a + 1\<rparr>) = Some sl2"
    using l(1) [unfolded allocNode_frame(5)] unfolding al .
  have "Insert key v sl r = Some (?sl', r')"
    using findInsertPoint_spec(2) [OF inv no] lr new l1 l(2)
    by (simp add: Insert_def Let_def flip: a_def split del: if_split cong: if_cong)
  moreover have "sl_inv ?sl' (below sl ns key @ a # notBelow sl ns key)"
  proof (rule sl_inv_splice [OF inv no _ level])
    have d: "dom (sl_heap sl3) = insert a (dom (sl_heap sl))"
      using sn by (simp add: same_nodes_def allocNode_frame a_def)
    show "b = a \<or> sl_heap sl b \<noteq> None" if "sl_heap ?sl' b \<noteq> None" for b
    proof -
      from that have "b \<in> dom (sl_heap sl3)" by auto
      with d show ?thesis by auto
    qed
    show "length (sl_head ?sl') = length (sl_head sl)"
      using same_nodes_head [OF sn] by (simp add: allocNode_frame)
    show "next_of ?sl' q j =
        (if j < level \<and> q = Nd a then next_of sl (endp Head (low sl ns key j)) j
         else if j < level \<and> q = endp Head (low sl ns key j) then Some (Some a)
         else next_of sl q j)" if "j < skipListMaxLevel" for q j
      using nx that by simp
  qed (use sn n in \<open>simp_all add: same_nodes_def allocNode_frame a_def n_def\<close>)
  moreover have "\<forall>b. keyOf ?sl' b = (if b = a then key else keyOf sl b)"
      "\<forall>b. valueOf ?sl' b = (if b = a then v else valueOf sl b)"
    using sn by (simp_all add: same_nodes_def allocNode_frame a_def n_def)
  ultimately show ?thesis by blast
qed

lemma update_value_frame:
  fixes v :: 'v and sl :: "('k, 'v) SkipList"
  assumes "sl_heap sl a = Some n"
  defines "sl' \<equiv> sl\<lparr>sl_heap := (sl_heap sl)(a \<mapsto> n\<lparr>nd_value := v\<rparr>)\<rparr>"
  shows "next_of sl' p i = next_of sl p i" "height sl' p = height sl p"
    "keyOf sl' b = keyOf sl b" "valueOf sl' b = (if b = a then v else valueOf sl b)"
  using assms by (cases p; auto simp: next_of.simps height.simps keyOf_def valueOf_def)+

lemma sl_inv_cong:
  assumes inv: "sl_inv sl ns" and nx: "\<And>p i. next_of sl' p i = next_of sl p i"
    and ht: "\<And>p. height sl' p = height sl p" and ky: "\<And>b. keyOf sl' b = keyOf sl b"
    and st: "sl_level sl' = sl_level sl" "sl_len sl' = sl_len sl" "sl_fresh sl' = sl_fresh sl"
      "sl_impl sl' = sl_impl sl" "dom (sl_heap sl') = dom (sl_heap sl)"
  shows "sl_inv sl' ns"
proof -
  have "path sl' i p as = path sl i p as" for i p as
    by (induction as arbitrary: p) (simp_all add: nx)
  moreover have "levelNodes sl' ns i = levelNodes sl ns i" for i by (simp add: levelNodes_def ht)
  moreover have "keyOf sl' = keyOf sl" using ky by blast
  moreover have "length (sl_head sl') = length (sl_head sl)" using ht [of Head] by (simp add: height.simps)
  moreover have "sl_heap sl' b \<noteq> None \<longleftrightarrow> sl_heap sl b \<noteq> None" for b using st(5) by blast
  ultimately show ?thesis using inv st(1-4) by (auto simp: sl_inv_def ht)
qed

lemma Insert_old:
  assumes inv: "sl_inv sl ns" and a: "a \<in> set ns" "keyOf sl a = key"
  shows "\<exists>sl'. Insert key v sl r = Some (sl', r) \<and> sl_inv sl' ns
    \<and> (\<forall>b. keyOf sl' b = keyOf sl b) \<and> (\<forall>b. valueOf sl' b = (if b = a then v else valueOf sl b))"
proof -
  obtain n where n: "sl_heap sl a = Some n" using sl_inv_node [OF inv a(1)] by blast
  let ?sl' = "sl\<lparr>sl_heap := (sl_heap sl)(a \<mapsto> n\<lparr>nd_value := v\<rparr>)\<rparr>"
  have "Insert key v sl r = Some (?sl', r)"
    using findInsertPoint_spec(1) [OF inv a] n by (simp add: Insert_def)
  moreover have "sl_inv ?sl' ns"
    by (rule sl_inv_cong [OF inv]) (use update_value_frame [OF n] n in auto)
  ultimately show ?thesis using update_value_frame(3,4) [OF n] by blast
qed

section \<open>Removal\<close>

lemma filter_neq_id: "x \<notin> set xs \<Longrightarrow> filter (\<lambda>y. y \<noteq> x) xs = xs"
  by (induction xs) auto

lemma length_filter_neq:
  "distinct xs \<Longrightarrow> x \<in> set xs \<Longrightarrow> length xs = Suc (length (filter (\<lambda>y. y \<noteq> x) xs))"
  by (induction xs) (auto simp: filter_neq_id)

lemma shrinkLevel_spec:
  assumes "1 \<le> l" "l \<le> height sl Head"
  shows "\<exists>l'. shrinkLevel sl l = Some l' \<and> 1 \<le> l' \<and> l' \<le> l
    \<and> (\<forall>i. l' \<le> i \<longrightarrow> i < l \<longrightarrow> next_of sl Head i = Some None)"
  using assms
proof (induction l)
  case (Suc l)
  obtain h where h: "next_of sl Head l = Some h" using next_of_Some [of l sl Head] Suc.prems by auto
  show ?case
  proof (cases "1 \<le> l \<and> h = None")
    case True
    with Suc obtain l' where "shrinkLevel sl l = Some l'" "1 \<le> l'" "l' \<le> l"
      "\<forall>i. l' \<le> i \<longrightarrow> i < l \<longrightarrow> next_of sl Head i = Some None" by auto
    moreover have "shrinkLevel sl (Suc l) = shrinkLevel sl l"
      using True h by (subst shrinkLevel.simps) simp
    ultimately show ?thesis using True h by (auto simp: less_Suc_eq)
  next
    case False
    then have "shrinkLevel sl (Suc l) = Some (Suc l)"
      using h by (subst shrinkLevel.simps) (cases l; auto)
    then show ?thesis by auto
  qed
qed simp

lemma Remove_absent:
  assumes "sl_inv sl ns" "key \<notin> keyOf sl ` set ns"
  shows "Remove key sl = Some (False, sl)"
  using findRemovePoint_spec(2) [OF assms] by (simp add: Remove_def)

text \<open>Bypassing a node on every level of its tower keeps the invariant of the rest.\<close>

lemma sl_inv_bypass:
  fixes sl sl' :: "('k::linorder, 'v) SkipList"
  assumes inv: "sl_inv sl ns" and a: "a \<in> set ns" "keyOf sl a = key"
    and sn: "same_nodes sl sl'"
    and nx: "\<And>q j. next_of sl' q j = (if j < height sl (Nd a) \<and> q = endp Head (low sl ns key j)
        then next_of sl (Nd a) j else next_of sl q j)"
    and j: "j < skipListMaxLevel"
  shows "path sl' j Head (levelNodes sl' (filter (\<lambda>b. b \<noteq> a) ns) j)"
proof -
  have ht: "height sl' p = height sl p" for p using sn by (simp add: same_nodes_def)
  have lev: "levelNodes sl' (filter (\<lambda>b. b \<noteq> a) ns) j = filter (\<lambda>b. b \<noteq> a) (levelNodes sl ns j)"
    by (simp add: levelNodes_def ht conj_commute)
  have dist: "distinct (levelNodes sl ns j)" using sl_inv_distinct [OF inv] by (simp add: levelNodes_def)
  show ?thesis
  proof (cases "j < height sl (Nd a)")
    case True
    from high_key [OF inv a True] obtain bs where h: "high sl ns key j = a # bs" by blast
    have all: "levelNodes sl ns j = low sl ns key j @ a # bs" using levelNodes_split [OF inv, of j key] h by simp
    have rest: "filter (\<lambda>b. b \<noteq> a) (levelNodes sl ns j) = low sl ns key j @ bs"
      using dist a(2) unfolding all by (simp add: filter_neq_id)
    have old: "path sl j Head (low sl ns key j @ a # bs)" using sl_inv_path [OF inv j] all by simp
    have "path sl' j Head (low sl ns key j @ bs)"
    proof (rule path_remove [OF old])
      show "distinct (low sl ns key j @ a # bs)" using dist all by simp
    qed (use nx True in auto)
    with lev rest show ?thesis by simp
  next
    case False
    then have "a \<notin> set (levelNodes sl ns j)" by simp
    then have "filter (\<lambda>b. b \<noteq> a) (levelNodes sl ns j) = levelNodes sl ns j" by (intro filter_True) auto
    moreover have "path sl' j Head (levelNodes sl ns j)"
      by (rule path_cong [OF sl_inv_path [OF inv j]]) (use nx False in auto)
    ultimately show ?thesis using lev by simp
  qed
qed

lemma Remove_present:
  fixes sl :: "('k::linorder, 'v) SkipList"
  assumes inv: "sl_inv sl ns" and a: "a \<in> set ns" "keyOf sl a = key"
  shows "\<exists>sl'. Remove key sl = Some (True, sl') \<and> sl_inv sl' (filter (\<lambda>b. b \<noteq> a) ns)
    \<and> (\<forall>b. keyOf sl' b = keyOf sl b) \<and> (\<forall>b. valueOf sl' b = valueOf sl b)"
proof -
  let ?P = "\<lambda>j. endp Head (low sl ns key j)" and ?ps = "prevsOf sl ns key"
  obtain n where n: "sl_heap sl a = Some n" using sl_inv_node [OF inv a(1)] by blast
  have hn: "length (nd_next n) = height sl (Nd a)" using n by (simp add: height.simps)
  have ha: "1 \<le> height sl (Nd a)" "height sl (Nd a) \<le> sl_level sl" using sl_inv_height [OF inv a(1)] by auto
  have lmax: "1 \<le> sl_level sl" "sl_level sl \<le> skipListMaxLevel" "height sl Head = skipListMaxLevel"
    using inv by (simp_all add: sl_inv_def height.simps)
  have prev: "?ps ! j = ?P j" if "j < sl_level sl" for j using that by (simp add: prevsOf_def)
  have ne: "?P j \<noteq> Nd a" for j
    using endp_in [of Head "low sl ns key j"] a(2) by auto
  have pre: "\<forall>i \<in> set [0..<height sl (Nd a)]. i < length ?ps \<and> i < height sl (?ps ! i)
      \<and> i < height sl (Nd a) \<and> ?ps ! i \<noteq> Nd a"
    using ne ha lmax prev endp_low(2) [OF inv, of _ key] by (auto simp: prevsOf_def)
  have "distinct [0..<height sl (Nd a)]" by simp
  from unlinkNode_Some [OF this pre] obtain sl1 where
    s1: "unlinkNode a ?ps [0..<height sl (Nd a)] sl = Some sl1" "same_nodes sl sl1"
    and s1n: "\<forall>q j. next_of sl1 q j =
      (if j \<in> set [0..<height sl (Nd a)] \<and> q = ?ps ! j then next_of sl (Nd a) j else next_of sl q j)" by blast
  have nx: "next_of sl1 q j = (if j < height sl (Nd a) \<and> q = ?P j then next_of sl (Nd a) j else next_of sl q j)" for q j
    using s1n prev [of j] ha by auto
  let ?ns = "filter (\<lambda>b. b \<noteq> a) ns"
  have path: "path sl1 j Head (levelNodes sl1 ?ns j)" if "j < skipListMaxLevel" for j
    by (rule sl_inv_bypass [OF inv a s1(2) nx that])
  have "sl_level sl1 \<le> height sl1 Head" "1 \<le> sl_level sl1" using s1(2) lmax by (simp_all add: same_nodes_def)
  from shrinkLevel_spec [OF this(2,1)] obtain l where
    l: "shrinkLevel sl1 (sl_level sl1) = Some l" "1 \<le> l" "l \<le> sl_level sl1"
    "\<forall>i. l \<le> i \<longrightarrow> i < sl_level sl1 \<longrightarrow> next_of sl1 Head i = Some None" by blast
  let ?sl' = "sl1\<lparr>sl_level := l, sl_len := sl_len sl1 - 1\<rparr>"
  have R: "Remove key sl = Some (True, ?sl')"
    using findRemovePoint_spec(1) [OF inv a] n s1(1) l(1) by (simp add: Remove_def hn)
  have sn: "height ?sl' p = height sl p" "keyOf ?sl' b = keyOf sl b" "valueOf ?sl' b = valueOf sl b" for p b
    using s1(2) by (simp_all add: same_nodes_def)
  have low: "height sl (Nd b) \<le> l" if b: "b \<in> set ?ns" for b
  proof (rule ccontr)
    assume "\<not> height sl (Nd b) \<le> l"
    moreover have "height sl (Nd b) \<le> sl_level sl" using sl_inv_height [OF inv] b by simp
    moreover have "sl_level sl1 = sl_level sl" using s1(2) by (simp add: same_nodes_def)
    ultimately have bl: "l < height sl (Nd b)" "l < sl_level sl1" by simp_all
    then have "levelNodes sl1 ?ns l = []"
      using path [of l] l(4) lmax \<open>sl_level sl1 = sl_level sl\<close> by (cases "levelNodes sl1 ?ns l") auto
    moreover have "b \<in> set (levelNodes sl1 ?ns l)" using b bl s1(2) by (simp add: same_nodes_def)
    ultimately show False by simp
  qed
  have "sl_inv ?sl' ?ns"
  proof -
    have len: "length ns = Suc (length ?ns)"
      using a(1) sl_inv_distinct [OF inv] by (rule length_filter_neq [rotated])
    have st: "sl_impl sl1 = sl_impl sl" "sl_len sl1 = sl_len sl" "sl_fresh sl1 = sl_fresh sl"
      "dom (sl_heap sl1) = dom (sl_heap sl)" "sl_level sl1 = sl_level sl"
      using s1(2) by (simp_all add: same_nodes_def)
    have hd: "length (sl_head sl1) = skipListMaxLevel" using same_nodes_head [OF s1(2)] inv by (simp add: sl_inv_def)
    have pth: "path ?sl' i p as = path sl1 i p as" for i p as by (induction as arbitrary: p) simp_all
    have lv: "levelNodes ?sl' ?ns i = levelNodes sl1 ?ns i" for i by (simp add: levelNodes_def)
    have srt: "sorted_wrt (<) (map (keyOf ?sl') ?ns)"
      using inv sn(2) by (simp add: sl_inv_def sorted_wrt_map sorted_wrt_filter)
    have hp: "b < sl_fresh sl1" if "sl_heap sl1 b \<noteq> None" for b
      using that inv st(3,4) unfolding sl_inv_def by (metis domIff)
    have nd: "b < sl_fresh sl1 \<and> 1 \<le> height sl (Nd b)" if "b \<in> set ?ns" for b
      using that inv st(3) by (simp add: sl_inv_def)
    have pths: "\<forall>i < skipListMaxLevel. path ?sl' i Head (levelNodes ?sl' ?ns i)"
      unfolding pth lv using path by blast
    have nds: "\<forall>b \<in> set ?ns. b < sl_fresh ?sl' \<and> 1 \<le> height ?sl' (Nd b) \<and> height ?sl' (Nd b) \<le> sl_level ?sl'"
      unfolding sn(1) using nd low by simp
    have "cmp_ok (sl_impl ?sl')" "1 \<le> sl_level ?sl'" "sl_level ?sl' \<le> skipListMaxLevel"
      "length (sl_head ?sl') = skipListMaxLevel" "sl_len ?sl' = int (length ?ns)"
      using inv st hd len l(2,3) by (simp_all add: sl_inv_def)
    moreover have "\<forall>b. sl_heap ?sl' b \<noteq> None \<longrightarrow> b < sl_fresh ?sl'" using hp by simp
    ultimately show ?thesis using pths nds srt unfolding sl_inv_def by blast
  qed
  with R sn show ?thesis by blast
qed

section \<open>Refinement to a sorted association list\<close>

definition entries :: "('k, 'v) SkipList \<Rightarrow> nat list \<Rightarrow> ('k \<times> 'v) list" where
  "entries sl ns = map (\<lambda>a. (keyOf sl a, valueOf sl a)) ns"

definition represents :: "('k::linorder, 'v) SkipList \<Rightarrow> ('k \<times> 'v) list \<Rightarrow> bool" where
  "represents sl xs \<longleftrightarrow> (\<exists>ns. sl_inv sl ns \<and> xs = entries sl ns)"

definition absInsert :: "'k::linorder \<Rightarrow> 'v \<Rightarrow> ('k \<times> 'v) list \<Rightarrow> ('k \<times> 'v) list" where
  "absInsert k v xs = filter (\<lambda>p. fst p < k) xs @ (k, v) # filter (\<lambda>p. k < fst p) xs"

definition absRemove :: "'k \<Rightarrow> ('k \<times> 'v) list \<Rightarrow> ('k \<times> 'v) list" where
  "absRemove k xs = filter (\<lambda>p. fst p \<noteq> k) xs"

lemma entries_simps [simp]:
  "map fst (entries sl ns) = map (keyOf sl) ns" "length (entries sl ns) = length ns"
  "fst ` set (entries sl ns) = keyOf sl ` set ns" "entries sl (as @ bs) = entries sl as @ entries sl bs"
  "entries sl [] = []" "entries sl (a # as) = (keyOf sl a, valueOf sl a) # entries sl as"
  by (auto simp: entries_def image_image)

lemma filter_entries: "filter (\<lambda>p. P (fst p)) (entries sl ns) = entries sl (filter (\<lambda>a. P (keyOf sl a)) ns)"
  by (induction ns) simp_all

lemma entries_cong:
  assumes "\<And>b. b \<in> set ns \<Longrightarrow> keyOf sl' b = keyOf sl b" "\<And>b. b \<in> set ns \<Longrightarrow> valueOf sl' b = valueOf sl b"
  shows "entries sl' ns = entries sl ns"
  using assms by (simp add: entries_def)

lemma key_unique:
  assumes "sl_inv sl ns" "a \<in> set ns" "b \<in> set ns"
  shows "keyOf sl a = keyOf sl b \<longleftrightarrow> a = b"
  using assms strict_sorted_iff [of "map (keyOf sl) ns"] by (auto simp: sl_inv_def distinct_map inj_on_def)

lemma map_of_entries:
  assumes "sl_inv sl ns"
  shows "a \<in> set ns \<Longrightarrow> map_of (entries sl ns) (keyOf sl a) = Some (valueOf sl a)"
    and "key \<notin> keyOf sl ` set ns \<Longrightarrow> map_of (entries sl ns) key = None"
proof -
  have "distinct (map fst (entries sl ns))"
    using assms strict_sorted_iff [of "map (keyOf sl) ns"] by (simp add: sl_inv_def)
  then show "map_of (entries sl ns) (keyOf sl a) = Some (valueOf sl a)" if "a \<in> set ns"
    using that by (intro map_of_is_SomeI) (auto simp: entries_def)
qed (simp add: map_of_eq_None_iff)

lemma represents_sorted: "represents sl xs \<Longrightarrow> sorted_wrt (<) (map fst xs)"
  by (auto simp: represents_def sl_inv_def)

lemma represents_Len: "represents sl xs \<Longrightarrow> Len sl = int (length xs)"
  by (auto simp: represents_def sl_inv_def Len_def)

lemma represents_init: "cmp_ok im \<Longrightarrow> represents (initList im) []"
  using initList_inv by (fastforce simp: represents_def)

lemma Find_refines:
  assumes "represents sl xs"
  shows "Find sl key = Some (map_of xs key)"
proof -
  obtain ns where ns: "sl_inv sl ns" "xs = entries sl ns" using assms by (auto simp: represents_def)
  show ?thesis
  proof (cases "key \<in> keyOf sl ` set ns")
    case True
    then obtain a where a: "a \<in> set ns" "keyOf sl a = key" by blast
    with findNode_spec(1) [OF ns(1) a] sl_inv_node [OF ns(1) a(1)] map_of_entries(1) [OF ns(1) a(1)] ns(2)
    show ?thesis by (auto simp: Find_def)
  qed (use findNode_spec(2) [OF ns(1)] map_of_entries(2) [OF ns(1)] ns(2) in \<open>simp add: Find_def\<close>)
qed

lemma Has_refines:
  assumes "represents sl xs"
  shows "Has sl key = Some (key \<in> fst ` set xs)"
proof -
  obtain ns where ns: "sl_inv sl ns" "xs = entries sl ns" using assms by (auto simp: represents_def)
  show ?thesis
    using findNode_spec(1) [OF ns(1), where key = key] findNode_spec(2) [OF ns(1), where key = key] ns(2)
    by (cases "key \<in> keyOf sl ` set ns") (auto simp: Has_def)
qed

lemma Insert_refines:
  assumes "represents sl xs" "length xs < 2 ^ 38"
  shows "\<exists>sl' r'. Insert key v sl r = Some (sl', r') \<and> represents sl' (absInsert key v xs)"
proof -
  obtain ns where ns: "sl_inv sl ns" "xs = entries sl ns" using assms by (auto simp: represents_def)
  have lo: "filter (\<lambda>p. fst p < key) xs = entries sl (below sl ns key)"
    using filter_entries [of "\<lambda>k. k < key" sl ns] ns(2) by simp
  show ?thesis
  proof (cases "key \<in> keyOf sl ` set ns")
    case False
    have "sl_len sl < 2 ^ 38" using ns assms(2) by (simp add: sl_inv_def)
    from Insert_new [OF ns(1) False this] obtain sl' r' where
      i: "Insert key v sl r = Some (sl', r')"
        "sl_inv sl' (below sl ns key @ sl_fresh sl # notBelow sl ns key)"
        "\<forall>b. keyOf sl' b = (if b = sl_fresh sl then key else keyOf sl b)"
        "\<forall>b. valueOf sl' b = (if b = sl_fresh sl then v else valueOf sl b)" by blast
    have "sl_fresh sl \<notin> set ns" using ns(1) by (auto simp: sl_inv_def)
    then have "entries sl' (filter P ns) = entries sl (filter P ns)" for P
      using i(3,4) by (intro entries_cong) auto
    moreover have "filter (\<lambda>p. key < fst p) xs = entries sl (notBelow sl ns key)"
    proof -
      have "filter (\<lambda>a. key < keyOf sl a) ns = notBelow sl ns key"
        using False by (intro filter_cong) force+
      then show ?thesis using filter_entries [of "\<lambda>k. key < k" sl ns] ns(2) by simp
    qed
    ultimately have "absInsert key v xs = entries sl' (below sl ns key @ sl_fresh sl # notBelow sl ns key)"
      using lo i(3,4) by (simp add: absInsert_def)
    with i(1,2) show ?thesis unfolding represents_def by blast
  next
    case True
    then obtain a where a: "a \<in> set ns" "keyOf sl a = key" by blast
    from Insert_old [OF ns(1) a] obtain sl' where
      i: "Insert key v sl r = Some (sl', r)" "sl_inv sl' ns" "\<forall>b. keyOf sl' b = keyOf sl b"
        "\<forall>b. valueOf sl' b = (if b = a then v else valueOf sl b)" by blast
    obtain bs where bs: "notBelow sl ns key = a # bs" using notBelow_key [OF ns(1) a] by blast
    have part: "ns = below sl ns key @ a # bs"
      using sorted_split [of "keyOf sl" ns key] ns(1) bs by (simp add: sl_inv_def)
    have dist: "a \<notin> set (below sl ns key)" "a \<notin> set bs"
      using sl_inv_distinct [OF ns(1)] part by (metis distinct_append not_distinct_conv_prefix distinct.simps(2) disjoint_insert(2) list.set(2))+
    have gt: "filter (\<lambda>a. key < keyOf sl a) ns = bs"
    proof -
      have "sorted_wrt (<) (map (keyOf sl) (a # bs))"
        using ns(1) bs [symmetric] by (simp add: sl_inv_def sorted_wrt_map sorted_wrt_filter)
      then have "filter (\<lambda>a. key < keyOf sl a) (a # bs) = bs" using a(2) by (auto intro!: filter_True)
      moreover have "filter (\<lambda>a. key < keyOf sl a) (below sl ns key) = []" by (auto simp: filter_empty_conv)
      ultimately show ?thesis by (subst part) simp
    qed
    have same: "entries sl' as = entries sl as" if "a \<notin> set as" for as
      using that i(3,4) by (intro entries_cong) auto
    have "entries sl' ns = entries sl' (below sl ns key @ a # bs)" using part by simp
    also have "\<dots> = entries sl (below sl ns key) @ (key, v) # entries sl bs"
      using same [OF dist(1)] same [OF dist(2)] i(3,4) a(2) by simp
    also have "\<dots> = absInsert key v xs"
      using lo gt filter_entries [of "\<lambda>k. key < k" sl ns] ns(2) by (simp add: absInsert_def)
    finally show ?thesis using i(1,2) unfolding represents_def by metis
  qed
qed

lemma Remove_refines:
  assumes "represents sl xs"
  shows "\<exists>sl'. Remove key sl = Some (key \<in> fst ` set xs, sl') \<and> represents sl' (absRemove key xs)"
proof -
  obtain ns where ns: "sl_inv sl ns" "xs = entries sl ns" using assms by (auto simp: represents_def)
  have abs: "absRemove key xs = entries sl (filter (\<lambda>a. keyOf sl a \<noteq> key) ns)"
    using filter_entries [of "\<lambda>k. k \<noteq> key" sl ns] ns(2) by (simp add: absRemove_def)
  show ?thesis
  proof (cases "key \<in> keyOf sl ` set ns")
    case False
    then have "filter (\<lambda>a. keyOf sl a \<noteq> key) ns = ns" by (intro filter_True) auto
    with abs ns False Remove_absent [OF ns(1) False] show ?thesis unfolding represents_def by auto
  next
    case True
    then obtain a where a: "a \<in> set ns" "keyOf sl a = key" by blast
    from Remove_present [OF ns(1) a] obtain sl' where r: "Remove key sl = Some (True, sl')"
      "sl_inv sl' (filter (\<lambda>b. b \<noteq> a) ns)" "\<forall>b. keyOf sl' b = keyOf sl b" "\<forall>b. valueOf sl' b = valueOf sl b" by blast
    have "filter (\<lambda>b. keyOf sl b \<noteq> key) ns = filter (\<lambda>b. b \<noteq> a) ns"
      using key_unique [OF ns(1) _ a(1)] a(2) by (intro filter_cong) auto
    with abs r(3,4) have "absRemove key xs = entries sl' (filter (\<lambda>b. b \<noteq> a) ns)"
      by (simp add: entries_def)
    with r(1,2) True ns(2) show ?thesis unfolding represents_def by auto
  qed
qed

lemma Clear_refines:
  assumes "represents sl xs"
  shows "represents (Clear sl) []"
proof -
  obtain ns where ns: "sl_inv sl ns" using assms by (auto simp: represents_def)
  have "sl_inv (Clear sl) []"
    using ns by (simp add: sl_inv_def Clear_def levelNodes_def next_of.simps index_def)
  then show ?thesis by (force simp: represents_def)
qed

section \<open>Iteration visits the entries in key order\<close>

text \<open>The loop \<open>for it := ...; it.IsNotEnd(); it.MoveToNext()\<close> of a client that reads every entry.\<close>

partial_function (option) drain ::
    "('k, 'v) SkipList \<Rightarrow> skipListIterator \<Rightarrow> ('k \<times> 'v) list option" where
  "drain sl it =
     (if \<not> IsNotEnd it then Some []
      else do {
        k \<leftarrow> Key sl it;
        v \<leftarrow> Value sl it;
        it \<leftarrow> MoveToNext sl it;
        rest \<leftarrow> drain sl it;
        Some ((k, v) # rest) })"

lemma notBelow_suffix:
  assumes "sl_inv sl ns" "ns = as @ bs"
  shows "path sl 0 (endp Head as) bs"
  using sl_inv_path [OF assms(1), of 0] levelNodes_0 [OF assms(1)] assms(2) path_append [of sl 0 Head as bs] by simp

abbreviation firstOf :: "'a list \<Rightarrow> 'a option" where
  "firstOf xs \<equiv> (case xs of [] \<Rightarrow> None | a # _ \<Rightarrow> Some a)"

lemma drain_suffix:
  assumes inv: "sl_inv sl ns" and ns: "ns = as @ bs @ cs"
  shows "drain sl \<lparr>it_node = firstOf (bs @ cs), it_end = firstOf cs\<rparr> = Some (entries sl bs)"
  using ns
proof (induction bs arbitrary: as)
  case Nil
  then show ?case by (subst drain.simps) (simp add: IsNotEnd_def)
next
  case (Cons b bs)
  have b: "b \<in> set ns" using Cons.prems by simp
  obtain n where n: "sl_heap sl b = Some n" "nd_key n = keyOf sl b" "nd_value n = valueOf sl b"
    using sl_inv_node [OF inv b] by blast
  have "path sl 0 (endp Head (as @ [b])) (bs @ cs)"
    by (rule notBelow_suffix [OF inv]) (simp add: Cons.prems)
  then have nxt: "next_of sl (Nd b) 0 = Some (firstOf (bs @ cs))" using path_next by fastforce
  have "b \<notin> set cs" using sl_inv_distinct [OF inv] Cons.prems by auto
  then have ne: "firstOf cs \<noteq> Some b" by (cases cs) auto
  from Cons.IH [of "as @ [b]"] Cons.prems
  have ih: "drain sl \<lparr>it_node = firstOf (bs @ cs), it_end = firstOf cs\<rparr> = Some (entries sl bs)" by simp
  show ?case
    using ne n nxt ih by (subst drain.simps) (simp add: IsNotEnd_def Key_def Value_def MoveToNext_def)
qed

lemma upperBound_spec:
  assumes inv: "sl_inv sl ns"
  shows "upperBound sl key = Some (firstOf (filter (\<lambda>a. key < keyOf sl a) ns))"
proof (cases "key \<in> keyOf sl ` set ns")
  case True
  then obtain a where a: "a \<in> set ns" "keyOf sl a = key" by blast
  obtain bs where bs: "notBelow sl ns key = a # bs" using notBelow_key [OF inv a] by blast
  obtain n where n: "sl_heap sl a = Some n" "nd_key n = keyOf sl a" using sl_inv_node [OF inv a(1)] by blast
  have part: "ns = (below sl ns key @ [a]) @ bs"
    using sorted_split [of "keyOf sl" ns key] inv bs by (simp add: sl_inv_def)
  have "path sl 0 (endp Head (below sl ns key @ [a])) bs" by (rule notBelow_suffix [OF inv part])
  then have nxt: "next_of sl (Nd a) 0 = Some (firstOf bs)" using path_next by fastforce
  have "sorted_wrt (<) (map (keyOf sl) (a # bs))"
    using inv bs [symmetric] by (simp add: sl_inv_def sorted_wrt_map sorted_wrt_filter)
  then have "filter (\<lambda>a. key < keyOf sl a) (a # bs) = bs" using a(2) by (auto intro!: filter_True)
  moreover have "filter (\<lambda>x. key < keyOf sl x) ns = filter (\<lambda>x. key < keyOf sl x) (notBelow sl ns key)"
    by (auto intro!: filter_cong)
  ultimately have "filter (\<lambda>x. key < keyOf sl x) ns = bs" using bs by simp
  with lowerBound_spec [OF inv, of key] bs n a(2) nxt show ?thesis
    by (simp add: upperBound_def sameKey_eq [OF inv])
next
  case False
  have gt: "filter (\<lambda>a. key < keyOf sl a) ns = notBelow sl ns key"
    using False by (intro filter_cong) force+
  show ?thesis
  proof (cases "notBelow sl ns key")
    case Nil
    with lowerBound_spec [OF inv, of key] gt show ?thesis by (simp add: upperBound_def)
  next
    case (Cons b bs)
    then have b: "b \<in> set ns" by (metis filter_is_subset list.set_intros(1) subsetD)
    with sl_inv_node [OF inv b] lowerBound_spec [OF inv, of key] gt Cons False show ?thesis
      by (auto simp: upperBound_def sameKey_eq [OF inv])
  qed
qed

lemma Iterate_refines:
  assumes "represents sl xs"
  shows "\<exists>it. Iterate sl = Some it \<and> drain sl it = Some xs"
proof -
  obtain ns where ns: "sl_inv sl ns" "xs = entries sl ns" using assms by (auto simp: represents_def)
  have "next_of sl Head 0 = Some (firstOf ns)"
    using path_next [OF notBelow_suffix [OF ns(1), of "[]" ns]] by simp
  with drain_suffix [OF ns(1), of "[]" ns "[]"] ns(2) show ?thesis by (simp add: Iterate_def)
qed

lemma LowerBound_refines:
  assumes "represents sl xs"
  shows "\<exists>it. LowerBound sl key = Some it \<and> drain sl it = Some (filter (\<lambda>p. key \<le> fst p) xs)"
proof -
  obtain ns where ns: "sl_inv sl ns" "xs = entries sl ns" using assms by (auto simp: represents_def)
  have part: "ns = below sl ns key @ notBelow sl ns key @ []"
    using sorted_split [of "keyOf sl" ns key] ns(1) by (simp add: sl_inv_def)
  have "filter (\<lambda>p. key \<le> fst p) xs = entries sl (notBelow sl ns key)"
    using filter_entries [of "\<lambda>k. key \<le> k" sl ns] ns(2) by (simp add: not_less)
  with lowerBound_spec [OF ns(1), of key] drain_suffix [OF ns(1) part] show ?thesis
    by (simp add: LowerBound_def)
qed

lemma UpperBound_refines:
  assumes "represents sl xs"
  shows "\<exists>it. UpperBound sl key = Some it \<and> drain sl it = Some (filter (\<lambda>p. key < fst p) xs)"
proof -
  obtain ns where ns: "sl_inv sl ns" "xs = entries sl ns" using assms by (auto simp: represents_def)
  have srt: "sorted_wrt (<) (map (keyOf sl) ns)" using ns(1) by (simp add: sl_inv_def)
  have part: "ns = filter (\<lambda>a. keyOf sl a \<le> key) ns @ filter (\<lambda>a. key < keyOf sl a) ns @ []"
    using sorted_split_le [OF srt, of key] by simp
  have "filter (\<lambda>p. key < fst p) xs = entries sl (filter (\<lambda>a. key < keyOf sl a) ns)"
    using filter_entries [of "\<lambda>k. key < k" sl ns] ns(2) by simp
  with upperBound_spec [OF ns(1), of key] drain_suffix [OF ns(1) part] show ?thesis
    by (simp add: UpperBound_def)
qed

lemma FindRange_refines:
  assumes "represents sl xs" "first \<le> final"
  shows "\<exists>it. FindRange sl first final = Some it
    \<and> drain sl it = Some (filter (\<lambda>p. first \<le> fst p \<and> fst p \<le> final) xs)"
proof -
  obtain ns where ns: "sl_inv sl ns" "xs = entries sl ns" using assms by (auto simp: represents_def)
  have srt: "sorted_wrt (<) (map (keyOf sl) ns)" using ns(1) by (simp add: sl_inv_def)
  let ?M = "filter (\<lambda>a. first \<le> keyOf sl a \<and> keyOf sl a \<le> final) ns"
  let ?H = "filter (\<lambda>a. final < keyOf sl a) ns"
  have "notBelow sl ns first = filter (\<lambda>a. keyOf sl a \<le> final) (notBelow sl ns first)
      @ filter (\<lambda>a. final < keyOf sl a) (notBelow sl ns first)"
    by (rule sorted_split_le) (use srt in \<open>simp add: sorted_wrt_map sorted_wrt_filter\<close>)
  moreover have "filter (\<lambda>a. keyOf sl a \<le> final) (notBelow sl ns first) = ?M"
    by (auto intro!: filter_cong)
  moreover have "filter (\<lambda>a. final < keyOf sl a) (notBelow sl ns first) = ?H"
    using assms(2) by (auto intro!: filter_cong)
  ultimately have nb: "notBelow sl ns first = ?M @ ?H" by metis
  have part: "ns = below sl ns first @ ?M @ ?H"
    using sorted_split [OF srt, of first] nb by simp
  have "filter (\<lambda>p. first \<le> fst p \<and> fst p \<le> final) xs = entries sl ?M"
    using filter_entries [of "\<lambda>k. first \<le> k \<and> k \<le> final" sl ns] ns(2) by simp
  with lowerBound_spec [OF ns(1), of first] upperBound_spec [OF ns(1), of final] drain_suffix [OF ns(1) part] nb
  show ?thesis by (simp add: FindRange_def)
qed

text \<open>The callback loop: what the callback leaves in the values, and its final state.\<close>

fun absForEach :: "('k \<Rightarrow> 'v \<Rightarrow> 's \<Rightarrow> 'v \<times> 's \<times> bool) \<Rightarrow> ('k \<times> 'v) list \<Rightarrow> 's \<Rightarrow> ('k \<times> 'v) list \<times> 's" where
  "absForEach op [] s = ([], s)"
| "absForEach op ((k, v) # xs) s =
     (let (v', s', c) = op k v s
      in if \<not> c then ((k, v') # xs, s')
         else let (ys, s'') = absForEach op xs s' in ((k, v') # ys, s''))"

lemma forEachLoop_refines:
  assumes "sl_inv sl ns" "ns = as @ bs"
  shows "\<exists>sl'. forEachLoop op (firstOf bs) sl s = Some (sl', snd (absForEach op (entries sl bs) s))
    \<and> sl_inv sl' ns \<and> entries sl' ns = entries sl as @ fst (absForEach op (entries sl bs) s)"
  using assms
proof (induction bs arbitrary: as sl s)
  case Nil
  then show ?case by (subst forEachLoop.simps) auto
next
  case (Cons b bs)
  obtain n where n: "sl_heap sl b = Some n" "nd_key n = keyOf sl b" "nd_value n = valueOf sl b"
    using sl_inv_node [OF Cons.prems(1)] Cons.prems(2) by fastforce
  obtain v' s' c where op: "op (keyOf sl b) (valueOf sl b) s = (v', s', c)" by (metis prod_cases3)
  let ?sl1 = "sl\<lparr>sl_heap := (sl_heap sl)(b \<mapsto> n\<lparr>nd_value := v'\<rparr>)\<rparr>"
  note fr = update_value_frame [OF n(1), of v']
  have inv1: "sl_inv ?sl1 ns" by (rule sl_inv_cong [OF Cons.prems(1)]) (use fr n(1) in auto)
  have dist: "b \<notin> set as" "b \<notin> set bs" using sl_inv_distinct [OF Cons.prems(1)] Cons.prems(2) by auto
  have same: "entries ?sl1 xs = entries sl xs" if "b \<notin> set xs" for xs
    using that fr by (intro entries_cong) auto
  have kv: "keyOf ?sl1 b = keyOf sl b" "valueOf ?sl1 b = v'" using fr by simp_all
  have "path sl 0 (endp Head (as @ [b])) bs"
    by (rule notBelow_suffix [OF Cons.prems(1)]) (simp add: Cons.prems(2))
  then have nxt: "next_of ?sl1 (Nd b) 0 = Some (firstOf bs)" using path_next fr(1) by fastforce
  show ?case
  proof (cases c)
    case False
    then have "forEachLoop op (firstOf (b # bs)) sl s = Some (?sl1, s')"
      using n op by (subst forEachLoop.simps) simp
    moreover have "entries ?sl1 ns = entries sl as @ (keyOf sl b, v') # entries sl bs"
      using Cons.prems(2) same [OF dist(1)] same [OF dist(2)] kv by simp
    ultimately show ?thesis using inv1 op False by simp
  next
    case True
    then have step: "forEachLoop op (firstOf (b # bs)) sl s = forEachLoop op (firstOf bs) ?sl1 s'"
      using n op nxt by (subst forEachLoop.simps) simp
    from Cons.IH [OF inv1, of "as @ [b]" s'] Cons.prems(2) obtain sl' where
      "forEachLoop op (firstOf bs) ?sl1 s' = Some (sl', snd (absForEach op (entries ?sl1 bs) s'))"
      "sl_inv sl' ns" "entries sl' ns = entries ?sl1 (as @ [b]) @ fst (absForEach op (entries ?sl1 bs) s')" by auto
    then show ?thesis using step op True same [OF dist(1)] same [OF dist(2)] kv
      by (simp add: split_beta Let_def)
  qed
qed

lemma ForEachMutableIf_refines:
  assumes "represents sl xs"
  shows "\<exists>sl'. ForEachMutableIf op sl s = Some (sl', snd (absForEach op xs s))
    \<and> represents sl' (fst (absForEach op xs s))"
proof -
  obtain ns where ns: "sl_inv sl ns" "xs = entries sl ns" using assms by (auto simp: represents_def)
  have "next_of sl Head 0 = Some (firstOf ns)"
    using path_next [OF notBelow_suffix [OF ns(1), of "[]" ns]] by simp
  with forEachLoop_refines [OF ns(1), of "[]" ns op s] ns(2) show ?thesis
    unfolding represents_def by (simp add: ForEachMutableIf_def) metis
qed

section \<open>The interface clients rely on\<close>

text \<open>
  A client of an ordered map sees its contents as a list of pairs sorted by key; the operations
  never fail while the map holds fewer than \<open>cap\<close> entries.
\<close>

locale ordered_map =
  fixes rep :: "'s \<Rightarrow> ('k::linorder \<times> 'v) list \<Rightarrow> bool"
    and insert_op :: "'k \<Rightarrow> 'v \<Rightarrow> 's \<Rightarrow> rand \<Rightarrow> ('s \<times> rand) option"
    and remove_op :: "'k \<Rightarrow> 's \<Rightarrow> (bool \<times> 's) option"
    and find_op :: "'s \<Rightarrow> 'k \<Rightarrow> 'v option option"
    and clear_op :: "'s \<Rightarrow> 's"
    and cap :: nat
  assumes sorted: "rep s xs \<Longrightarrow> sorted_wrt (<) (map fst xs)"
    and insert_ok: "rep s xs \<Longrightarrow> length xs < cap \<Longrightarrow>
      \<exists>s' r'. insert_op k v s r = Some (s', r') \<and> rep s' (absInsert k v xs)"
    and remove_ok: "rep s xs \<Longrightarrow>
      \<exists>s'. remove_op k s = Some (k \<in> fst ` set xs, s') \<and> rep s' (absRemove k xs)"
    and find_ok: "rep s xs \<Longrightarrow> find_op s k = Some (map_of xs k)"
    and clear_ok: "rep s xs \<Longrightarrow> rep (clear_op s) []"

lemma map_of_filter_key: "map_of (filter (\<lambda>p. P (fst p)) xs) k = (if P k then map_of xs k else None)"
  by (induction xs) auto

lemma map_of_absInsert: "map_of (absInsert k v xs) k' = (if k' = k then Some v else map_of xs k')"
proof (cases "map_of (filter (\<lambda>p. fst p < k) xs) k'")
  case None
  then show ?thesis
    by (auto simp: absInsert_def map_add_def map_of_filter_key [where P = "\<lambda>x. x < k"]
        map_of_filter_key [where P = "\<lambda>x. k < x"] split: option.splits if_splits)
next
  case (Some y)
  then show ?thesis
    by (auto simp: absInsert_def map_add_def map_of_filter_key [where P = "\<lambda>x. x < k"]
        map_of_filter_key [where P = "\<lambda>x. k < x"] split: option.splits if_splits)
qed

lemma map_of_absRemove: "map_of (absRemove k xs) k' = (if k' = k then None else map_of xs k')"
  using map_of_filter_key [of "\<lambda>x. x \<noteq> k" xs k'] by (auto simp: absRemove_def)

lemma length_absInsert: "length (absInsert k v xs) \<le> Suc (length xs)"
proof -
  have "length (filter (\<lambda>p. fst p < k) xs) + length (filter (\<lambda>p. k < fst p) xs) \<le> length xs"
    by (induction xs) auto
  then show ?thesis by (simp add: absInsert_def)
qed

lemma length_absRemove: "length (absRemove k xs) \<le> length xs"
  by (simp add: absRemove_def)

lemma absRemove_absInsert:
  assumes "sorted_wrt (<) (map fst xs)" "k \<notin> fst ` set xs"
  shows "absRemove k (absInsert k v xs) = xs"
proof -
  have "xs = filter (\<lambda>p. fst p < k) xs @ filter (\<lambda>p. \<not> fst p < k) xs"
    by (rule sorted_split [OF assms(1)])
  moreover have "filter (\<lambda>p. \<not> fst p < k) xs = filter (\<lambda>p. k < fst p) xs"
    using assms(2) by (intro filter_cong) force+
  moreover have "filter (\<lambda>p. fst p \<noteq> k) (filter P xs) = filter P xs" for P
    using assms(2) by (intro filter_True) force
  ultimately show ?thesis by (simp add: absRemove_def absInsert_def)
qed

text \<open>Operations as data, to speak of whole histories.\<close>

datatype ('k, 'v) mapOp = OpInsert 'k 'v | OpRemove 'k | OpClear

fun absOp :: "('k::linorder, 'v) mapOp \<Rightarrow> ('k \<times> 'v) list \<Rightarrow> ('k \<times> 'v) list" where
  "absOp (OpInsert k v) xs = absInsert k v xs"
| "absOp (OpRemove k) xs = absRemove k xs"
| "absOp OpClear xs = []"

fun runMap :: "('k \<Rightarrow> 'v \<Rightarrow> 's \<Rightarrow> rand \<Rightarrow> ('s \<times> rand) option) \<Rightarrow> ('k \<Rightarrow> 's \<Rightarrow> (bool \<times> 's) option) \<Rightarrow> ('s \<Rightarrow> 's)
    \<Rightarrow> ('k, 'v) mapOp list \<Rightarrow> 's \<Rightarrow> rand \<Rightarrow> ('s \<times> rand) option" where
  "runMap ins del clr [] s r = Some (s, r)"
| "runMap ins del clr (OpInsert k v # ops) s r =
     (case ins k v s r of None \<Rightarrow> None | Some (s, r) \<Rightarrow> runMap ins del clr ops s r)"
| "runMap ins del clr (OpRemove k # ops) s r =
     (case del k s of None \<Rightarrow> None | Some (_, s) \<Rightarrow> runMap ins del clr ops s r)"
| "runMap ins del clr (OpClear # ops) s r = runMap ins del clr ops (clr s) r"

context ordered_map
begin

lemma find_insert:
  assumes "rep s xs" "length xs < cap" "insert_op k v s r = Some (s', r')"
  shows "find_op s' k' = (if k' = k then Some (Some v) else find_op s k')"
proof -
  from insert_ok [OF assms(1,2), of k v r] assms(3) have "rep s' (absInsert k v xs)" by auto
  with find_ok [OF this, of k'] find_ok [OF assms(1), of k'] show ?thesis by (simp add: map_of_absInsert)
qed

lemma find_remove:
  assumes "rep s xs" "remove_op k s = Some (b, s')"
  shows "find_op s' k' = (if k' = k then Some None else find_op s k')"
proof -
  from remove_ok [OF assms(1), of k] assms(2) have "rep s' (absRemove k xs)" by auto
  with find_ok [OF this, of k'] find_ok [OF assms(1), of k'] show ?thesis by (simp add: map_of_absRemove)
qed

lemma run_refines:
  assumes "rep s xs" "length xs + length ops \<le> cap"
  shows "\<exists>s' r'. runMap insert_op remove_op clear_op ops s r = Some (s', r') \<and> rep s' (foldl (\<lambda>xs p. absOp p xs) xs ops)"
  using assms
proof (induction ops arbitrary: s xs r)
  case (Cons p ops)
  show ?case
  proof (cases p)
    case (OpInsert k v)
    have "length xs < cap" using Cons.prems(2) by simp
    from insert_ok [OF Cons.prems(1) this, of k v r] obtain s1 r1 where
      s1: "insert_op k v s r = Some (s1, r1)" "rep s1 (absInsert k v xs)" by blast
    have "length (absInsert k v xs) + length ops \<le> cap" using length_absInsert [of k v xs] Cons.prems(2) by simp
    from Cons.IH [OF s1(2) this] s1(1) OpInsert show ?thesis by simp
  next
    case (OpRemove k)
    from remove_ok [OF Cons.prems(1), of k] obtain b s1 where
      s1: "remove_op k s = Some (b, s1)" "rep s1 (absRemove k xs)" by blast
    have "length (absRemove k xs) + length ops \<le> cap" using length_absRemove [of k xs] Cons.prems(2) by simp
    from Cons.IH [OF s1(2) this] s1(1) OpRemove show ?thesis by simp
  next
    case OpClear
    from Cons.IH [OF clear_ok [OF Cons.prems(1)]] Cons.prems(2) OpClear show ?thesis by simp
  qed
qed auto

end

interpretation skl: ordered_map represents Insert Remove Find Clear "2 ^ 38"
  by unfold_locales
    (rule represents_sorted Insert_refines Remove_refines Find_refines Clear_refines, assumption+)+

section \<open>Properties\<close>



text \<open>
  \<open>Insert\<close> makes the new pair visible and no other lookup changes; a later \<open>Remove\<close> of
  the same key answers \<open>true\<close> and makes it invisible again.
\<close>

theorem skiplist_insert_remove:
  assumes "represents sl xs" "length xs < 2 ^ 38"
  shows "\<exists>sl1 r1 sl2. Insert k v sl r = Some (sl1, r1) \<and> Remove k sl1 = Some (True, sl2)
    \<and> (\<forall>k'. Find sl1 k' = (if k' = k then Some (Some v) else Find sl k'))
    \<and> (\<forall>k'. Find sl2 k' = (if k' = k then Some None else Find sl k'))"
proof -
  from Insert_refines [OF assms] obtain sl1 r1 where i: "Insert k v sl r = Some (sl1, r1)"
    "represents sl1 (absInsert k v xs)" by blast
  moreover have "k \<in> fst ` set (absInsert k v xs)" by (simp add: absInsert_def)
  ultimately obtain sl2 where r: "Remove k sl1 = Some (True, sl2)"
    using Remove_refines [of sl1 "absInsert k v xs" k] by auto
  from i(1) r skl.find_insert [OF assms i(1)] skl.find_remove [OF i(2) r] show ?thesis by simp
qed

theorem skiplist_insert_remove_witness:
  "\<exists>sl1 r1 sl2. Insert (7::nat) True NewSkipList [] = Some (sl1, r1) \<and> Remove 7 sl1 = Some (True, sl2)
    \<and> Find sl1 7 = Some (Some True)"
proof -
  have "represents (NewSkipList :: (nat, bool) SkipList) []"
    unfolding NewSkipList_def by (rule represents_init) (simp add: cmp_ok_def)
  from skiplist_insert_remove [OF this, of 7 True "[]"] show ?thesis by auto
qed

text \<open>
  \<open>FindRange(first, last)\<close> visits exactly the entries with keys in the closed interval
  from \<open>first\<close> to \<open>last\<close>, \<open>last\<close> included (its comment says that it is excluded).
\<close>

theorem skiplist_FindRange_closed:
  assumes "represents sl xs" "first \<le> final"
  shows "\<exists>it. FindRange sl first final = Some it
    \<and> drain sl it = Some (filter (\<lambda>p. first \<le> fst p \<and> fst p \<le> final) xs)"
  by (rule FindRange_refines [OF assms])

theorem skiplist_FindRange_closed_witness:
  "\<exists>sl it. FindRange sl (1::nat) 2 = Some it \<and> drain sl it = Some [(2, ''b'')]"
proof -
  have "represents (NewSkipList :: (nat, string) SkipList) []"
    unfolding NewSkipList_def by (rule represents_init) (simp add: cmp_ok_def)
  from Insert_refines [OF this, of 2 "''b''" "[]"] obtain sl where
    "represents sl (absInsert (2::nat) ''b'' [])" by auto
  from skiplist_FindRange_closed [OF this, of 1 2] show ?thesis by (auto simp: absInsert_def)
qed

text \<open>
  A level above the table: when the random draw is a multiple of \<open>2 ^ 40 - 1\<close> and the
  list holds \<open>2 ^ 38\<close> entries or more, \<open>randomLevel\<close> answers 41 and the node constructor panics.
\<close>

theorem randomLevel_exceeds_table:
  assumes "2 ^ 38 \<le> sl_len sl" "unat (fst (randUint64 r)) mod (2 ^ skipListMaxLevel - 1) = 0"
  shows "fst (randomLevel sl r) = 41 \<and> newSkipListNode (fst (randomLevel sl r)) k v = None"
proof -
  have "limitLevel (sl_len sl) 41 = 41" using assms(1) by (subst limitLevel.simps) simp
  then have "fst (randomLevel sl r) = 41"
    using assms(2) unfolding randomLevel_def Let_def split_beta by (simp add: bitLen_0)
  then show ?thesis by (simp add: newSkipListNode_def)
qed

theorem randomLevel_exceeds_table_witness:
  "newSkipListNode (fst (randomLevel (NewSkipList\<lparr>sl_len := 2 ^ 38\<rparr> :: (nat, nat) SkipList) [0])) True False = None"
proof -
  have r: "unat (fst (randUint64 [0])) mod (2 ^ skipListMaxLevel - 1) = 0" by (simp add: randUint64_def)
  have len: "2 ^ 38 \<le> sl_len (NewSkipList\<lparr>sl_len := 2 ^ 38\<rparr> :: (nat, nat) SkipList)" by simp
  show ?thesis by (rule conjunct2 [OF randomLevel_exceeds_table [OF len r]])
qed

end
