(* ===== verification/Pool.thy ===== *)
theory Pool
  imports Session_Trace SkipList_Map
begin

text \<open>
  \<open>session/client.go\<close>: the client's pool of sessions.  A session object is its index in \<open>cl_objs\<close>; the
  table \<open>sessions\<close> and the skip list of idle sessions refer to it.  The hooks a session and its streams
  carry run inside the session's operations; the model runs the operation first and then the hooks, in
  the order of the events it emitted: a hook touches only the pool, and of the session only its stream
  counter.  \<open>go session.Close()\<close> records the session in \<open>cl_closing\<close>.  A crash inside the skip list makes
  an operation \<open>None\<close>.
\<close>

section \<open>State\<close>

text \<open>\<open>ps_opened\<close>: the streams that carry the pool's die hook.\<close>

record pooled =
  ps_session :: Session
  ps_seq :: u64
  ps_idleSince :: int
  ps_opened :: "nat list"

record Client =
  cl_die :: bool
  cl_sessionCounter :: u64
  cl_idleSession :: "(u64, nat) SkipList"
  cl_sessions :: "(u64 \<times> nat) list"
  cl_padding :: PaddingFactory
  cl_idleSessionTimeout :: duration
  cl_minIdleSession :: int
  cl_maxSession :: int
  cl_heartbeatInterval :: duration
  cl_heartbeatQuietWindow :: duration
  cl_heartbeatTimeout :: duration
  cl_migEnabled :: bool
  cl_objs :: "pooled list"
  cl_closing :: "nat list"
  cl_now :: int
  cl_rand :: rand

abbreviation sess :: "Client \<Rightarrow> nat \<Rightarrow> Session" where
  "sess c k \<equiv> ps_session (cl_objs c ! k)"

definition updPooled :: "nat \<Rightarrow> (pooled \<Rightarrow> pooled) \<Rightarrow> Client \<Rightarrow> Client" where
  "updPooled k f c = c\<lparr>cl_objs := (cl_objs c)[k := f (cl_objs c ! k)]\<rparr>"

definition addActive :: "nat \<Rightarrow> int \<Rightarrow> Client \<Rightarrow> Client" where
  "addActive k d c = updPooled k (\<lambda>p. p\<lparr>ps_session :=
     (ps_session p)\<lparr>ss_activeStreams := ss_activeStreams (ps_session p) + d\<rparr>\<rparr>) c"

definition spawnClose :: "nat \<Rightarrow> Client \<Rightarrow> Client" where
  "spawnClose k c = c\<lparr>cl_closing := cl_closing c @ [k]\<rparr>"

text \<open>\<open>NewClient\<close>: the check interval the cleanup loop will use, and the client.\<close>

definition NewClient ::
    "PaddingFactory \<Rightarrow> duration \<Rightarrow> duration \<Rightarrow> int \<Rightarrow> int \<Rightarrow> duration \<Rightarrow> duration \<Rightarrow> duration \<Rightarrow> int \<Rightarrow> rand
      \<Rightarrow> duration \<times> Client" where
  "NewClient pf checkInterval timeout minIdle maxSession hbInterval hbQuiet hbTimeout now r =
     (let checkInterval = (if checkInterval \<le> 5 * second then 30 * second else checkInterval);
          timeout = (if timeout \<le> 5 * second then 30 * second else timeout)
      in (checkInterval,
          \<lparr>cl_die = False, cl_sessionCounter = 0, cl_idleSession = NewSkipList, cl_sessions = [], cl_padding = pf,
           cl_idleSessionTimeout = timeout, cl_minIdleSession = minIdle, cl_maxSession = maxSession,
           cl_heartbeatInterval = hbInterval, cl_heartbeatQuietWindow = hbQuiet, cl_heartbeatTimeout = hbTimeout,
           cl_migEnabled = False, cl_objs = [], cl_closing = [], cl_now = now, cl_rand = r\<rparr>))"

definition SetMigrationEnabled :: "bool \<Rightarrow> Client \<Rightarrow> Client" where
  "SetMigrationEnabled enabled c = c\<lparr>cl_migEnabled := enabled\<rparr>"

section \<open>Hooks\<close>

text \<open>\<open>math.MaxUint64 - session.seq\<close>: the newest session comes first.\<close>

definition idleKey :: "nat \<Rightarrow> Client \<Rightarrow> u64" where
  "idleKey k c = - 1 - ps_seq (cl_objs c ! k)"

definition unIdle :: "u64 \<Rightarrow> Client \<Rightarrow> Client option" where
  "unIdle key c = do {
     (_, sl) \<leftarrow> Remove key (cl_idleSession c);
     Some (c\<lparr>cl_idleSession := sl\<rparr>) }"

definition putIdle :: "nat \<Rightarrow> Client \<Rightarrow> Client option" where
  "putIdle k c = do {
     let c = updPooled k (\<lambda>p. p\<lparr>ps_idleSince := cl_now c\<rparr>) c;
     (sl, r) \<leftarrow> Insert (idleKey k c) k (cl_idleSession c) (cl_rand c);
     Some (c\<lparr>cl_idleSession := sl, cl_rand := r\<rparr>) }"

text \<open>The session's die hook, set by \<open>createSession\<close>.\<close>

definition sessionDieHook :: "nat \<Rightarrow> Client \<Rightarrow> Client option" where
  "sessionDieHook k c = do {
     c \<leftarrow> unIdle (idleKey k c) c;
     Some (c\<lparr>cl_sessions := AList.delete (ps_seq (cl_objs c ! k)) (cl_sessions c)\<rparr>) }"

text \<open>\<open>closed\<close> is what \<open>IsClosed\<close> answers while the hook runs.\<close>

definition streamDieHook :: "nat \<Rightarrow> bool \<Rightarrow> Client \<Rightarrow> Client option" where
  "streamDieHook k closed c =
     (let c = addActive k (- 1) c
      in if ss_activeStreams (sess c k) > 0 then Some c
         else if \<not> closed \<and> \<not> ss_connBroken (sess c k)
         then if cl_die c then Some (spawnClose k c) else putIdle k c
         else if ss_connBroken (sess c k) \<and> \<not> closed then Some (spawnClose k c)
         else Some c)"

primrec fireHooks :: "nat \<Rightarrow> bool \<Rightarrow> event list \<Rightarrow> Client \<Rightarrow> Client option" where
  "fireHooks k closed [] c = Some c"
| "fireHooks k closed (e # es) c =
     (if e = EvSessionDied then do { c \<leftarrow> sessionDieHook k c; fireHooks k True es c }
      else if e \<in> EvStreamDied ` set (ps_opened (cl_objs c ! k))
      then do { c \<leftarrow> streamDieHook k closed c; fireHooks k closed es c }
      else fireHooks k closed es c)"

text \<open>An operation of session \<open>k\<close> has led to the state \<open>s\<close>; now the hooks.\<close>

definition sessionMoved :: "nat \<Rightarrow> Session \<Rightarrow> Client \<Rightarrow> Client option" where
  "sessionMoved k s c =
     fireHooks k (IsClosed (sess c k)) (newEvents (sess c k) s) (updPooled k (\<lambda>p. p\<lparr>ps_session := s\<rparr>) c)"

definition closeSession :: "nat \<Rightarrow> Client \<Rightarrow> Client option" where
  "closeSession k c = sessionMoved k (snd (Close (sess c k))) c"

primrec closeSessions :: "nat list \<Rightarrow> Client \<Rightarrow> Client option" where
  "closeSessions [] c = Some c"
| "closeSessions (k # ks) c = do { c \<leftarrow> closeSession k c; closeSessions ks c }"

section \<open>Opening streams\<close>

definition openOn :: "nat \<Rightarrow> Client \<Rightarrow> ((go_error + nat) \<times> Client) option" where
  "openOn k c = do {
     let c = addActive k 1 c;
     let ((i, err), s) = OpenStream (sess c k);
     let c0 = updPooled k (\<lambda>p. p\<lparr>ps_opened := ps_opened p @ (case i of None \<Rightarrow> [] | Some i \<Rightarrow> [i])\<rparr>) c;
     c \<leftarrow> sessionMoved k s c0;
     case err of
       None \<Rightarrow> Some (Inr (the i), c)
     | Some e \<Rightarrow>
         Some (Inl e, if i = None \<or> st_dieErr (ss_objs (sess c k) ! the i) = None then addActive k (- 1) c else c) }"

definition activeSessionCount :: "Client \<Rightarrow> int" where
  "activeSessionCount c = int (length (cl_sessions c))"

definition unusable :: "Session \<Rightarrow> bool" where
  "unusable s \<longleftrightarrow> IsClosed s \<or> ss_connBroken s"

text \<open>\<open>order\<close> is the order in which \<open>range\<close> visits the map.\<close>

definition lighter :: "Client \<Rightarrow> (nat \<times> int) option \<Rightarrow> u64 \<times> nat \<Rightarrow> (nat \<times> int) option" where
  "lighter c best entry =
     (let k = snd entry; load = ss_activeStreams (sess c k)
      in if unusable (sess c k) then best
         else case best of
                None \<Rightarrow> Some (k, load)
              | Some (_, bestLoad) \<Rightarrow> if load < bestLoad then Some (k, load) else best)"

definition leastLoadedSession :: "((u64 \<times> nat) list \<Rightarrow> (u64 \<times> nat) list) \<Rightarrow> Client \<Rightarrow> nat option" where
  "leastLoadedSession order c = map_option fst (foldl (lighter c) None (order (cl_sessions c)))"

partial_function (option) getIdleSession :: "Client \<Rightarrow> (nat option \<times> Client) option" where
  "getIdleSession c =
     (if IsEmpty (cl_idleSession c) then Some (None, c)
      else do {
        it \<leftarrow> Iterate (cl_idleSession c);
        k \<leftarrow> Value (cl_idleSession c) it;
        key \<leftarrow> Key (cl_idleSession c) it;
        c \<leftarrow> unIdle key c;
        if unusable (sess c k)
        then getIdleSession (if ss_connBroken (sess c k) \<and> \<not> IsClosed (sess c k) then spawnClose k c else c)
        else Some (Some k, c) })"

definition createSession :: "go_error + conn \<Rightarrow> Client \<Rightarrow> ((go_error + nat) \<times> Client) option" where
  "createSession dialled c =
     (case dialled of
        Inl e \<Rightarrow> Some (Inl e, c)
      | Inr underlying \<Rightarrow> do {
          let session = (NewClientSession underlying (cl_padding c) (cl_now c) (cl_rand c))\<lparr>ss_migActive := cl_migEnabled c\<rparr>;
          let seq = cl_sessionCounter c + 1;
          let k = length (cl_objs c);
          let c = c\<lparr>cl_sessionCounter := seq,
                    cl_objs := cl_objs c @ [\<lparr>ps_session = session, ps_seq = seq, ps_idleSince = 0, ps_opened = []\<rparr>],
                    cl_sessions := AList.update seq k (cl_sessions c)\<rparr>;
          c \<leftarrow> sessionMoved k (Run session) c;
          Some (Inr k, c) })"

text \<open>A stream is named by its session and its index there.\<close>

definition tryIdle :: "Client \<Rightarrow> ((nat \<times> nat) option \<times> Client) option" where
  "tryIdle c = do {
     (idle, c) \<leftarrow> getIdleSession c;
     case idle of
       None \<Rightarrow> Some (None, c)
     | Some k \<Rightarrow> do {
         (res, c) \<leftarrow> openOn k c;
         case res of
           Inr i \<Rightarrow> Some (Some (k, i), c)
         | Inl e \<Rightarrow> do { c \<leftarrow> closeSession k c; Some (None, c) } } }"

definition tryReuse :: "((u64 \<times> nat) list \<Rightarrow> (u64 \<times> nat) list) \<Rightarrow> Client \<Rightarrow> ((nat \<times> nat) option \<times> Client) option" where
  "tryReuse order c =
     (if cl_maxSession c > 0 \<and> activeSessionCount c \<ge> cl_maxSession c
      then case leastLoadedSession order c of
             None \<Rightarrow> Some (None, c)
           | Some k \<Rightarrow> do {
               (res, c) \<leftarrow> openOn k c;
               case res of
                 Inr i \<Rightarrow> Some (Some (k, i), c)
               | Inl e \<Rightarrow> Some (None, c) }
      else Some (None, c))"

definition CreateStream ::
    "((u64 \<times> nat) list \<Rightarrow> (u64 \<times> nat) list) \<Rightarrow> go_error + conn \<Rightarrow> Client
      \<Rightarrow> ((go_error + nat \<times> nat) \<times> Client) option" where
  "CreateStream order dialled c =
     (if cl_die c then Some (Inl ErrClosedPipe, c)
      else do {
        (found, c) \<leftarrow> tryIdle c;
        case found of
          Some st \<Rightarrow> Some (Inr st, c)
        | None \<Rightarrow> do {
            (found, c) \<leftarrow> tryReuse order c;
            case found of
              Some st \<Rightarrow> Some (Inr st, c)
            | None \<Rightarrow> do {
                (made, c) \<leftarrow> createSession dialled c;
                case made of
                  Inl e \<Rightarrow> Some (Inl (OtherError ''failed to create session''), c)
                | Inr k \<Rightarrow> do {
                    (res, c) \<leftarrow> openOn k c;
                    case res of
                      Inr i \<Rightarrow> Some (Inr (k, i), c)
                    | Inl e \<Rightarrow> do { c \<leftarrow> closeSession k c; Some (Inl (OtherError ''failed to create stream''), c) } } } } })"

section \<open>Closing\<close>

definition pastDeadline :: "int \<Rightarrow> pooled \<Rightarrow> pooled" where
  "pastDeadline now p = p\<lparr>ps_session := setConn (SetWriteDeadline (Some (now - second)) (ss_conn (ps_session p))) (ps_session p)\<rparr>"

definition Reset :: "Client \<Rightarrow> Client option" where
  "Reset c =
     (if cl_die c then Some c
      else do {
        it \<leftarrow> Iterate (cl_idleSession c);
        idle \<leftarrow> drain (cl_idleSession c) it;
        let c = c\<lparr>cl_idleSession := Clear (cl_idleSession c)\<rparr>;
        let ks = map snd (cl_sessions c) @ map snd idle;
        let c = fold (\<lambda>k. updPooled k (pastDeadline (cl_now c))) ks c;
        Some (c\<lparr>cl_closing := cl_closing c @ ks\<rparr>) })"

definition poolClose :: "Client \<Rightarrow> Client option" where
  "poolClose c = closeSessions (map snd (cl_sessions c)) (c\<lparr>cl_die := True, cl_sessions := []\<rparr>)"

text \<open>
  The loop of \<open>idleCleanupExpTime\<close>, from the iterator's position on: the sessions it keeps so far and
  the sessions to close.
\<close>

partial_function (option) cleanupLoop ::
    "int \<Rightarrow> int \<Rightarrow> nat list \<Rightarrow> skipListIterator \<Rightarrow> Client \<Rightarrow> (nat list \<times> Client) option" where
  "cleanupLoop expTime activeCount toClose it c =
     (if \<not> IsNotEnd it then Some (toClose, c)
      else do {
        k \<leftarrow> Value (cl_idleSession c) it;
        key \<leftarrow> Key (cl_idleSession c) it;
        it \<leftarrow> MoveToNext (cl_idleSession c) it;
        if unusable (sess c k)
        then do {
          c \<leftarrow> unIdle key c;
          cleanupLoop expTime activeCount
            (if ss_connBroken (sess c k) \<and> \<not> IsClosed (sess c k) then toClose @ [k] else toClose) it c }
        else if ss_activeStreams (sess c k) > 0
        then do { c \<leftarrow> unIdle key c; cleanupLoop expTime activeCount toClose it c }
        else if \<not> ps_idleSince (cl_objs c ! k) < expTime
        then cleanupLoop expTime (activeCount + 1) toClose it c
        else if activeCount < cl_minIdleSession c
        then cleanupLoop expTime (activeCount + 1) toClose it (updPooled k (\<lambda>p. p\<lparr>ps_idleSince := cl_now c\<rparr>) c)
        else do { c \<leftarrow> unIdle key c; cleanupLoop expTime activeCount (toClose @ [k]) it c } })"

definition idleCleanupExpTime :: "int \<Rightarrow> Client \<Rightarrow> Client option" where
  "idleCleanupExpTime expTime c = do {
     it \<leftarrow> Iterate (cl_idleSession c);
     (toClose, c) \<leftarrow> cleanupLoop expTime 0 [] it c;
     closeSessions toClose c }"

definition idleCleanup :: "Client \<Rightarrow> Client option" where
  "idleCleanup c = idleCleanupExpTime (cl_now c - cl_idleSessionTimeout c) c"

end
