(* ===== verification/Pool_Inv.thy ===== *)
theory Pool_Inv
  imports Pool
begin

text \<open>
  The invariant of the pool and its preservation by the hooks and every operation, each of which returns:
  the stream counter of a session is the number of its open streams, and only open sessions are in the
  table or idle.
\<close>

section \<open>Total correctness of operations that may crash\<close>

definition runs :: "'a option \<Rightarrow> ('a \<Rightarrow> bool) \<Rightarrow> bool" where
  "runs m Q \<longleftrightarrow> (\<exists>x. m = Some x \<and> Q x)"

lemma runs_Some [simp]: "runs (Some x) Q \<longleftrightarrow> Q x"
  by (simp add: runs_def)

lemma runs_bind: "runs m (\<lambda>x. runs (f x) Q) \<Longrightarrow> runs (Option.bind m f) Q"
  by (auto simp: runs_def)

lemma runs_mono: "runs m P \<Longrightarrow> (\<And>x. P x \<Longrightarrow> Q x) \<Longrightarrow> runs m Q"
  by (auto simp: runs_def)

lemma runs_then: "runs m P \<Longrightarrow> (\<And>x. P x \<Longrightarrow> runs (f x) Q) \<Longrightarrow> runs (Option.bind m f) Q"
  by (auto simp: runs_def)

section \<open>The invariant\<close>

definition pooled_ok :: "pooled \<Rightarrow> int \<Rightarrow> bool" where
  "pooled_ok p pending \<longleftrightarrow>
     session_inv (ps_session p) \<and> distinct (ps_opened p) \<and>
     (\<forall>i \<in> set (ps_opened p). i < length (ss_objs (ps_session p))) \<and>
     ss_activeStreams (ps_session p) = int (living (ss_objs (ps_session p)) (ps_opened p)) + pending"

text \<open>\<open>xs\<close> is what the skip list holds; \<open>open k\<close> says that session \<open>k\<close> may be in the pool.\<close>

definition pool_tables :: "(nat \<Rightarrow> bool) \<Rightarrow> Client \<Rightarrow> (u64 \<times> nat) list \<Rightarrow> bool" where
  "pool_tables live c xs \<longleftrightarrow>
     represents (cl_idleSession c) xs \<and> cl_sessionCounter c = of_nat (length (cl_objs c)) \<and>
     (\<forall>k < length (cl_objs c). ps_seq (cl_objs c ! k) = of_nat (Suc k)) \<and>
     (\<forall>(key, k) \<in> set xs. k < length (cl_objs c) \<and> key = idleKey k c \<and> live k) \<and>
     (\<forall>(seq, k) \<in> set (cl_sessions c). k < length (cl_objs c) \<and> seq = ps_seq (cl_objs c ! k) \<and> live k) \<and>
     distinct (map fst (cl_sessions c))"

definition pool_inv :: "Client \<Rightarrow> (u64 \<times> nat) list \<Rightarrow> bool" where
  "pool_inv c xs \<longleftrightarrow> pool_tables (\<lambda>k. \<not> ss_closed (sess c k)) c xs \<and> (\<forall>k < length (cl_objs c). pooled_ok (cl_objs c ! k) 0)"

text \<open>In the middle of the hooks of session \<open>k\<close>: \<open>es\<close> are still to come.\<close>

definition hook_inv :: "nat \<Rightarrow> bool \<Rightarrow> event list \<Rightarrow> Client \<Rightarrow> (u64 \<times> nat) list \<Rightarrow> bool" where
  "hook_inv k closed es c xs \<longleftrightarrow>
     k < length (cl_objs c) \<and> (ss_closed (sess c k) \<longleftrightarrow> closed \<or> EvSessionDied \<in> set es) \<and>
     pool_tables (\<lambda>j. if j = k then \<not> closed else \<not> ss_closed (sess c j)) c xs \<and>
     (\<forall>j < length (cl_objs c). j \<noteq> k \<longrightarrow> pooled_ok (cl_objs c ! j) 0) \<and>
     pooled_ok (cl_objs c ! k) (int (deaths (ps_opened (cl_objs c ! k)) es))"

text \<open>What the hooks leave alone.\<close>

definition sameCore :: "pooled \<Rightarrow> pooled \<Rightarrow> bool" where
  "sameCore p q \<longleftrightarrow> ps_seq q = ps_seq p \<and> ps_opened q = ps_opened p \<and>
     (\<exists>a. ps_session q = (ps_session p)\<lparr>ss_activeStreams := a\<rparr>)"

definition sameObjs :: "Client \<Rightarrow> Client \<Rightarrow> bool" where
  "sameObjs c d \<longleftrightarrow> length (cl_objs d) = length (cl_objs c) \<and>
     (\<forall>k < length (cl_objs c). sameCore (cl_objs c ! k) (cl_objs d ! k)) \<and>
     cl_die d = cl_die c \<and> cl_now d = cl_now c \<and> cl_minIdleSession d = cl_minIdleSession c \<and>
     cl_maxSession d = cl_maxSession c"

lemma sameActive [simp]: "\<exists>a. (s :: Session) = s\<lparr>ss_activeStreams := a\<rparr>"
  by (rule exI[of _ "ss_activeStreams s"]) simp

lemma sameCore_refl [simp]: "sameCore p p"
  by (simp add: sameCore_def)

lemma sameCore_trans: "sameCore p q \<Longrightarrow> sameCore q r \<Longrightarrow> sameCore p r"
  unfolding sameCore_def by fastforce

lemma sameObjs_refl [simp]: "sameObjs c c"
  by (simp add: sameObjs_def)

lemma sameObjs_trans: "sameObjs c d \<Longrightarrow> sameObjs d e \<Longrightarrow> sameObjs c e"
  unfolding sameObjs_def using sameCore_trans by fastforce

lemma sameObjs_sess:
  assumes "sameObjs c d" "k < length (cl_objs c)"
  shows "ss_closed (sess d k) = ss_closed (sess c k)" "ss_connBroken (sess d k) = ss_connBroken (sess c k)"
    "ss_objs (sess d k) = ss_objs (sess c k)" "ps_opened (cl_objs d ! k) = ps_opened (cl_objs c ! k)"
    "ps_seq (cl_objs d ! k) = ps_seq (cl_objs c ! k)" "idleKey k d = idleKey k c"
    "unusable (sess d k) = unusable (sess c k)"
  using assms by (auto simp: sameObjs_def sameCore_def idleKey_def unusable_def IsClosed_def)

lemma updPooled_simps [simp]:
  "length (cl_objs (updPooled k f c)) = length (cl_objs c)"
  "k < length (cl_objs c) \<Longrightarrow> cl_objs (updPooled k f c) ! j = (if j = k then f (cl_objs c ! k) else cl_objs c ! j)"
  "cl_die (updPooled k f c) = cl_die c" "cl_sessions (updPooled k f c) = cl_sessions c"
  "cl_idleSession (updPooled k f c) = cl_idleSession c" "cl_sessionCounter (updPooled k f c) = cl_sessionCounter c"
  "cl_now (updPooled k f c) = cl_now c" "cl_rand (updPooled k f c) = cl_rand c"
  "cl_minIdleSession (updPooled k f c) = cl_minIdleSession c" "cl_maxSession (updPooled k f c) = cl_maxSession c"
  "cl_closing (updPooled k f c) = cl_closing c"
  by (simp_all add: updPooled_def nth_list_update)

lemma spawnClose_simps [simp]:
  "cl_objs (spawnClose k c) = cl_objs c" "cl_idleSession (spawnClose k c) = cl_idleSession c"
  "cl_sessions (spawnClose k c) = cl_sessions c" "cl_sessionCounter (spawnClose k c) = cl_sessionCounter c"
  "cl_die (spawnClose k c) = cl_die c" "cl_now (spawnClose k c) = cl_now c"
  "cl_minIdleSession (spawnClose k c) = cl_minIdleSession c" "cl_maxSession (spawnClose k c) = cl_maxSession c"
  "cl_closing (spawnClose k c) = cl_closing c @ [k]"
  by (simp_all add: spawnClose_def)

lemma pool_inv_hook:
  assumes "k < length (cl_objs c)" "hook_inv k (ss_closed (sess c k)) [] c xs"
  shows "pool_inv c xs"
proof -
  have "(\<lambda>j. if j = k then \<not> ss_closed (sess c k) else \<not> ss_closed (sess c j)) = (\<lambda>j. \<not> ss_closed (sess c j))"
    by auto
  then show ?thesis
    using assms by (auto simp: pool_inv_def hook_inv_def deaths_def split: if_splits)
qed

lemma pool_tables_entry:
  assumes "pool_tables live c xs"
  shows "e \<in> set xs \<Longrightarrow> fst e = idleKey (snd e) c \<and> snd e < length (cl_objs c) \<and> live (snd e)"
    and "e \<in> set (cl_sessions c) \<Longrightarrow> fst e = ps_seq (cl_objs c ! snd e) \<and> snd e < length (cl_objs c) \<and> live (snd e)"
  using assms by (simp_all add: pool_tables_def split_beta)

lemma pool_tables_size:
  assumes "pool_tables live c xs"
  shows "length xs \<le> length (cl_objs c)"
proof -
  have "distinct (map fst xs)"
    using assms skl.sorted[of "cl_idleSession c" xs] strict_sorted_iff[of "map fst xs"] by (simp add: pool_tables_def)
  moreover have "fst e = idleKey (snd e) c" if "e \<in> set xs" for e
    using pool_tables_entry(1)[OF assms that] by simp
  then have "map fst xs = map (\<lambda>k. idleKey k c) (map snd xs)" by simp
  ultimately have "distinct (map snd xs)" using distinct_map[of _ "map snd xs"] by metis
  moreover have "set (map snd xs) \<subseteq> {..<length (cl_objs c)}"
    using assms by (auto simp: pool_tables_def)
  ultimately have "length (map snd xs) \<le> card {..<length (cl_objs c)}"
    using distinct_card card_mono by (metis finite_lessThan)
  then show ?thesis by simp
qed

lemma pool_tables_cong:
  assumes "cl_idleSession d = cl_idleSession c" "cl_sessions d = cl_sessions c" "cl_sessionCounter d = cl_sessionCounter c"
    and "length (cl_objs d) = length (cl_objs c)" "\<forall>j < length (cl_objs c). ps_seq (cl_objs d ! j) = ps_seq (cl_objs c ! j)"
  shows "pool_tables live d xs \<longleftrightarrow> pool_tables live c xs"
  using assms unfolding pool_tables_def idleKey_def by fastforce

lemma pool_tables_live:
  "pool_tables live c xs \<Longrightarrow> (\<And>j. live j \<Longrightarrow> live' j) \<Longrightarrow> pool_tables live' c xs"
  unfolding pool_tables_def by fastforce

section \<open>The tables\<close>

lemma putIdle_runs:
  assumes t: "pool_tables live c xs" and k: "k < length (cl_objs c)" "live k" and n: "length (cl_objs c) < 2 ^ 38"
  shows "runs (putIdle k c) (\<lambda>d. pool_tables live d (absInsert (idleKey k c) k xs) \<and>
    (\<exists>sl r. d = (updPooled k (\<lambda>p. p\<lparr>ps_idleSince := cl_now c\<rparr>) c)\<lparr>cl_idleSession := sl, cl_rand := r\<rparr>))"
proof -
  let ?c = "updPooled k (\<lambda>p. p\<lparr>ps_idleSince := cl_now c\<rparr>) c"
  have "represents (cl_idleSession c) xs" using t by (simp add: pool_tables_def)
  moreover have "length xs < 2 ^ 38" using pool_tables_size[OF t] n by simp
  ultimately obtain sl r where sl: "Insert (idleKey k c) k (cl_idleSession c) (cl_rand c) = Some (sl, r)"
    "represents sl (absInsert (idleKey k c) k xs)"
    using skl.insert_ok[of "cl_idleSession c" xs "idleKey k c" k "cl_rand c"] by auto
  have key: "idleKey j ?c = idleKey j c" for j using k by (simp add: idleKey_def)
  have "putIdle k c = Some (?c\<lparr>cl_idleSession := sl, cl_rand := r\<rparr>)"
    using sl(1) by (simp add: putIdle_def Let_def key)
  moreover have "pool_tables live (?c\<lparr>cl_idleSession := sl, cl_rand := r\<rparr>) (absInsert (idleKey k c) k xs)"
    using t k sl(2) unfolding pool_tables_def absInsert_def idleKey_def by (simp add: split_beta) fastforce
  ultimately show ?thesis by (auto simp: runs_def)
qed

lemma unIdle_runs:
  assumes t: "pool_tables live c xs"
  shows "runs (unIdle key c) (\<lambda>d. pool_tables live d (absRemove key xs) \<and> (\<exists>sl. d = c\<lparr>cl_idleSession := sl\<rparr>))"
proof -
  have "represents (cl_idleSession c) xs" using t by (simp add: pool_tables_def)
  from skl.remove_ok[OF this, of key] obtain sl where
    sl: "Remove key (cl_idleSession c) = Some (key \<in> fst ` set xs, sl)" "represents sl (absRemove key xs)"
    by blast
  have "pool_tables live (c\<lparr>cl_idleSession := sl\<rparr>) (absRemove key xs)"
    using t sl(2) unfolding pool_tables_def absRemove_def idleKey_def by auto
  with sl(1) show ?thesis by (auto simp: unIdle_def)
qed

section \<open>The hooks\<close>

definition hooked :: "Client \<Rightarrow> Client \<Rightarrow> bool" where
  "hooked c d \<longleftrightarrow> sameObjs c d \<and> (\<exists>ys. pool_inv d ys)"

lemma sameObjs_updActive:
  "k < length (cl_objs c) \<Longrightarrow> sameObjs c (addActive k a c)"
  "k < length (cl_objs c) \<Longrightarrow> sameObjs c (updPooled k (\<lambda>p. p\<lparr>ps_idleSince := t\<rparr>) c)"
  "sameObjs c (d\<lparr>cl_idleSession := sl\<rparr>) = sameObjs c d" "sameObjs c (d\<lparr>cl_rand := r\<rparr>) = sameObjs c d"
  "sameObjs c (d\<lparr>cl_sessions := m\<rparr>) = sameObjs c d" "sameObjs c (spawnClose j d) = sameObjs c d"
proof -
  show "sameObjs c (addActive k a c)" "sameObjs c (updPooled k (\<lambda>p. p\<lparr>ps_idleSince := t\<rparr>) c)"
    if "k < length (cl_objs c)"
    using that by (auto simp: sameObjs_def addActive_def sameCore_def)
qed (simp_all add: sameObjs_def)

lemma pool_tables_shrink:
  assumes "pool_tables live c xs" "\<forall>e \<in> set xs. P (snd e)"
    and "set m \<subseteq> set (cl_sessions c)" "distinct (map fst m)" "\<forall>e \<in> set m. P (snd e)"
  shows "pool_tables (\<lambda>j. live j \<and> P j) (c\<lparr>cl_sessions := m\<rparr>) xs"
  using assms unfolding pool_tables_def idleKey_def by (simp add: split_beta) blast

lemma sessionDieHook_runs:
  assumes t: "pool_tables live c xs" and k: "k < length (cl_objs c)"
  shows "runs (sessionDieHook k c) (\<lambda>d. cl_objs d = cl_objs c \<and> sameObjs c d \<and>
    (\<exists>ys. pool_tables (\<lambda>j. live j \<and> j \<noteq> k) d ys))"
  unfolding sessionDieHook_def
proof (rule runs_then[OF unIdle_runs[OF t]], goal_cases)
  case (1 d)
  then obtain sl where d: "d = c\<lparr>cl_idleSession := sl\<rparr>" and td: "pool_tables live d (absRemove (idleKey k c) xs)"
    by blast
  have key: "idleKey j d = idleKey j c" for j by (simp add: d idleKey_def)
  have idle: "\<forall>e \<in> set (absRemove (idleKey k c) xs). snd e \<noteq> k"
  proof
    fix e assume e: "e \<in> set (absRemove (idleKey k c) xs)"
    then have "fst e \<noteq> idleKey k c" by (simp add: absRemove_def)
    moreover have "fst e = idleKey (snd e) c" using pool_tables_entry(1)[OF td e] by (simp add: key)
    ultimately show "snd e \<noteq> k" by auto
  qed
  let ?m = "AList.delete (ps_seq (cl_objs d ! k)) (cl_sessions d)"
  have m: "set ?m \<subseteq> set (cl_sessions d)" "\<forall>e \<in> set ?m. snd e \<noteq> k"
  proof -
    show "set ?m \<subseteq> set (cl_sessions d)" by (auto simp: AList.delete_eq)
    have "fst e \<noteq> ps_seq (cl_objs d ! k) \<and> e \<in> set (cl_sessions d)" if "e \<in> set ?m" for e
      using that by (auto simp: AList.delete_eq)
    with pool_tables_entry(2)[OF td] show "\<forall>e \<in> set ?m. snd e \<noteq> k" by metis
  qed
  have "distinct (map fst ?m)"
    using td by (simp add: pool_tables_def distinct_delete)
  from pool_tables_shrink[OF td idle m(1) this m(2)] show ?case
    by (auto simp: d sameObjs_updActive)
qed

lemma hook_inv_move:
  assumes "hook_inv k closed es c xs" "length (cl_objs d) = length (cl_objs c)"
    and "\<forall>j < length (cl_objs c). sess d j = sess c j \<and> ps_opened (cl_objs d ! j) = ps_opened (cl_objs c ! j)"
    and "pool_tables (\<lambda>j. if j = k then \<not> closed else \<not> ss_closed (sess c j)) d ys"
  shows "hook_inv k closed es d ys"
proof -
  have "pool_tables (\<lambda>j. if j = k then \<not> closed else \<not> ss_closed (sess d j)) d ys"
    using assms(2-4) unfolding pool_tables_def by (simp add: split_beta)
  with assms(1-3) show ?thesis
    unfolding hook_inv_def pooled_ok_def by auto
qed

lemma addActive_session:
  "k < length (cl_objs c) \<Longrightarrow> sess (addActive k a c) j =
    (if j = k then (sess c k)\<lparr>ss_activeStreams := ss_activeStreams (sess c k) + a\<rparr> else sess c j)"
  "k < length (cl_objs c) \<Longrightarrow> ps_opened (cl_objs (addActive k a c) ! j) = ps_opened (cl_objs c ! j)"
  "k < length (cl_objs c) \<Longrightarrow> ps_seq (cl_objs (addActive k a c) ! j) = ps_seq (cl_objs c ! j)"
  "length (cl_objs (addActive k a c)) = length (cl_objs c)"
  by (auto simp: addActive_def)

lemma pool_tables_addActive:
  "k < length (cl_objs c) \<Longrightarrow> pool_tables live (addActive k a c) xs \<longleftrightarrow> pool_tables live c xs"
  by (rule pool_tables_cong) (auto simp: addActive_def)

lemma session_inv_active [simp]: "session_inv (s\<lparr>ss_activeStreams := a\<rparr>) = session_inv s"
  by (rule session_inv_core) (simp add: core_def)

lemma hook_inv_counted:
  assumes "hook_inv k closed (EvStreamDied i # es) c xs" "i \<in> set (ps_opened (cl_objs c ! k))"
  shows "hook_inv k closed es (addActive k (- 1) c) xs"
proof -
  have k: "k < length (cl_objs c)" using assms(1) by (simp add: hook_inv_def)
  have eq: "(\<lambda>j. if j = k then \<not> closed else \<not> ss_closed (sess (addActive k (- 1) c) j)) =
      (\<lambda>j. if j = k then \<not> closed else \<not> ss_closed (sess c j))"
    by (auto simp: addActive_session(1)[OF k])
  have others: "pooled_ok (cl_objs (addActive k (- 1) c) ! j) 0" if "j < length (cl_objs c)" "j \<noteq> k" for j
    using assms(1) that by (simp add: hook_inv_def addActive_def k)
  have this_one: "pooled_ok (cl_objs (addActive k (- 1) c) ! k) (int (deaths (ps_opened (cl_objs c ! k)) es))"
    using assms k by (simp add: hook_inv_def pooled_ok_def deaths_Cons addActive_session(1-3)[OF k] image_iff)
  have died: "ss_closed (sess (addActive k (- 1) c) k) \<longleftrightarrow> closed \<or> EvSessionDied \<in> set es"
    using assms(1) by (simp add: addActive_session(1)[OF k] hook_inv_def)
  have "pool_tables (\<lambda>j. if j = k then \<not> closed else \<not> ss_closed (sess (addActive k (- 1) c) j)) (addActive k (- 1) c) xs"
    unfolding eq pool_tables_addActive[OF k] using assms(1) by (simp add: hook_inv_def)
  with k died others this_one show ?thesis
    unfolding hook_inv_def addActive_session(2)[OF k] addActive_session(4) by blast
qed

lemma streamDieHook_runs:
  assumes "hook_inv k closed (EvStreamDied i # es) c xs" "i \<in> set (ps_opened (cl_objs c ! k))"
    and n: "length (cl_objs c) < 2 ^ 38"
  shows "runs (streamDieHook k closed c) (\<lambda>d. sameObjs c d \<and> (\<exists>ys. hook_inv k closed es d ys))"
proof -
  let ?c = "addActive k (- 1) c" and ?live = "\<lambda>j. if j = k then \<not> closed else \<not> ss_closed (sess (addActive k (- 1) c) j)"
  have inv: "hook_inv k closed es ?c xs" by (rule hook_inv_counted[OF assms(1,2)])
  then have k: "k < length (cl_objs c)" "k < length (cl_objs ?c)" by (simp_all add: hook_inv_def addActive_session(4))
  note same = sameObjs_updActive(1)[OF k(1), of "- 1"]
  have t: "pool_tables ?live ?c xs" using inv by (simp add: hook_inv_def)
  have "runs (putIdle k ?c) (\<lambda>d. sameObjs c d \<and> (\<exists>ys. hook_inv k closed es d ys))" if "\<not> closed"
  proof (rule runs_mono[OF putIdle_runs[OF t k(2)]], goal_cases)
    case (3 d)
    then obtain sl r where d: "d = (updPooled k (\<lambda>p. p\<lparr>ps_idleSince := cl_now ?c\<rparr>) ?c)\<lparr>cl_idleSession := sl, cl_rand := r\<rparr>"
      and td: "pool_tables ?live d (absInsert (idleKey k ?c) k xs)" by blast
    have "hook_inv k closed es d (absInsert (idleKey k ?c) k xs)"
      by (rule hook_inv_move[OF inv _ _ td]) (use k(2) in \<open>auto simp: d\<close>)
    moreover have "sameObjs c d"
      using sameObjs_trans[OF same sameObjs_updActive(2)[OF k(2)]] by (simp add: d sameObjs_updActive)
    ultimately show ?case by blast
  qed (use that n in \<open>simp_all add: addActive_session(4)\<close>)
  moreover have "hook_inv k closed es (spawnClose k ?c) xs"
  proof (rule hook_inv_move[OF inv])
    show "pool_tables ?live (spawnClose k ?c) xs"
      using t pool_tables_cong[of "spawnClose k ?c" ?c ?live xs] by simp
  qed simp_all
  moreover have "streamDieHook k closed c = Some ?c \<or> streamDieHook k closed c = Some (spawnClose k ?c) \<or>
      \<not> closed \<and> streamDieHook k closed c = putIdle k ?c"
    by (simp add: streamDieHook_def Let_def)
  ultimately show ?thesis
    using inv same sameObjs_updActive(6)[of c k ?c] by (elim disjE conjE) (simp_all only: runs_Some, auto)
qed

lemma hook_inv_skip:
  assumes "hook_inv k closed (e # es) c xs" "e \<noteq> EvSessionDied" "e \<notin> EvStreamDied ` set (ps_opened (cl_objs c ! k))"
  shows "hook_inv k closed es c xs"
proof -
  have "deaths (ps_opened (cl_objs c ! k)) (e # es) = deaths (ps_opened (cl_objs c ! k)) es"
    using assms(3) by (simp add: deaths_Cons)
  moreover have "EvSessionDied \<in> set (e # es) \<longleftrightarrow> EvSessionDied \<in> set es" using assms(2) by auto
  ultimately show ?thesis using assms(1) unfolding hook_inv_def by simp
qed

lemma hook_inv_died:
  assumes "hook_inv k closed (EvSessionDied # es) c xs" "cl_objs d = cl_objs c"
    and "pool_tables (\<lambda>j. (if j = k then \<not> closed else \<not> ss_closed (sess c j)) \<and> j \<noteq> k) d ys"
  shows "hook_inv k True es d ys"
proof -
  have "pool_tables (\<lambda>j. if j = k then \<not> True else \<not> ss_closed (sess d j)) d ys"
    using assms(3) by (rule pool_tables_live) (auto simp: assms(2))
  moreover have "deaths (ps_opened (cl_objs c ! k)) (EvSessionDied # es) = deaths (ps_opened (cl_objs c ! k)) es"
    by (auto simp: deaths_Cons)
  ultimately show ?thesis using assms(1,2) unfolding hook_inv_def by simp
qed

lemma fireHooks_runs:
  assumes "hook_inv k closed es c xs" "length (cl_objs c) < 2 ^ 38"
  shows "runs (fireHooks k closed es c) (\<lambda>d. sameObjs c d \<and> (\<exists>ys. pool_inv d ys))"
  using assms
proof (induction es arbitrary: closed c xs)
  case Nil
  then have "k < length (cl_objs c)" "ss_closed (sess c k) = closed" by (simp_all add: hook_inv_def)
  with Nil.prems(1) have "pool_inv c xs" using pool_inv_hook by blast
  then show ?case by auto
next
  case (Cons e es)
  have later: "runs (fireHooks k closed' es d) (\<lambda>d. sameObjs c d \<and> (\<exists>ys. pool_inv d ys))"
    if "sameObjs c d" "hook_inv k closed' es d ys" for closed' d ys
  proof (rule runs_mono[OF Cons.IH[OF that(2)]])
    show "length (cl_objs d) < 2 ^ 38" using that(1) Cons.prems(2) by (simp add: sameObjs_def)
  qed (use that(1) sameObjs_trans in blast)
  have k: "k < length (cl_objs c)" using Cons.prems(1) by (simp add: hook_inv_def)
  show ?case
  proof (cases "e = EvSessionDied")
    case True
    have "pool_tables (\<lambda>j. if j = k then \<not> closed else \<not> ss_closed (sess c j)) c xs"
      using Cons.prems(1) by (simp add: hook_inv_def)
    from sessionDieHook_runs[OF this k] show ?thesis
      using True by (simp, elim runs_then) (use hook_inv_died[OF Cons.prems(1)[unfolded True]] later in blast)
  next
    case False
    show ?thesis
    proof (cases "e \<in> EvStreamDied ` set (ps_opened (cl_objs c ! k))")
      case True
      then obtain i where i: "e = EvStreamDied i" "i \<in> set (ps_opened (cl_objs c ! k))" by blast
      from streamDieHook_runs[OF Cons.prems(1)[unfolded i(1)] i(2) Cons.prems(2)] have
        "runs (Option.bind (streamDieHook k closed c) (fireHooks k closed es)) (\<lambda>d. sameObjs c d \<and> (\<exists>ys. pool_inv d ys))"
        by (rule runs_then) (use later in blast)
      with True False show ?thesis by simp
    qed (use False later[OF sameObjs_refl hook_inv_skip[OF Cons.prems(1)]] in simp)
  qed
qed

section \<open>Moves of a session\<close>

text \<open>Session \<open>k\<close> is about to move from its state to \<open>s\<close>; its counter is already what the streams it will
  have opened require.\<close>

definition ready :: "nat \<Rightarrow> Session \<Rightarrow> nat list \<Rightarrow> Client \<Rightarrow> (u64 \<times> nat) list \<Rightarrow> bool" where
  "ready k s opened c xs \<longleftrightarrow>
     k < length (cl_objs c) \<and> pool_tables (\<lambda>j. \<not> ss_closed (sess c j)) c xs \<and>
     (\<forall>j < length (cl_objs c). j \<noteq> k \<longrightarrow> pooled_ok (cl_objs c ! j) 0) \<and>
     session_inv (sess c k) \<and> session_inv s \<and> grows (sess c k) s \<and>
     ss_activeStreams s = int (living (ss_objs (sess c k)) opened) \<and>
     ps_opened (cl_objs c ! k) = opened \<and> distinct opened \<and> (\<forall>i \<in> set opened. i < length (ss_objs s))"

lemma sessionMoved_runs:
  assumes r: "ready k s opened c xs" and n: "length (cl_objs c) < 2 ^ 38"
  shows "runs (sessionMoved k s c)
    (\<lambda>d. sameObjs (updPooled k (\<lambda>p. p\<lparr>ps_session := s\<rparr>) c) d \<and> (\<exists>ys. pool_inv d ys))"
proof -
  let ?c = "updPooled k (\<lambda>p. p\<lparr>ps_session := s\<rparr>) c" and ?es = "newEvents (sess c k) s"
  have k: "k < length (cl_objs c)" and inv: "session_inv (sess c k)" "session_inv s" "grows (sess c k) s"
    using r by (simp_all add: ready_def)
  have died: "ss_closed s \<longleftrightarrow> ss_closed (sess c k) \<or> EvSessionDied \<in> set ?es"
    using new_deaths(3,4)[OF inv] count_list_0_iff[of ?es EvSessionDied] by (auto split: if_splits)
  have split: "living (ss_objs (sess c k)) opened = living (ss_objs s) opened + deaths opened ?es"
    using r by (intro living_split[OF inv]) (simp add: ready_def)
  have t: "pool_tables (\<lambda>j. if j = k then \<not> ss_closed (sess c k) else \<not> ss_closed (sess ?c j)) ?c xs"
  proof -
    have "pool_tables (\<lambda>j. \<not> ss_closed (sess c j)) ?c xs"
      using r pool_tables_cong[of ?c c] by (simp add: ready_def)
    then show ?thesis by (rule pool_tables_live) (use k in auto)
  qed
  have ok: "pooled_ok (cl_objs ?c ! k) (int (deaths (ps_opened (cl_objs ?c ! k)) ?es))"
    "\<forall>j < length (cl_objs ?c). j \<noteq> k \<longrightarrow> pooled_ok (cl_objs ?c ! j) 0"
    using r k split by (simp_all add: ready_def pooled_ok_def)
  have "hook_inv k (ss_closed (sess c k)) ?es ?c xs"
    unfolding hook_inv_def using k died t ok by simp
  from fireHooks_runs[OF this] n show ?thesis
    by (simp add: sessionMoved_def IsClosed_def)
qed

end
