(* ===== verification/Pool_Ops.thy ===== *)
theory Pool_Ops
  imports Pool_Inv
begin

text \<open>
  Every operation of the pool returns and keeps its invariant: opening a stream, taking an idle session,
  dialling a new one, closing, resetting and the idle cleanup.
\<close>

section \<open>Closing sessions\<close>

text \<open>The sessions \<open>ks\<close> have been closed; of the others at most the counters and dates have moved.\<close>

definition sameBut :: "nat set \<Rightarrow> Client \<Rightarrow> Client \<Rightarrow> bool" where
  "sameBut ks c d \<longleftrightarrow> length (cl_objs d) = length (cl_objs c) \<and>
     (\<forall>k < length (cl_objs c). (k \<notin> ks \<longrightarrow> sameCore (cl_objs c ! k) (cl_objs d ! k)) \<and>
        (ss_closed (sess d k) \<longleftrightarrow> ss_closed (sess c k) \<or> k \<in> ks)) \<and>
     cl_die d = cl_die c \<and> cl_now d = cl_now c \<and> cl_minIdleSession d = cl_minIdleSession c \<and>
     cl_maxSession d = cl_maxSession c"

lemma sameBut_trans: "sameBut ks c d \<Longrightarrow> sameBut ls d e \<Longrightarrow> sameBut (ks \<union> ls) c e"
  unfolding sameBut_def using sameCore_trans by auto

lemma sameBut_none: "sameObjs c d \<Longrightarrow> sameBut {} c d"
  by (auto simp: sameBut_def sameObjs_def sameCore_def)

lemma sameBut_moved:
  assumes "sameObjs (updPooled k f c) d" "k < length (cl_objs c)" "ss_closed (ps_session (f (cl_objs c ! k)))"
  shows "sameBut {k} c d"
proof -
  have "sameCore (cl_objs c ! j) (cl_objs d ! j)" if "j < length (cl_objs c)" "j \<noteq> k" for j
    using assms(1,2) that by (auto simp: sameObjs_def)
  moreover have "ss_closed (sess d j) \<longleftrightarrow> ss_closed (sess c j) \<or> j = k" if "j < length (cl_objs c)" for j
    using sameObjs_sess(1)[OF assms(1), of j] assms(2,3) that by auto
  ultimately show ?thesis
    using assms(1) unfolding sameBut_def by (simp add: sameObjs_def)
qed

lemma pool_inv_ready:
  assumes "pool_inv c xs" "k < length (cl_objs c)" "session_inv s" "grows (sess c k) s"
    and "ss_activeStreams s = ss_activeStreams (sess c k)"
  shows "ready k s (ps_opened (cl_objs c ! k)) c xs"
  using assms unfolding ready_def pool_inv_def pooled_ok_def grows_def by (auto intro: order_less_le_trans)

lemma closeSession_runs:
  assumes "pool_inv c xs" "k < length (cl_objs c)" "length (cl_objs c) < 2 ^ 38"
  shows "runs (closeSession k c) (\<lambda>d. sameBut {k} c d \<and> (\<exists>ys. pool_inv d ys))"
proof -
  have "session_inv (sess c k)" using assms(1,2) by (simp add: pool_inv_def pooled_ok_def)
  then have "ready k (snd (Close (sess c k))) (ps_opened (cl_objs c ! k)) c xs"
    using assms(1,2) by (intro pool_inv_ready) (simp_all add: session_inv_Close grows_Close)
  from sessionMoved_runs[OF this assms(3)] show ?thesis
    unfolding closeSession_def by (rule runs_mono) (use sameBut_moved[OF _ assms(2)] in auto)
qed

lemma closeSessions_runs:
  assumes "pool_inv c xs" "\<forall>k \<in> set ks. k < length (cl_objs c)" "length (cl_objs c) < 2 ^ 38"
  shows "runs (closeSessions ks c) (\<lambda>d. sameBut (set ks) c d \<and> (\<exists>ys. pool_inv d ys))"
  using assms
proof (induction ks arbitrary: c xs)
  case (Cons k ks)
  have k: "k < length (cl_objs c)" using Cons.prems(2) by simp
  show ?case
    unfolding closeSessions.simps
  proof (rule runs_then[OF closeSession_runs[OF Cons.prems(1) k Cons.prems(3)]])
    fix d assume "sameBut {k} c d \<and> (\<exists>ys. pool_inv d ys)"
    then obtain ys where d: "sameBut {k} c d" "pool_inv d ys" by blast
    have "runs (closeSessions ks d) (\<lambda>e. sameBut (set ks) d e \<and> (\<exists>ys. pool_inv e ys))"
      using Cons.prems(2,3) d(1) by (intro Cons.IH[OF d(2)]) (simp_all add: sameBut_def)
    then show "runs (closeSessions ks d) (\<lambda>e. sameBut (set (k # ks)) c e \<and> (\<exists>ys. pool_inv e ys))"
      by (rule runs_mono) (use sameBut_trans[OF d(1)] in auto)
  qed
qed (use sameBut_none[OF sameObjs_refl] in auto)

lemma pool_inv_same:
  assumes "pool_inv c xs" "cl_idleSession d = cl_idleSession c" "set (cl_sessions d) \<subseteq> set (cl_sessions c)"
    and "distinct (map fst (cl_sessions d))" "cl_sessionCounter d = cl_sessionCounter c" "cl_objs d = cl_objs c"
  shows "pool_inv d xs"
  using assms unfolding pool_inv_def pool_tables_def idleKey_def by (simp add: split_beta) blast

lemma pool_inv_sessions:
  assumes "pool_inv c xs"
  shows "k \<in> set (map snd (cl_sessions c)) \<Longrightarrow> k < length (cl_objs c) \<and> \<not> ss_closed (sess c k)"
    and "k \<in> set (map snd xs) \<Longrightarrow> k < length (cl_objs c) \<and> \<not> ss_closed (sess c k)"
  using assms pool_tables_entry[of "\<lambda>k. \<not> ss_closed (sess c k)" c xs] unfolding pool_inv_def by auto

lemma poolClose_runs:
  assumes "pool_inv c xs" "length (cl_objs c) < 2 ^ 38"
  shows "runs (poolClose c) (\<lambda>d. sameBut (set (map snd (cl_sessions c))) (c\<lparr>cl_die := True, cl_sessions := []\<rparr>) d
    \<and> (\<exists>ys. pool_inv d ys))"
  unfolding poolClose_def
proof (rule closeSessions_runs)
  show "pool_inv (c\<lparr>cl_die := True, cl_sessions := []\<rparr>) xs"
    by (rule pool_inv_same[OF assms(1)]) simp_all
qed (use assms(2) pool_inv_sessions(1)[OF assms(1)] in auto)

section \<open>Opening streams\<close>

text \<open>A session that refuses without registering a stream leaves the pool as it was.\<close>

lemma openOn_refused:
  assumes o': "OpenStream (sess (addActive k 1 c) k) = ((None, err), s)" and k: "k < length (cl_objs c)"
  shows "\<exists>e. openOn k c = Some (Inl e, c)"
proof -
  have s: "s = sess (addActive k 1 c) k" and "err \<noteq> None"
    using OpenStream_result(1)[OF o'] by simp_all
  then obtain e where e: "err = Some e" by auto
  let ?c = "addActive k 1 c"
  have none: "updPooled k (\<lambda>p. p\<lparr>ps_opened := ps_opened p @ []\<rparr>) ?c = ?c" "updPooled k (\<lambda>p. p\<lparr>ps_session := s\<rparr>) ?c = ?c"
    by (simp_all add: updPooled_def s)
  have "sessionMoved k s ?c = Some ?c"
    unfolding sessionMoved_def none(2) by (simp add: s newEvents_def)
  moreover have "addActive k (- 1) ?c = c"
    using k by (simp add: addActive_def updPooled_def)
  ultimately show ?thesis
    using o' none(1) by (auto simp: openOn_def Let_def e)
qed

lemma ready_opened:
  assumes inv: "pool_inv c xs" and k: "k < length (cl_objs c)"
    and o': "OpenStream (sess (addActive k 1 c) k) = ((Some i, err), s)"
  shows "ready k s (ps_opened (cl_objs c ! k) @ [i]) (updPooled k (\<lambda>p. p\<lparr>ps_opened := ps_opened p @ [i]\<rparr>) (addActive k 1 c)) xs"
proof -
  let ?c1 = "addActive k 1 c" let ?c = "updPooled k (\<lambda>p. p\<lparr>ps_opened := ps_opened p @ [i]\<rparr>) ?c1"
  have ok: "pooled_ok (cl_objs c ! k) 0" using inv k by (simp add: pool_inv_def)
  have objs: "sess ?c1 k = (sess c k)\<lparr>ss_activeStreams := ss_activeStreams (sess c k) + 1\<rparr>"
    by (simp add: addActive_session(1)[OF k])
  have i: "i = length (ss_objs (sess c k))" "i < length (ss_objs s)"
    using OpenStream_result(3)[OF o'] by (simp_all add: objs)
  have s: "s = snd (OpenStream (sess ?c1 k))" using o' by simp
  have "session_inv s" "grows (sess ?c1 k) s" "ss_activeStreams s = ss_activeStreams (sess c k) + 1"
    unfolding s using ok by (simp_all add: OpenStream_inv grows_OpenStream objs pooled_ok_def)
  moreover have "living (ss_objs (sess c k)) (ps_opened (cl_objs c ! k) @ [i]) = living (ss_objs (sess c k)) (ps_opened (cl_objs c ! k)) + 1"
    using i(1) by (simp add: living_def dead_def)
  moreover have "\<forall>j \<in> set (ps_opened (cl_objs c ! k)). j < length (ss_objs s) \<and> j \<noteq> i"
    using ok i by (auto simp: pooled_ok_def)
  moreover have "i \<notin> set (ps_opened (cl_objs c ! k))"
    using ok i(1) by (auto simp: pooled_ok_def)
  moreover have "pool_tables (\<lambda>j. \<not> ss_closed (sess ?c j)) ?c xs"
  proof -
    have "pool_tables (\<lambda>j. \<not> ss_closed (sess c j)) ?c xs"
      using inv pool_tables_cong[of ?c c] k by (simp add: pool_inv_def addActive_session(3)[OF k] addActive_def)
    then show ?thesis by (rule pool_tables_live) (use k in \<open>auto simp: addActive_session(1)[OF k] addActive_session(4)\<close>)
  qed
  moreover have "\<forall>j < length (cl_objs c). j \<noteq> k \<longrightarrow> pooled_ok (cl_objs ?c ! j) 0"
    using inv k by (simp add: pool_inv_def addActive_def)
  ultimately show ?thesis
    using ok i(2) k unfolding ready_def
    by (simp add: addActive_session(1)[OF k] addActive_session(2)[OF k] addActive_session(4) pooled_ok_def objs)
qed

lemma openOn_runs:
  assumes inv: "pool_inv c xs" and k: "k < length (cl_objs c)" and n: "length (cl_objs c) < 2 ^ 38"
  shows "runs (openOn k c) (\<lambda>(res, d). length (cl_objs d) = length (cl_objs c) \<and> (\<exists>ys. pool_inv d ys) \<and>
    (\<forall>i. res = Inr i \<longrightarrow> i \<in> set (ps_opened (cl_objs d ! k))))"
proof -
  let ?c1 = "addActive k 1 c"
  obtain i err s where o': "OpenStream (sess ?c1 k) = ((i, err), s)" by (metis prod.collapse)
  show ?thesis
  proof (cases i)
    case None
    from openOn_refused[OF o'[unfolded None] k] inv show ?thesis by auto
  next
    case (Some j)
    let ?c = "updPooled k (\<lambda>p. p\<lparr>ps_opened := ps_opened p @ [j]\<rparr>) ?c1"
    have kc: "k < length (cl_objs ?c)" "length (cl_objs ?c) < 2 ^ 38" using k n by (simp_all add: addActive_session(4))
    have inv1: "session_inv (sess ?c1 k)"
      using inv k by (simp add: addActive_session(1)[OF k] pool_inv_def pooled_ok_def)
    from sessionMoved_runs[OF ready_opened[OF inv k o'[unfolded Some]] kc(2)]
    obtain d ys where d: "sessionMoved k s ?c = Some d" "sameObjs (updPooled k (\<lambda>p. p\<lparr>ps_session := s\<rparr>) ?c) d" "pool_inv d ys"
      unfolding runs_def by blast
    have objs: "ss_objs (sess d k) = ss_objs s" using sameObjs_sess(3)[OF d(2), of k] kc(1) by simp
    have "err \<noteq> None \<Longrightarrow> st_dieErr (ss_objs (sess d k) ! j) \<noteq> None"
      using OpenStream_result(4)[OF o' Some _ inv1] by (simp add: objs dead_def)
    then have "openOn k c = Some (case err of None \<Rightarrow> Inr j | Some e \<Rightarrow> Inl e, d)"
      using o' Some d(1) by (cases err) (auto simp: openOn_def Let_def)
    moreover have "j \<in> set (ps_opened (cl_objs d ! k))"
      using sameObjs_sess(4)[OF d(2), of k] kc(1) by simp
    ultimately show ?thesis
      using d(2,3) by (auto simp: sameObjs_def addActive_session(4) split: option.splits)
  qed
qed

section \<open>Idle sessions\<close>

lemma pool_inv_unIdle:
  assumes "pool_inv c xs"
  shows "runs (unIdle key c) (\<lambda>d. pool_inv d (absRemove key xs) \<and> (\<exists>sl. d = c\<lparr>cl_idleSession := sl\<rparr>))"
proof (rule runs_mono[OF unIdle_runs])
  show "pool_tables (\<lambda>k. \<not> ss_closed (sess c k)) c xs" using assms by (simp add: pool_inv_def)
qed (use assms in \<open>auto simp: pool_inv_def\<close>)

lemma pool_inv_spawn: "pool_inv c xs \<Longrightarrow> pool_inv (spawnClose k c) xs"
  by (rule pool_inv_same) (simp_all add: pool_inv_def pool_tables_def)

lemma represents_IsEmpty: "represents sl xs \<Longrightarrow> IsEmpty sl \<longleftrightarrow> xs = []"
  using represents_Len[of sl xs] by (simp add: IsEmpty_def Len_def)

text \<open>What the iterator at the front sees.\<close>

lemma represents_front:
  assumes "represents sl ((key, k) # xs)"
  shows "\<exists>it. Iterate sl = Some it \<and> Key sl it = Some key \<and> Value sl it = Some k"
proof -
  obtain it where "Iterate sl = Some it" "drain sl it = Some ((key, k) # xs)"
    using Iterate_refines[OF assms] by blast
  then show ?thesis
    by (subst (asm) drain.simps) (auto split: if_splits bind_splits)
qed

lemma absRemove_front:
  fixes key :: "'k::linorder"
  assumes "sorted_wrt (<) (map fst ((key, k) # xs))"
  shows "absRemove key ((key, k) # xs) = xs"
proof -
  have "\<forall>e \<in> set xs. key < fst e" using assms by simp
  then have "filter (\<lambda>e. fst e \<noteq> key) xs = xs" by (intro filter_True) auto
  then show ?thesis by (simp add: absRemove_def)
qed

lemma pool_inv_rep: "pool_inv c xs \<Longrightarrow> represents (cl_idleSession c) xs"
  unfolding pool_inv_def pool_tables_def by blast

lemma getIdleSession_Nil: "represents (cl_idleSession c) [] \<Longrightarrow> getIdleSession c = Some (None, c)"
  by (subst getIdleSession.simps) (simp add: represents_IsEmpty)

lemma getIdleSession_Cons:
  assumes inv: "pool_inv c ((key, k) # xs)"
  shows "\<exists>sl. pool_inv (c\<lparr>cl_idleSession := sl\<rparr>) xs \<and> getIdleSession c =
    (if unusable (sess c k)
     then getIdleSession ((if ss_connBroken (sess c k) \<and> \<not> IsClosed (sess c k) then spawnClose k else id) (c\<lparr>cl_idleSession := sl\<rparr>))
     else Some (Some k, c\<lparr>cl_idleSession := sl\<rparr>))"
proof -
  have rep: "represents (cl_idleSession c) ((key, k) # xs)" by (rule pool_inv_rep[OF inv])
  obtain it where it: "Iterate (cl_idleSession c) = Some it" "Key (cl_idleSession c) it = Some key"
    "Value (cl_idleSession c) it = Some k" using represents_front[OF rep] by blast
  obtain sl where sl: "unIdle key c = Some (c\<lparr>cl_idleSession := sl\<rparr>)" "pool_inv (c\<lparr>cl_idleSession := sl\<rparr>) xs"
    using pool_inv_unIdle[OF inv, of key] skl.sorted[OF rep] by (auto simp: runs_def absRemove_front)
  have "\<not> IsEmpty (cl_idleSession c)" using represents_IsEmpty[OF rep] by simp
  then have "getIdleSession c =
    (if unusable (sess c k)
     then getIdleSession ((if ss_connBroken (sess c k) \<and> \<not> IsClosed (sess c k) then spawnClose k else id) (c\<lparr>cl_idleSession := sl\<rparr>))
     else Some (Some k, c\<lparr>cl_idleSession := sl\<rparr>))"
    using it sl(1) by (subst getIdleSession.simps) simp
  with sl(2) show ?thesis by blast
qed

text \<open>The front of the list is skipped up to the first usable session; what was skipped is to be closed.\<close>

definition skipped :: "Client \<Rightarrow> (u64 \<times> nat) list \<Rightarrow> nat list" where
  "skipped c xs = map snd (takeWhile (\<lambda>e. unusable (sess c (snd e))) xs)"

definition firstUsable :: "Client \<Rightarrow> (u64 \<times> nat) list \<Rightarrow> nat option" where
  "firstUsable c xs = find (\<lambda>k. \<not> unusable (sess c k)) (map snd xs)"

lemma getIdleSession_spec:
  assumes "pool_inv c xs"
  shows "\<exists>sl. getIdleSession c = Some (firstUsable c xs, c\<lparr>cl_idleSession := sl, cl_closing := cl_closing c @ skipped c xs\<rparr>)
    \<and> pool_inv (c\<lparr>cl_idleSession := sl, cl_closing := cl_closing c @ skipped c xs\<rparr>)
      (tl (dropWhile (\<lambda>e. unusable (sess c (snd e))) xs))"
  using assms
proof (induction xs arbitrary: c)
  case Nil
  have "c\<lparr>cl_idleSession := cl_idleSession c, cl_closing := cl_closing c\<rparr> = c" by simp
  then show ?case
    using Nil getIdleSession_Nil[OF pool_inv_rep[OF Nil]]
    by (intro exI[of _ "cl_idleSession c"]) (simp add: firstUsable_def skipped_def)
next
  case (Cons e xs)
  obtain key k where e: "e = (key, k)" by (cases e)
  obtain sl where sl: "pool_inv (c\<lparr>cl_idleSession := sl\<rparr>) xs" "getIdleSession c =
    (if unusable (sess c k)
     then getIdleSession ((if ss_connBroken (sess c k) \<and> \<not> IsClosed (sess c k) then spawnClose k else id) (c\<lparr>cl_idleSession := sl\<rparr>))
     else Some (Some k, c\<lparr>cl_idleSession := sl\<rparr>))"
    using getIdleSession_Cons[OF Cons.prems[unfolded e]] by blast
  have "\<not> IsClosed (sess c k)"
    using pool_inv_sessions(2)[OF Cons.prems, of k] by (simp add: e IsClosed_def)
  then have skip: "getIdleSession c = getIdleSession (spawnClose k (c\<lparr>cl_idleSession := sl\<rparr>))" if "unusable (sess c k)"
    using sl(2) that by (simp add: unusable_def)
  show ?case
  proof (cases "unusable (sess c k)")
    case True
    let ?c = "spawnClose k (c\<lparr>cl_idleSession := sl\<rparr>)"
    from Cons.IH[OF pool_inv_spawn[OF sl(1)]] obtain sl' where
      "getIdleSession ?c = Some (firstUsable ?c xs, ?c\<lparr>cl_idleSession := sl', cl_closing := cl_closing ?c @ skipped ?c xs\<rparr>)"
      "pool_inv (?c\<lparr>cl_idleSession := sl', cl_closing := cl_closing ?c @ skipped ?c xs\<rparr>)
        (tl (dropWhile (\<lambda>e. unusable (sess ?c (snd e))) xs))" by blast
    moreover have "firstUsable ?c xs = firstUsable c (e # xs)" "[k] @ skipped ?c xs = skipped c (e # xs)"
      using True by (simp_all add: firstUsable_def skipped_def e)
    moreover have "?c\<lparr>cl_idleSession := sl', cl_closing := cl_closing ?c @ skipped ?c xs\<rparr> =
        c\<lparr>cl_idleSession := sl', cl_closing := cl_closing c @ skipped c (e # xs)\<rparr>"
      using calculation(4) by (simp add: spawnClose_def)
    ultimately show ?thesis using skip[OF True] True by (intro exI[of _ sl']) (auto simp: e)
  next
    case False
    have "c\<lparr>cl_idleSession := sl, cl_closing := cl_closing c\<rparr> = c\<lparr>cl_idleSession := sl\<rparr>" by simp
    then show ?thesis
      using False sl by (intro exI[of _ sl]) (auto simp: firstUsable_def skipped_def e)
  qed
qed

section \<open>New sessions\<close>

lemma set_update_subset: "set (AList.update k v xs) \<subseteq> insert (k, v) (set xs)"
  by (induction xs) auto

lemma newSession_fields:
  "\<not> ss_closed (newSession b u pf now r)" "ss_activeStreams (newSession b u pf now r) = 0" "ss_objs (newSession b u pf now r) = []"
  by (simp_all add: newSession_def Let_def split_beta)

definition withSession :: "Session \<Rightarrow> Client \<Rightarrow> Client" where
  "withSession s c = c\<lparr>cl_sessionCounter := cl_sessionCounter c + 1,
     cl_objs := cl_objs c @ [\<lparr>ps_session = s, ps_seq = cl_sessionCounter c + 1, ps_idleSince = 0, ps_opened = []\<rparr>],
     cl_sessions := AList.update (cl_sessionCounter c + 1) (length (cl_objs c)) (cl_sessions c)\<rparr>"

lemma ready_dialled:
  assumes inv: "pool_inv c xs"
    and s: "session_inv s" "\<not> ss_closed s" "ss_activeStreams s = 0"
  shows "ready (length (cl_objs c)) (Run s) [] (withSession s c) xs"
proof -
  let ?k = "length (cl_objs c)" and ?c = "withSession s c"
  have t: "pool_tables (\<lambda>j. \<not> ss_closed (sess c j)) c xs" using inv by (simp add: pool_inv_def)
  have old: "cl_objs ?c ! j = cl_objs c ! j" if "j < ?k" for j
    using that by (simp add: withSession_def nth_append)
  have new: "cl_objs ?c ! ?k = \<lparr>ps_session = s, ps_seq = cl_sessionCounter c + 1, ps_idleSince = 0, ps_opened = []\<rparr>"
    by (simp add: withSession_def)
  have "cl_sessionCounter c = of_nat ?k" using t by (simp add: pool_tables_def)
  then have seq: "ps_seq (cl_objs ?c ! j) = of_nat (Suc j)" if "j < Suc ?k" for j
    using that t old new by (cases "j = ?k") (simp_all add: pool_tables_def)
  have idle: "\<forall>e \<in> set xs. snd e < Suc ?k \<and> fst e = idleKey (snd e) ?c \<and> \<not> ss_closed (sess ?c (snd e))"
  proof
    fix e assume "e \<in> set xs"
    with pool_tables_entry(1)[OF t, of e] old[of "snd e"]
    show "snd e < Suc ?k \<and> fst e = idleKey (snd e) ?c \<and> \<not> ss_closed (sess ?c (snd e))"
      by (simp add: idleKey_def)
  qed
  have "\<forall>e \<in> set (cl_sessions ?c). snd e < Suc ?k \<and> fst e = ps_seq (cl_objs ?c ! snd e) \<and> \<not> ss_closed (sess ?c (snd e))"
  proof
    fix e assume "e \<in> set (cl_sessions ?c)"
    then have "e = (cl_sessionCounter c + 1, ?k) \<or> e \<in> set (cl_sessions c)"
      using set_update_subset by (fastforce simp: withSession_def)
    with pool_tables_entry(2)[OF t, of e] old[of "snd e"] new s(2)
    show "snd e < Suc ?k \<and> fst e = ps_seq (cl_objs ?c ! snd e) \<and> \<not> ss_closed (sess ?c (snd e))"
      by auto
  qed
  moreover have "length (cl_objs ?c) = Suc ?k" "cl_idleSession ?c = cl_idleSession c" "cl_sessionCounter ?c = cl_sessionCounter c + 1"
    "distinct (map fst (cl_sessions ?c))"
    using t by (simp_all add: withSession_def pool_tables_def distinct_update)
  ultimately have "pool_tables (\<lambda>j. \<not> ss_closed (sess ?c j)) ?c xs"
    using idle seq t unfolding pool_tables_def by (simp add: split_beta)
  moreover have "\<forall>j < length (cl_objs ?c). j \<noteq> ?k \<longrightarrow> pooled_ok (cl_objs ?c ! j) 0"
    using inv old by (simp add: pool_inv_def withSession_def)
  ultimately show ?thesis
    using s new by (simp add: ready_def Run_inv grows_Run living_def withSession_def)
qed

lemma createSession_runs:
  assumes inv: "pool_inv c xs" and n: "length (cl_objs c) + 1 < 2 ^ 38" and u: "\<forall>u. dialled = Inr u \<longrightarrow> \<not> c_closed u"
  shows "runs (createSession dialled c) (\<lambda>(res, d). (\<exists>ys. pool_inv d ys) \<and>
    (case res of Inl e \<Rightarrow> d = c | Inr k \<Rightarrow> k = length (cl_objs c) \<and> length (cl_objs d) = Suc k))"
proof (cases dialled)
  case (Inr u)
  let ?s = "(NewClientSession u (cl_padding c) (cl_now c) (cl_rand c))\<lparr>ss_migActive := cl_migEnabled c\<rparr>"
  let ?c = "withSession ?s c"
  have "session_inv (NewClientSession u (cl_padding c) (cl_now c) (cl_rand c))"
    unfolding NewClientSession_def by (rule newSession_inv) (use u Inr in blast)
  then have "session_inv ?s" by (rule session_inv_frame) (simp add: core_def)
  then have "ready (length (cl_objs c)) (Run ?s) [] ?c xs"
    by (rule ready_dialled[OF inv]) (simp_all add: NewClientSession_def newSession_fields)
  from sessionMoved_runs[OF this] n obtain d ys where
    d: "sessionMoved (length (cl_objs c)) (Run ?s) ?c = Some d" "length (cl_objs d) = Suc (length (cl_objs c))" "pool_inv d ys"
    unfolding runs_def by (auto simp: withSession_def sameObjs_def)
  have "createSession dialled c = Some (Inr (length (cl_objs c)), d)"
    using d(1) unfolding createSession_def Inr Let_def withSession_def by simp
  with d(2,3) show ?thesis by auto
qed (use inv in \<open>auto simp: createSession_def\<close>)

section \<open>The least loaded session\<close>

definition lightest :: "Client \<Rightarrow> (u64 \<times> nat) list \<Rightarrow> (nat \<times> int) option \<Rightarrow> bool" where
  "lightest c es best \<longleftrightarrow>
     (case best of
        None \<Rightarrow> \<forall>e \<in> set es. unusable (sess c (snd e))
      | Some (k, l) \<Rightarrow> k \<in> snd ` set es \<and> \<not> unusable (sess c k) \<and> l = ss_activeStreams (sess c k) \<and>
          (\<forall>e \<in> set es. \<not> unusable (sess c (snd e)) \<longrightarrow> l \<le> ss_activeStreams (sess c (snd e))))"

lemma lightest_step:
  assumes "lightest c es best"
  shows "lightest c (es @ [e]) (lighter c best e)"
proof (cases best)
  case (Some b)
  with assms show ?thesis by (cases b) (auto simp: lightest_def lighter_def Let_def)
qed (use assms in \<open>auto simp: lightest_def lighter_def Let_def\<close>)

lemma lightest_foldl: "lightest c es (foldl (lighter c) None es)"
proof (induction es rule: rev_induct)
  case (snoc e es)
  then show ?case using lightest_step by simp
qed (simp add: lightest_def)

lemma leastLoadedSession_spec:
  assumes "set (order (cl_sessions c)) = set (cl_sessions c)"
  shows "leastLoadedSession order c = None \<longleftrightarrow> (\<forall>k \<in> snd ` set (cl_sessions c). unusable (sess c k))"
    and "leastLoadedSession order c = Some k \<Longrightarrow> k \<in> snd ` set (cl_sessions c) \<and> \<not> unusable (sess c k) \<and>
      (\<forall>j \<in> snd ` set (cl_sessions c). \<not> unusable (sess c j) \<longrightarrow> ss_activeStreams (sess c k) \<le> ss_activeStreams (sess c j))"
proof -
  note l = lightest_foldl[of c "order (cl_sessions c)"]
  show "leastLoadedSession order c = None \<longleftrightarrow> (\<forall>k \<in> snd ` set (cl_sessions c). unusable (sess c k))"
    using l assms by (auto simp: leastLoadedSession_def lightest_def split: option.splits prod.splits)
  assume "leastLoadedSession order c = Some k"
  then obtain b where "foldl (lighter c) None (order (cl_sessions c)) = Some (k, b)"
    by (auto simp: leastLoadedSession_def)
  with l have b: "lightest c (order (cl_sessions c)) (Some (k, b))" by simp
  have "k \<in> snd ` set (cl_sessions c)" "\<not> unusable (sess c k)"
    "\<And>e. e \<in> set (cl_sessions c) \<Longrightarrow> \<not> unusable (sess c (snd e)) \<Longrightarrow> ss_activeStreams (sess c k) \<le> ss_activeStreams (sess c (snd e))"
    using b unfolding lightest_def assms by auto
  then show "k \<in> snd ` set (cl_sessions c) \<and> \<not> unusable (sess c k) \<and>
      (\<forall>j \<in> snd ` set (cl_sessions c). \<not> unusable (sess c j) \<longrightarrow> ss_activeStreams (sess c k) \<le> ss_activeStreams (sess c j))"
    by auto
qed

section \<open>Creating a stream\<close>

text \<open>The pool is well and holds \<open>n\<close> session objects; a stream the pool has opened.\<close>

definition wellWith :: "nat \<Rightarrow> Client \<Rightarrow> bool" where
  "wellWith n c \<longleftrightarrow> length (cl_objs c) = n \<and> (\<exists>xs. pool_inv c xs)"

definition openedStream :: "Client \<Rightarrow> nat \<times> nat \<Rightarrow> bool" where
  "openedStream c st \<longleftrightarrow> fst st < length (cl_objs c) \<and> snd st \<in> set (ps_opened (cl_objs c ! fst st))"

lemma openOn_well:
  "wellWith n c \<Longrightarrow> k < n \<Longrightarrow> n < 2 ^ 38 \<Longrightarrow>
    runs (openOn k c) (\<lambda>(res, d). wellWith n d \<and> (\<forall>i. res = Inr i \<longrightarrow> openedStream d (k, i)))"
  unfolding wellWith_def openedStream_def
  by (elim conjE exE, rule runs_mono[OF openOn_runs]) auto

lemma closeSession_well:
  "wellWith n c \<Longrightarrow> k < n \<Longrightarrow> n < 2 ^ 38 \<Longrightarrow> runs (closeSession k c) (wellWith n)"
  unfolding wellWith_def using closeSession_runs runs_mono by (fastforce simp: sameBut_def)

lemma getIdleSession_well:
  assumes "wellWith n c"
  shows "runs (getIdleSession c) (\<lambda>(res, d). wellWith n d \<and> (\<forall>k. res = Some k \<longrightarrow> k < n))"
proof -
  obtain xs where xs: "pool_inv c xs" "length (cl_objs c) = n" using assms by (auto simp: wellWith_def)
  have "k < n" if "firstUsable c xs = Some k" for k
  proof -
    have "k \<in> set (map snd xs)" using that unfolding firstUsable_def by (metis find_Some_iff nth_mem)
    with pool_inv_sessions(2)[OF xs(1)] xs(2) show ?thesis by simp
  qed
  with getIdleSession_spec[OF xs(1)] xs(2) show ?thesis
    by (auto simp: runs_def wellWith_def)
qed

text \<open>The rule for a step that returns a result and the client.\<close>

lemma runs_pair:
  assumes "runs m (\<lambda>(r, d). P r d)" "\<And>r d. P r d \<Longrightarrow> runs (f (r, d)) Q"
  shows "runs (Option.bind m f) Q"
  using assms by (auto simp: runs_def)

lemmas pool_runs = runs_pair[OF openOn_well] runs_pair[OF getIdleSession_well] runs_then[OF closeSession_well]

lemma tryIdle_well:
  assumes "wellWith n c" "n < 2 ^ 38"
  shows "runs (tryIdle c) (\<lambda>(res, d). wellWith n d \<and> (\<forall>k i. res = Some (k, i) \<longrightarrow> openedStream d (k, i)))"
  unfolding tryIdle_def
  by (rule pool_runs, rule assms) (use assms(2) in \<open>auto intro!: pool_runs split: option.split sum.split\<close>)

lemma tryReuse_well:
  assumes "wellWith n c" "n < 2 ^ 38" "set (order (cl_sessions c)) = set (cl_sessions c)"
  shows "runs (tryReuse order c) (\<lambda>(res, d). wellWith n d \<and> (\<forall>k i. res = Some (k, i) \<longrightarrow> openedStream d (k, i)))"
proof -
  have "k < n" if k: "leastLoadedSession order c = Some k" for k
  proof -
    obtain xs where "pool_inv c xs" "length (cl_objs c) = n" using assms(1) by (auto simp: wellWith_def)
    with leastLoadedSession_spec(2)[OF assms(3) k] show ?thesis using pool_inv_sessions(1)[of c xs k] by auto
  qed
  then show ?thesis
    unfolding tryReuse_def using assms(1,2) by (auto intro!: pool_runs split: option.split sum.split)
qed

lemma createSession_well:
  assumes "wellWith n c" "n + 1 < 2 ^ 38" "\<forall>u. dialled = Inr u \<longrightarrow> \<not> c_closed u"
  shows "runs (createSession dialled c) (\<lambda>(res, d). case res of Inl e \<Rightarrow> wellWith n d | Inr k \<Rightarrow> k = n \<and> wellWith (Suc n) d)"
proof -
  obtain xs where xs: "pool_inv c xs" "length (cl_objs c) = n" using assms(1) by (auto simp: wellWith_def)
  show ?thesis
    by (rule runs_mono[OF createSession_runs[OF xs(1) _ assms(3)]])
      (use xs assms(1,2) in \<open>auto simp: wellWith_def split: sum.splits\<close>)
qed

lemma CreateStream_well:
  assumes "wellWith n c" "n + 1 < 2 ^ 38" "\<And>es. set (order es) = set es" "\<forall>u. dialled = Inr u \<longrightarrow> \<not> c_closed u"
  shows "runs (CreateStream order dialled c) (\<lambda>(res, d). (wellWith n d \<or> wellWith (Suc n) d) \<and>
    (\<forall>k i. res = Inr (k, i) \<longrightarrow> openedStream d (k, i)))"
proof (cases "cl_die c")
  case False
  have n: "n < 2 ^ 38" using assms(2) by simp
  have fresh: "runs (createSession dialled d \<bind> (\<lambda>(made, c). case made of
                  Inl e \<Rightarrow> Some (Inl (OtherError ''failed to create session''), c)
                | Inr k \<Rightarrow> do {
                    (res, c) \<leftarrow> openOn k c;
                    case res of
                      Inr i \<Rightarrow> Some (Inr (k, i), c)
                    | Inl e \<Rightarrow> do { c \<leftarrow> closeSession k c; Some (Inl (OtherError ''failed to create stream''), c) } }))
       (\<lambda>(res, d). (wellWith n d \<or> wellWith (Suc n) d) \<and> (\<forall>k i. res = Inr (k, i) \<longrightarrow> openedStream d (k, i)))" if "wellWith n d" for d
    by (rule runs_pair[OF createSession_well[OF that assms(2,4)]])
      (use assms(2) in \<open>auto intro!: runs_pair[OF openOn_well[where n = "Suc n"]] runs_then[OF closeSession_well[where n = "Suc n"]] split: sum.splits\<close>)
  show ?thesis
    using False unfolding CreateStream_def
    by (simp, intro runs_pair[OF tryIdle_well[OF assms(1) n]])
      (auto intro!: runs_pair[OF tryReuse_well[OF _ n]] fresh simp: assms(3) split: option.split)
qed (use assms(1) in \<open>simp add: CreateStream_def\<close>)

end
