(* ===== verification/Pool_Cleanup.thy ===== *)
theory Pool_Cleanup
  imports Pool_Ops
begin

text \<open>
  The two operations that walk through the idle sessions: the reset and the periodic cleanup, which
  removes entries under its iterator.
\<close>

section \<open>A position in the skip list\<close>

text \<open>The iterator stands between the entries \<open>xs\<close>, which it has passed, and \<open>ys\<close>.\<close>

definition positioned :: "('k::linorder, 'v) SkipList \<Rightarrow> skipListIterator \<Rightarrow> ('k \<times> 'v) list \<Rightarrow> ('k \<times> 'v) list \<Rightarrow> bool" where
  "positioned sl it xs ys \<longleftrightarrow>
     (\<exists>as bs. sl_inv sl (as @ bs) \<and> xs = entries sl as \<and> ys = entries sl bs \<and> it = \<lparr>it_node = firstOf bs, it_end = None\<rparr>)"

lemma positioned_represents: "positioned sl it xs ys \<Longrightarrow> represents sl (xs @ ys)"
  unfolding positioned_def represents_def by fastforce

lemma positioned_start:
  assumes "represents sl xs"
  shows "\<exists>it. Iterate sl = Some it \<and> positioned sl it [] xs"
proof -
  obtain ns where ns: "sl_inv sl ns" "xs = entries sl ns" using assms by (auto simp: represents_def)
  have "next_of sl Head 0 = Some (firstOf ns)"
    using path_next [OF notBelow_suffix [OF ns(1), of "[]" ns]] by simp
  moreover have "positioned sl \<lparr>it_node = firstOf ns, it_end = None\<rparr> [] xs"
    unfolding positioned_def using ns by (intro exI[of _ "[]"] exI[of _ ns]) simp
  ultimately show ?thesis by (simp add: Iterate_def)
qed

lemma positioned_end: "positioned sl it xs [] \<Longrightarrow> \<not> IsNotEnd it"
  by (auto simp: positioned_def IsNotEnd_def entries_def)

lemma positioned_Cons:
  assumes "positioned sl it xs ((k, v) # ys)"
  shows "IsNotEnd it" "Key sl it = Some k" "Value sl it = Some v"
    and "\<exists>it'. MoveToNext sl it = Some it' \<and> positioned sl it' (xs @ [(k, v)]) ys
      \<and> (\<exists>sl'. Remove k sl = Some (True, sl') \<and> positioned sl' it' xs ys)"
proof -
  obtain as b bs where p: "sl_inv sl (as @ b # bs)" "xs = entries sl as" "k = keyOf sl b" "v = valueOf sl b"
    "ys = entries sl bs" "it = \<lparr>it_node = Some b, it_end = None\<rparr>"
    using assms unfolding positioned_def entries_def by (auto simp: Cons_eq_map_conv)
  have b: "b \<in> set (as @ b # bs)" by simp
  obtain n where n: "sl_heap sl b = Some n" "nd_key n = keyOf sl b" "nd_value n = valueOf sl b"
    using sl_inv_node [OF p(1) b] by blast
  show "IsNotEnd it" "Key sl it = Some k" "Value sl it = Some v"
    using p n by (simp_all add: IsNotEnd_def Key_def Value_def)
  let ?it = "\<lparr>it_node = firstOf bs, it_end = None\<rparr> :: skipListIterator"
  have "path sl 0 (endp Head (as @ [b])) bs"
    by (rule notBelow_suffix [OF p(1)]) simp
  then have "next_of sl (Nd b) 0 = Some (firstOf bs)" using path_next by fastforce
  then have "MoveToNext sl it = Some ?it" by (simp add: p(6) MoveToNext_def IsNotEnd_def)
  moreover have "positioned sl ?it (xs @ [(k, v)]) ys"
    unfolding positioned_def using p by (intro exI[of _ "as @ [b]"] exI[of _ bs]) simp
  moreover obtain sl' where sl': "Remove k sl = Some (True, sl')" "sl_inv sl' (filter (\<lambda>a. a \<noteq> b) (as @ b # bs))"
    "\<forall>a. keyOf sl' a = keyOf sl a" "\<forall>a. valueOf sl' a = valueOf sl a"
    using Remove_present[OF p(1) b p(3)[symmetric]] by blast
  have "b \<notin> set as" "b \<notin> set bs" using sl_inv_distinct[OF p(1)] by auto
  then have "filter (\<lambda>a. a \<noteq> b) (as @ b # bs) = as @ bs" by (simp add: filter_neq_id)
  then have "positioned sl' ?it xs ys"
    unfolding positioned_def using sl' p by (intro exI[of _ as] exI[of _ bs]) (simp add: entries_def)
  ultimately show "\<exists>it'. MoveToNext sl it = Some it' \<and> positioned sl it' (xs @ [(k, v)]) ys
      \<and> (\<exists>sl'. Remove k sl = Some (True, sl') \<and> positioned sl' it' xs ys)"
    using sl'(1) by blast
qed

section \<open>The reset\<close>

lemma pool_inv_touch:
  assumes inv: "pool_inv c xs" and f: "\<And>p. core (ps_session (f p)) = core (ps_session p)"
    "\<And>p. ss_activeStreams (ps_session (f p)) = ss_activeStreams (ps_session p)"
    "\<And>p. ps_seq (f p) = ps_seq p" "\<And>p. ps_opened (f p) = ps_opened p"
  shows "pool_inv (updPooled k f c) xs"
proof (cases "k < length (cl_objs c)")
  case True
  have same: "ss_closed (ps_session (f p)) = ss_closed (ps_session p)" "ss_objs (ps_session (f p)) = ss_objs (ps_session p)"
    "session_inv (ps_session (f p)) = session_inv (ps_session p)" for p
    using f(1)[of p] session_inv_core[OF f(1)] by (simp_all add: core_def)
  have "pool_tables (\<lambda>j. \<not> ss_closed (sess c j)) (updPooled k f c) xs"
    using inv pool_tables_cong[of "updPooled k f c" c] True f(3) by (simp add: pool_inv_def)
  then have "pool_tables (\<lambda>j. \<not> ss_closed (sess (updPooled k f c) j)) (updPooled k f c) xs"
    by (rule pool_tables_live) (use True same in auto)
  then show ?thesis
    using inv True same f(2,4) by (auto simp: pool_inv_def pooled_ok_def)
qed (use inv in \<open>simp add: updPooled_def list_update_beyond\<close>)

lemma pool_inv_deadlines:
  "pool_inv c xs \<Longrightarrow> pool_inv (fold (\<lambda>k. updPooled k (pastDeadline now)) ks c) xs"
proof (induction ks arbitrary: c)
  case (Cons k ks)
  have "pool_inv (updPooled k (pastDeadline now) c) xs"
    by (rule pool_inv_touch[OF Cons.prems]) (simp_all add: pastDeadline_def core_def setConn_def SetWriteDeadline_def)
  with Cons.IH show ?case by simp
qed simp

lemma fold_updPooled [simp]:
  "length (cl_objs (fold (\<lambda>k. updPooled k f) ks c)) = length (cl_objs c)"
  "cl_closing (fold (\<lambda>k. updPooled k f) ks c) = cl_closing c" "cl_sessions (fold (\<lambda>k. updPooled k f) ks c) = cl_sessions c"
  by (induction ks arbitrary: c) simp_all

lemma pool_inv_closing: "pool_inv (c\<lparr>cl_closing := ks\<rparr>) xs \<longleftrightarrow> pool_inv c xs"
  by (simp add: pool_inv_def pool_tables_def idleKey_def)

lemma Reset_runs:
  assumes inv: "pool_inv c xs" and "\<not> cl_die c"
  shows "\<exists>d. Reset c = Some d \<and> pool_inv d [] \<and> length (cl_objs d) = length (cl_objs c) \<and> cl_sessions d = cl_sessions c
    \<and> cl_closing d = cl_closing c @ map snd (cl_sessions c) @ map snd xs"
proof -
  let ?ks = "map snd (cl_sessions c) @ map snd xs" and ?c = "c\<lparr>cl_idleSession := Clear (cl_idleSession c)\<rparr>"
  obtain it where it: "Iterate (cl_idleSession c) = Some it" "drain (cl_idleSession c) it = Some xs"
    using Iterate_refines[OF pool_inv_rep[OF inv]] by blast
  have "pool_inv ?c []"
    using inv skl.clear_ok[OF pool_inv_rep[OF inv]] by (simp add: pool_inv_def pool_tables_def)
  then have "pool_inv (fold (\<lambda>k. updPooled k (pastDeadline (cl_now c))) ?ks ?c) []"
    by (rule pool_inv_deadlines)
  then have "pool_inv ((fold (\<lambda>k. updPooled k (pastDeadline (cl_now c))) ?ks ?c)\<lparr>cl_closing := cl_closing c @ ?ks\<rparr>) []"
    by (simp only: pool_inv_closing)
  moreover have "Reset c = Some ((fold (\<lambda>k. updPooled k (pastDeadline (cl_now c))) ?ks ?c)\<lparr>cl_closing := cl_closing c @ ?ks\<rparr>)"
    using assms(2) it by (simp add: Reset_def Let_def del: fold_append)
  ultimately show ?thesis by (auto simp del: fold_append)
qed

section \<open>The idle cleanup\<close>

text \<open>
  What the cleanup makes of the entries to come when it has kept \<open>n\<close> so far: the sessions to close and
  the entries it keeps.
\<close>

fun sweep :: "Client \<Rightarrow> int \<Rightarrow> int \<Rightarrow> (u64 \<times> nat) list \<Rightarrow> nat list \<times> (u64 \<times> nat) list" where
  "sweep c expTime n [] = ([], [])"
| "sweep c expTime n ((key, k) # es) =
     (if unusable (sess c k) then apfst ((#) k) (sweep c expTime n es)
      else if ss_activeStreams (sess c k) > 0 then sweep c expTime n es
      else if \<not> ps_idleSince (cl_objs c ! k) < expTime \<or> n < cl_minIdleSession c
      then apsnd ((#) (key, k)) (sweep c expTime (n + 1) es)
      else apfst ((#) k) (sweep c expTime n es))"

text \<open>The loop does not touch what the sweep reads of the entries to come.\<close>

lemma sweep_cong:
  assumes "\<forall>e \<in> set es. sess d (snd e) = sess c (snd e) \<and> ps_idleSince (cl_objs d ! snd e) = ps_idleSince (cl_objs c ! snd e)"
    and "cl_minIdleSession d = cl_minIdleSession c"
  shows "sweep d expTime n es = sweep c expTime n es"
  using assms(1)
proof (induction es arbitrary: n)
  case (Cons e es)
  then show ?case using assms(2) by (cases e) simp
qed simp

lemma sweep_kept:
  "e \<in> set (snd (sweep c expTime n es)) \<Longrightarrow>
    e \<in> set es \<and> \<not> unusable (sess c (snd e)) \<and> ss_activeStreams (sess c (snd e)) \<le> 0"
  by (induction c expTime n es rule: sweep.induct) (auto split: if_splits)

lemma sweep_closed:
  "k \<in> set (fst (sweep c expTime n es)) \<Longrightarrow> k \<in> snd ` set es \<and>
    (unusable (sess c k) \<or> ss_activeStreams (sess c k) \<le> 0 \<and> ps_idleSince (cl_objs c ! k) < expTime
      \<and> cl_minIdleSession c \<le> n + int (length (snd (sweep c expTime n es))))"
  by (induction c expTime n es rule: sweep.induct) (auto split: if_splits)

lemma sweep_all:
  "e \<in> set es \<Longrightarrow> e \<in> set (snd (sweep c expTime n es)) \<or> snd e \<in> set (fst (sweep c expTime n es)) \<or>
    ss_activeStreams (sess c (snd e)) > 0"
  by (induction c expTime n es rule: sweep.induct) auto

text \<open>What the loop leaves alone: all but the idle sessions and the dates since when they are.\<close>

definition quiet :: "Client \<Rightarrow> Client \<Rightarrow> bool" where
  "quiet c d \<longleftrightarrow> length (cl_objs d) = length (cl_objs c) \<and>
     (\<forall>j < length (cl_objs c). sess d j = sess c j \<and> ps_seq (cl_objs d ! j) = ps_seq (cl_objs c ! j)
        \<and> ps_opened (cl_objs d ! j) = ps_opened (cl_objs c ! j)) \<and>
     cl_sessions d = cl_sessions c \<and> cl_die d = cl_die c \<and> cl_now d = cl_now c \<and>
     cl_minIdleSession d = cl_minIdleSession c \<and> cl_maxSession d = cl_maxSession c \<and> cl_closing d = cl_closing c"

lemma quiet_refl: "quiet c c"
  by (simp add: quiet_def)

lemma quiet_trans: "quiet c d \<Longrightarrow> quiet d e \<Longrightarrow> quiet c e"
  by (simp add: quiet_def)

lemma quiet_upd: "quiet c (c\<lparr>cl_idleSession := sl\<rparr>)"
  "k < length (cl_objs c) \<Longrightarrow> quiet c (updPooled k (\<lambda>p. p\<lparr>ps_idleSince := t\<rparr>) c)"
  by (auto simp: quiet_def)

lemma pool_inv_distinct: "pool_inv c xs \<Longrightarrow> distinct (map snd xs)"
proof -
  assume inv: "pool_inv c xs"
  have "distinct (map fst xs)"
    using skl.sorted[OF pool_inv_rep[OF inv]] strict_sorted_iff[of "map fst xs"] by simp
  moreover have "map fst xs = map (\<lambda>k. idleKey k c) (map snd xs)"
  proof -
    have "pool_tables (\<lambda>k. \<not> ss_closed (sess c k)) c xs" using inv by (simp add: pool_inv_def)
    from pool_tables_entry(1)[OF this] show ?thesis by simp
  qed
  ultimately show ?thesis using distinct_map[of _ "map snd xs"] by metis
qed

text \<open>One entry: where the loop goes on.\<close>

lemma cleanupLoop_Cons:
  assumes pos: "positioned (cl_idleSession c) it xs ((key, k) # es)" and inv: "pool_inv c (xs @ (key, k) # es)"
  shows "\<exists>it' c' n' xs' tc'. cleanupLoop expTime n tc it c = cleanupLoop expTime n' (tc @ tc') it' c'
    \<and> positioned (cl_idleSession c') it' xs' es \<and> pool_inv c' (xs' @ es) \<and> quiet c c'
    \<and> fst (sweep c expTime n ((key, k) # es)) = tc' @ fst (sweep c' expTime n' es)
    \<and> xs @ snd (sweep c expTime n ((key, k) # es)) = xs' @ snd (sweep c' expTime n' es)"
proof -
  have front: "IsNotEnd it" "Key (cl_idleSession c) it = Some key" "Value (cl_idleSession c) it = Some k"
    using positioned_Cons(1-3)[OF pos] .
  obtain it' sl' where it': "MoveToNext (cl_idleSession c) it = Some it'" "positioned (cl_idleSession c) it' (xs @ [(key, k)]) es"
    "Remove key (cl_idleSession c) = Some (True, sl')" "positioned sl' it' xs es"
    using positioned_Cons(4)[OF pos] by blast
  have k: "k < length (cl_objs c)" "\<not> IsClosed (sess c k)"
    using pool_inv_sessions(2)[OF inv, of k] by (simp_all add: IsClosed_def)
  have rest: "\<forall>e \<in> set es. snd e \<noteq> k"
    using pool_inv_distinct[OF inv] by auto
  let ?un = "c\<lparr>cl_idleSession := sl'\<rparr>" and ?up = "updPooled k (\<lambda>p. p\<lparr>ps_idleSince := cl_now c\<rparr>) c"
  have un: "unIdle key c = Some ?un" using it'(3) by (simp add: unIdle_def)
  have "represents sl' (xs @ es)" using it'(4) by (rule positioned_represents)
  then have inv_un: "pool_inv ?un (xs @ es)"
    using inv by (auto simp: pool_inv_def pool_tables_def idleKey_def)
  have inv_up: "pool_inv ?up ((xs @ [(key, k)]) @ es)"
    using pool_inv_touch[OF inv] by simp
  have sweeps: "sweep ?un expTime m es = sweep c expTime m es" "sweep ?up expTime m es = sweep c expTime m es" for m
    using rest k(1) by (auto intro!: sweep_cong)
  note step = cleanupLoop.simps[of expTime n tc it c] front it'(1) un k(2)
  consider (broken) "unusable (sess c k)" | (busy) "\<not> unusable (sess c k)" "ss_activeStreams (sess c k) > 0"
    | (fresh) "\<not> unusable (sess c k)" "\<not> ss_activeStreams (sess c k) > 0" "\<not> ps_idleSince (cl_objs c ! k) < expTime"
    | (spare) "\<not> unusable (sess c k)" "\<not> ss_activeStreams (sess c k) > 0" "ps_idleSince (cl_objs c ! k) < expTime" "n < cl_minIdleSession c"
    | (old) "\<not> unusable (sess c k)" "\<not> ss_activeStreams (sess c k) > 0" "ps_idleSince (cl_objs c ! k) < expTime" "\<not> n < cl_minIdleSession c"
    by blast
  then show ?thesis
  proof cases
    case broken
    then have "cleanupLoop expTime n tc it c = cleanupLoop expTime n (tc @ [k]) it' ?un"
      using k(2) step by (simp add: unusable_def)
    then show ?thesis
      using broken it'(4) inv_un by (intro exI[of _ it'] exI[of _ ?un] exI[of _ n] exI[of _ xs] exI[of _ "[k]"])
        (simp add: quiet_upd sweeps)
  next
    case busy
    then have "cleanupLoop expTime n tc it c = cleanupLoop expTime n (tc @ []) it' ?un" using step by simp
    then show ?thesis
      using busy it'(4) inv_un by (intro exI[of _ it'] exI[of _ ?un] exI[of _ n] exI[of _ xs] exI[of _ "[]"])
        (simp add: quiet_upd sweeps)
  next
    case fresh
    then have "cleanupLoop expTime n tc it c = cleanupLoop expTime (n + 1) (tc @ []) it' c" using step by simp
    then show ?thesis
      using fresh it'(2) inv by (intro exI[of _ it'] exI[of _ c] exI[of _ "n + 1"] exI[of _ "xs @ [(key, k)]"] exI[of _ "[]"])
        (simp add: quiet_refl)
  next
    case spare
    then have "cleanupLoop expTime n tc it c = cleanupLoop expTime (n + 1) (tc @ []) it' ?up" using step by simp
    then show ?thesis
      using spare it'(2) inv_up by (intro exI[of _ it'] exI[of _ ?up] exI[of _ "n + 1"] exI[of _ "xs @ [(key, k)]"] exI[of _ "[]"])
        (simp add: quiet_upd(2)[OF k(1)] sweeps)
  next
    case old
    then have "cleanupLoop expTime n tc it c = cleanupLoop expTime n (tc @ [k]) it' ?un" using step by simp
    then show ?thesis
      using old it'(4) inv_un by (intro exI[of _ it'] exI[of _ ?un] exI[of _ n] exI[of _ xs] exI[of _ "[k]"])
        (simp add: quiet_upd sweeps)
  qed
qed

lemma cleanupLoop_spec:
  assumes "positioned (cl_idleSession c) it xs es" "pool_inv c (xs @ es)"
  shows "\<exists>d. cleanupLoop expTime n tc it c = Some (tc @ fst (sweep c expTime n es), d)
    \<and> pool_inv d (xs @ snd (sweep c expTime n es)) \<and> quiet c d"
  using assms
proof (induction es arbitrary: n tc it c xs)
  case Nil
  then show ?case
    using positioned_end[OF Nil(1)] by (subst cleanupLoop.simps) (simp add: quiet_refl)
next
  case (Cons e es)
  obtain key k where e: "e = (key, k)" by (cases e)
  obtain it' c' n' xs' tc' where c': "cleanupLoop expTime n tc it c = cleanupLoop expTime n' (tc @ tc') it' c'"
    "positioned (cl_idleSession c') it' xs' es" "pool_inv c' (xs' @ es)" "quiet c c'"
    "fst (sweep c expTime n (e # es)) = tc' @ fst (sweep c' expTime n' es)"
    "xs @ snd (sweep c expTime n (e # es)) = xs' @ snd (sweep c' expTime n' es)"
    using cleanupLoop_Cons[OF Cons.prems[unfolded e]] unfolding e by metis
  obtain d where d: "cleanupLoop expTime n' (tc @ tc') it' c' = Some ((tc @ tc') @ fst (sweep c' expTime n' es), d)"
    "pool_inv d (xs' @ snd (sweep c' expTime n' es))" "quiet c' d"
    using Cons.IH[OF c'(2,3)] by blast
  have "quiet c d" by (rule quiet_trans[OF c'(4) d(3)])
  with d(1,2) show ?case unfolding c'(1,5,6) by simp
qed

lemma idleCleanup_runs:
  assumes inv: "pool_inv c xs" and n: "length (cl_objs c) < 2 ^ 38"
  shows "runs (idleCleanupExpTime expTime c) (\<lambda>d. (\<exists>ys. pool_inv d ys) \<and> length (cl_objs d) = length (cl_objs c) \<and>
    (\<forall>k < length (cl_objs c). ss_closed (sess d k) \<longleftrightarrow> ss_closed (sess c k) \<or> k \<in> set (fst (sweep c expTime 0 xs))))"
proof -
  let ?ks = "fst (sweep c expTime 0 xs)"
  obtain it where it: "Iterate (cl_idleSession c) = Some it" "positioned (cl_idleSession c) it [] xs"
    using positioned_start[OF pool_inv_rep[OF inv]] by blast
  obtain d where d: "cleanupLoop expTime 0 [] it c = Some (?ks, d)" "pool_inv d (snd (sweep c expTime 0 xs))" "quiet c d"
    using cleanupLoop_spec[OF it(2), of expTime 0 "[]"] inv by auto
  have "\<forall>k \<in> set ?ks. k < length (cl_objs d)"
    using sweep_closed pool_inv_sessions(2)[OF inv] d(3) by (fastforce simp: quiet_def)
  from closeSessions_runs[OF d(2) this] n d(3)
  have "runs (closeSessions ?ks d) (\<lambda>e. sameBut (set ?ks) d e \<and> (\<exists>ys. pool_inv e ys))" by (simp add: quiet_def)
  then have "runs (closeSessions ?ks d) (\<lambda>e. (\<exists>ys. pool_inv e ys) \<and> length (cl_objs e) = length (cl_objs c) \<and>
      (\<forall>k < length (cl_objs c). ss_closed (sess e k) \<longleftrightarrow> ss_closed (sess c k) \<or> k \<in> set ?ks))"
    by (rule runs_mono) (use d(3) in \<open>auto simp: sameBut_def quiet_def\<close>)
  moreover have "idleCleanupExpTime expTime c = closeSessions ?ks d"
    using it(1) d(1) by (simp add: idleCleanupExpTime_def)
  ultimately show ?thesis by simp
qed

end
