(* ===== verification/Pool_Life.thy ===== *)
theory Pool_Life
  imports Pool_Cleanup
begin

text \<open>
  The life of a client's pool: its operations, the moves of its sessions and what the environment does,
  as steps, the invariant of every state they lead to, and the promises of the pool.
\<close>

section \<open>Steps\<close>

text \<open>
  A session of the pool may move at any time by any of its own steps (\<open>sess_step\<close>); none of them writes
  the stream counter, which is the pool's, so the value \<open>envMove\<close> leaves open is put back.  Any session
  may be closed at any time: by a spawned \<open>Close\<close> or by whoever holds it.  A client dials fewer than
  \<open>2 ^ 38\<close> sessions, the bound under which the tower heights of the skip list stay in range.
\<close>

inductive pool_step :: "(bytes \<Rightarrow> string) \<Rightarrow> Client \<Rightarrow> Client \<Rightarrow> bool" for md5 where
  step_create: "(\<And>es. set (order es) = set es) \<Longrightarrow> \<forall>u. dialled = Inr u \<longrightarrow> \<not> c_closed u \<Longrightarrow>
    length (cl_objs c) + 1 < 2 ^ 38 \<Longrightarrow> CreateStream order dialled c = Some (res, d) \<Longrightarrow> pool_step md5 c d"
| step_session: "k < length (cl_objs c) \<Longrightarrow> sess_step md5 (sess c k) s \<Longrightarrow>
    sessionMoved k (s\<lparr>ss_activeStreams := ss_activeStreams (sess c k)\<rparr>) c = Some d \<Longrightarrow> pool_step md5 c d"
| step_closed: "k < length (cl_objs c) \<Longrightarrow> closeSession k c = Some d \<Longrightarrow> pool_step md5 c d"
| step_cleanup: "idleCleanup c = Some d \<Longrightarrow> pool_step md5 c d"
| step_reset: "Reset c = Some d \<Longrightarrow> pool_step md5 c d"
| step_shutdown: "poolClose c = Some d \<Longrightarrow> pool_step md5 c d"
| step_migration: "pool_step md5 c (SetMigrationEnabled b c)"
| step_world: "pool_step md5 c (c\<lparr>cl_now := now, cl_rand := r, cl_closing := ks, cl_padding := pf\<rparr>)"

inductive pool_reachable :: "(bytes \<Rightarrow> string) \<Rightarrow> Client \<Rightarrow> bool" for md5 where
  reach_new: "pool_reachable md5 (snd (NewClient pf ci to mi ms hi hq ht now r))"
| reach_more: "pool_reachable md5 c \<Longrightarrow> pool_step md5 c d \<Longrightarrow> pool_reachable md5 d"

section \<open>The invariant\<close>

definition pool_well :: "Client \<Rightarrow> bool" where
  "pool_well c \<longleftrightarrow> (\<exists>n. n < 2 ^ 38 \<and> wellWith n c)"

lemma pool_wellI: "pool_inv c xs \<Longrightarrow> length (cl_objs c) < 2 ^ 38 \<Longrightarrow> pool_well c"
  by (auto simp: pool_well_def wellWith_def)

lemma pool_wellE:
  assumes "pool_well c"
  obtains xs where "pool_inv c xs" "length (cl_objs c) < 2 ^ 38"
  using assms by (auto simp: pool_well_def wellWith_def)

lemma runs_Some_D: "runs m Q \<Longrightarrow> m = Some x \<Longrightarrow> Q x"
  by (simp add: runs_def)

lemma NewClient_well: "pool_well (snd (NewClient pf ci to mi ms hi hq ht now r))"
proof (rule pool_wellI)
  have "represents (NewSkipList :: (u64, nat) SkipList) []"
    unfolding NewSkipList_def by (rule represents_init) (simp add: cmp_ok_def)
  then show "pool_inv (snd (NewClient pf ci to mi ms hi hq ht now r)) []"
    by (simp add: NewClient_def Let_def pool_inv_def pool_tables_def)
qed (simp add: NewClient_def Let_def)

lemma sessionMoved_well:
  assumes "pool_inv c xs" "length (cl_objs c) < 2 ^ 38" "k < length (cl_objs c)" "sess_step md5 (sess c k) s"
  shows "runs (sessionMoved k (s\<lparr>ss_activeStreams := ss_activeStreams (sess c k)\<rparr>) c) pool_well"
proof -
  have inv: "session_inv (sess c k)" using assms(1,3) by (simp add: pool_inv_def pooled_ok_def)
  have "grows (sess c k) (s\<lparr>ss_activeStreams := ss_activeStreams (sess c k)\<rparr>)"
    using grows_step[OF assms(4)] by (simp add: grows_def)
  with sess_step_inv[OF assms(4) inv] have
    "ready k (s\<lparr>ss_activeStreams := ss_activeStreams (sess c k)\<rparr>) (ps_opened (cl_objs c ! k)) c xs"
    by (intro pool_inv_ready[OF assms(1,3)]) simp_all
  from sessionMoved_runs[OF this assms(2)] show ?thesis
    by (rule runs_mono) (use assms(2) in \<open>auto simp: sameObjs_def intro: pool_wellI\<close>)
qed

lemma pool_step_well:
  assumes "pool_step md5 c d" "pool_well c"
  shows "pool_well d"
proof -
  obtain xs where xs: "pool_inv c xs" and n: "length (cl_objs c) < 2 ^ 38" using assms(2) by (rule pool_wellE)
  have w: "wellWith (length (cl_objs c)) c" using xs by (auto simp: wellWith_def)
  show ?thesis
    using assms(1)
  proof cases
    case (step_create order dialled res)
    have "wellWith (length (cl_objs c)) d \<or> wellWith (Suc (length (cl_objs c))) d"
      using runs_Some_D[OF CreateStream_well[OF w step_create(3,1,2)] step_create(4)] by simp
    with n step_create(3) show ?thesis unfolding pool_well_def by (metis Suc_eq_plus1)
  next
    case (step_session k s)
    from runs_Some_D[OF sessionMoved_well[OF xs n step_session(1,2)] step_session(3)] show ?thesis .
  next
    case (step_closed k)
    from runs_Some_D[OF closeSession_runs[OF xs step_closed(1) n] step_closed(2)] n show ?thesis
      by (auto simp: sameBut_def intro: pool_wellI)
  next
    case step_cleanup
    from runs_Some_D[OF idleCleanup_runs[OF xs n] step_cleanup[unfolded idleCleanup_def]] n show ?thesis
      by (auto intro: pool_wellI)
  next
    case step_reset
    with Reset_runs[OF xs] xs n show ?thesis
      by (cases "cl_die c") (auto simp: Reset_def intro: pool_wellI)
  next
    case step_shutdown
    from runs_Some_D[OF poolClose_runs[OF xs n] step_shutdown] n show ?thesis
      by (auto simp: sameBut_def intro: pool_wellI)
  next
    case step_migration
    with xs n show ?thesis
      by (auto simp: SetMigrationEnabled_def intro!: pool_wellI[of _ xs] pool_inv_same[OF xs] simp: pool_inv_def pool_tables_def)
  next
    case (step_world now r ks pf)
    with xs n show ?thesis
      by (auto intro!: pool_wellI[of _ xs] pool_inv_same[OF xs] simp: pool_inv_def pool_tables_def)
  qed
qed

lemma pool_reachable_well: "pool_reachable md5 c \<Longrightarrow> pool_well c"
  by (induction rule: pool_reachable.induct) (auto intro: NewClient_well pool_step_well)

lemma pool_reachableE:
  assumes "pool_reachable md5 c"
  obtains xs where "pool_inv c xs" "length (cl_objs c) < 2 ^ 38"
  using pool_wellE[OF pool_reachable_well[OF assms]] by blast

section \<open>What the pool promises\<close>


text \<open>
  Property C13.  No operation of a reachable pool crashes in the skip list or loops: creating a stream (with
  any dial outcome and map order), the cleanup, the reset, the shutdown, closing a session, and the hooks
  of whatever step a session of the pool takes, all return.
\<close>

theorem pool_operations_return:
  assumes "pool_reachable md5 c" "length (cl_objs c) + 1 < 2 ^ 38" "\<And>es. set (order es) = set es"
    and "\<forall>u. dialled = Inr u \<longrightarrow> \<not> c_closed u"
  shows "CreateStream order dialled c \<noteq> None \<and> idleCleanup c \<noteq> None \<and> Reset c \<noteq> None \<and> poolClose c \<noteq> None \<and>
    (\<forall>k < length (cl_objs c). closeSession k c \<noteq> None \<and>
       (\<forall>s. sess_step md5 (sess c k) s \<longrightarrow> sessionMoved k (s\<lparr>ss_activeStreams := ss_activeStreams (sess c k)\<rparr>) c \<noteq> None))"
proof -
  obtain xs where xs: "pool_inv c xs" and n: "length (cl_objs c) < 2 ^ 38" using assms(1) by (rule pool_reachableE)
  have total: "runs m Q \<Longrightarrow> m \<noteq> None" for m :: "'a option" and Q by (auto simp: runs_def)
  have "wellWith (length (cl_objs c)) c" using xs by (auto simp: wellWith_def)
  from CreateStream_well[OF this assms(2-4)] have "CreateStream order dialled c \<noteq> None" by (auto simp: runs_def)
  moreover have "idleCleanup c \<noteq> None"
    using idleCleanup_runs[OF xs n] by (auto simp: idleCleanup_def runs_def)
  moreover have "Reset c \<noteq> None"
    using Reset_runs[OF xs] by (cases "cl_die c") (auto simp: Reset_def)
  moreover have "poolClose c \<noteq> None" using poolClose_runs[OF xs n] by (auto simp: runs_def)
  moreover have "closeSession k c \<noteq> None" if "k < length (cl_objs c)" for k
    using closeSession_runs[OF xs that n] by (auto simp: runs_def)
  moreover have "sessionMoved k (s\<lparr>ss_activeStreams := ss_activeStreams (sess c k)\<rparr>) c \<noteq> None"
    if "k < length (cl_objs c)" "sess_step md5 (sess c k) s" for k s
    using sessionMoved_well[OF xs n that] by (auto simp: runs_def)
  ultimately show ?thesis by blast
qed

section \<open>Idle sessions are taken newest first\<close>

lemma uint_of_int64: "uint (word_of_int k :: u64) = take_bit 64 k"
  by (simp add: unsigned_of_int)

lemma uint_key:
  assumes "m < 2 ^ 38"
  shows "uint (- 1 - of_nat (Suc m) :: u64) = 2 ^ 64 - 2 - int m"
proof -
  have e: "(- 1 - of_nat (Suc m) :: u64) = of_int (2 ^ 64 - 2 - int m)" by simp
  have "uint (of_int (2 ^ 64 - 2 - int m) :: u64) = take_bit 64 (2 ^ 64 - 2 - int m)" by (rule uint_of_int64)
  also have "\<dots> = 2 ^ 64 - 2 - int m" using assms by (simp add: take_bit_int_eq_self)
  finally show ?thesis unfolding e .
qed

lemma newest_key:
  "(- 1 - of_nat (Suc i) :: u64) < - 1 - of_nat (Suc j) \<Longrightarrow> i < 2 ^ 38 \<Longrightarrow> j < 2 ^ 38 \<Longrightarrow> j < i"
  using uint_key[of i] uint_key[of j] by (simp only: word_less_def)

text \<open>Along the idle list the sessions get older.\<close>

lemma idle_newest_first:
  assumes "pool_inv c xs" "length (cl_objs c) < 2 ^ 38"
  shows "sorted_wrt (>) (map snd xs)"
proof -
  have t: "pool_tables (\<lambda>k. \<not> ss_closed (sess c k)) c xs" using assms(1) by (simp add: pool_inv_def)
  have key: "fst e = - 1 - of_nat (Suc (snd e)) \<and> snd e < 2 ^ 38" if "e \<in> set xs" for e
    using pool_tables_entry(1)[OF t that] t assms(2) by (simp add: pool_tables_def idleKey_def)
  have "sorted_wrt (\<lambda>e f. fst e < fst f) xs"
    using skl.sorted[OF pool_inv_rep[OF assms(1)]] by (simp add: sorted_wrt_map)
  then have "sorted_wrt (\<lambda>e f. snd e > snd f) xs"
  proof (rule sorted_wrt_mono_rel[rotated])
    fix e f assume "e \<in> set xs" "f \<in> set xs" "fst e < fst f"
    with key[of e] key[of f] newest_key[of "snd e" "snd f"] show "snd e > snd f" by metis
  qed
  then show ?thesis by (simp add: sorted_wrt_map)
qed

lemma find_first:
  assumes "sorted_wrt (>) (ks :: nat list)"
  shows "find P ks = Some k \<Longrightarrow> k \<in> set ks \<and> P k \<and> (\<forall>j \<in> set ks. P j \<longrightarrow> j \<le> k)"
  using assms by (induction ks) (auto split: if_splits)

lemma firstUsable_cases:
  obtains (none) "\<forall>e \<in> set xs. unusable (sess c (snd e))" "firstUsable c xs = None" "skipped c xs = map snd xs"
      "dropWhile (\<lambda>e. unusable (sess c (snd e))) xs = []"
  | (first) us e es where "xs = us @ e # es" "\<not> unusable (sess c (snd e))" "firstUsable c xs = Some (snd e)"
      "skipped c xs = map snd us" "\<forall>u \<in> set us. unusable (sess c (snd u))"
      "dropWhile (\<lambda>e. unusable (sess c (snd e))) xs = e # es"
proof (cases "\<forall>e \<in> set xs. unusable (sess c (snd e))")
  case True
  then have t: "takeWhile (\<lambda>e. unusable (sess c (snd e))) xs = xs" by (simp add: takeWhile_eq_all_conv)
  have "skipped c xs = map snd xs" by (simp only: skipped_def t)
  moreover have "firstUsable c xs = None" using True by (simp add: firstUsable_def find_None_iff)
  ultimately show ?thesis using True by (intro none) (simp_all add: dropWhile_eq_Nil_conv)
next
  case False
  then obtain us e es where x: "xs = us @ e # es" "\<not> unusable (sess c (snd e))" "\<forall>u \<in> set us. unusable (sess c (snd u))"
    using split_list_first_prop[of xs "\<lambda>e. \<not> unusable (sess c (snd e))"] by auto
  have "find (\<lambda>k. \<not> unusable (sess c k)) (map snd us @ snd e # ks) = Some (snd e)" for ks
    using x(2,3) by (induction us) simp_all
  then have "firstUsable c xs = Some (snd e)" by (simp add: firstUsable_def x(1))
  moreover have "takeWhile (\<lambda>e. unusable (sess c (snd e))) xs = us" "dropWhile (\<lambda>e. unusable (sess c (snd e))) xs = e # es"
    using x by (simp_all add: takeWhile_append dropWhile_append)
  ultimately show ?thesis using x by (intro first) (simp_all add: skipped_def)
qed


section \<open>The cleanup spares streams\<close>

lemma sweep_apart:
  "distinct (map snd es) \<Longrightarrow> distinct (map snd (snd (sweep c expTime n es)))
    \<and> snd ` set (snd (sweep c expTime n es)) \<inter> set (fst (sweep c expTime n es)) = {}"
proof (induction c expTime n es rule: sweep.induct)
  case (2 c expTime n key k es)
  have "k \<notin> snd ` set (snd (sweep c expTime m es))" "k \<notin> set (fst (sweep c expTime m es))" for m
  proof -
    have "k \<notin> snd ` set es" using "2.prems" by simp
    then show "k \<notin> snd ` set (snd (sweep c expTime m es))" "k \<notin> set (fst (sweep c expTime m es))"
      using sweep_kept[of _ c expTime m es] sweep_closed[of k c expTime m es] by auto
  qed
  with 2 show ?case by auto
qed simp


section \<open>At the cap streams share sessions\<close>

text \<open>
  Property C17.  With no idle session and the cap reached, a new stream is opened on a usable session of the
  pool with the fewest streams, whatever the order of the map; a new connection is dialled only when no
  session is usable or that one refused.
\<close>

theorem cap_multiplexes:
  assumes "pool_reachable md5 c" "represents (cl_idleSession c) []" "\<And>es. set (order es) = set es"
    and "0 < cl_maxSession c" "cl_maxSession c \<le> activeSessionCount c"
    and "CreateStream order dialled c = Some (Inr (j, i), d)"
  shows "(j \<in> snd ` set (cl_sessions c) \<and> length (cl_objs d) = length (cl_objs c) \<and> \<not> unusable (sess c j) \<and>
      (\<forall>k \<in> snd ` set (cl_sessions c). \<not> unusable (sess c k) \<longrightarrow> ss_activeStreams (sess c j) \<le> ss_activeStreams (sess c k))) \<or>
    j = length (cl_objs c) \<and>
      ((\<forall>k \<in> snd ` set (cl_sessions c). unusable (sess c k)) \<or>
       (\<exists>k e c'. leastLoadedSession order c = Some k \<and> openOn k c = Some (Inl e, c')))"
proof -
  obtain xs where xs: "pool_inv c xs" and n: "length (cl_objs c) < 2 ^ 38" using assms(1) by (rule pool_reachableE)
  have idle: "tryIdle c = Some (None, c)"
    by (simp add: tryIdle_def getIdleSession_Nil[OF assms(2)])
  note least = leastLoadedSession_spec[of order c, OF assms(3)]
  have open': "\<not> cl_die c" using assms(6) by (auto simp: CreateStream_def)
  have fresh: "j = length (cl_objs e)" if "(do {
                (made, c) \<leftarrow> createSession dialled e;
                case made of
                  Inl e \<Rightarrow> Some (Inl (OtherError ''failed to create session''), c)
                | Inr k \<Rightarrow> do {
                    (res, c) \<leftarrow> openOn k c;
                    case res of
                      Inr i \<Rightarrow> Some (Inr (k, i), c)
                    | Inl e \<Rightarrow> do { c \<leftarrow> closeSession k c; Some (Inl (OtherError ''failed to create stream''), c) } } }) = Some (Inr (j, i), d)" for e
    using that by (auto simp: createSession_def Let_def split: sum.splits bind_splits)
  show ?thesis
  proof (cases "leastLoadedSession order c")
    case None
    then have "tryReuse order c = Some (None, c)" using assms(4,5) by (simp add: tryReuse_def)
    with assms(6) open' idle have "j = length (cl_objs c)" by (intro fresh) (simp add: CreateStream_def)
    with least(1) None show ?thesis by blast
  next
    case (Some k)
    then have k: "k \<in> snd ` set (cl_sessions c)" using least(2) by blast
    then have "k < length (cl_objs c)" using pool_inv_sessions(1)[OF xs, of k] by simp
    then obtain res c' where o': "openOn k c = Some (res, c')" "length (cl_objs c') = length (cl_objs c)"
      using openOn_runs[OF xs _ n, of k] by (auto simp: runs_def)
    show ?thesis
    proof (cases res)
      case (Inr m)
      then have "tryReuse order c = Some (Some (k, m), c')" using assms(4,5) Some o'(1) by (simp add: tryReuse_def)
      with assms(6) open' idle have "j = k" "d = c'" by (simp_all add: CreateStream_def)
      with least(2)[OF Some] o'(2) show ?thesis by blast
    next
      case (Inl e)
      then have "tryReuse order c = Some (None, c')" using assms(4,5) Some o'(1) by (simp add: tryReuse_def)
      with assms(6) open' idle have "j = length (cl_objs c')" by (intro fresh) (simp add: CreateStream_def)
      with Some o' Inl show ?thesis by auto
    qed
  qed
qed

end
