(* ===== verification/Pool_Sample.thy ===== *)
theory Pool_Sample
  imports Pool_Life Session_Flight
begin

text \<open>
  A pool with one session, first busy, then idle: the states at which the promises of the pool are
  instantiated.
\<close>

lemma fireHooks_quiet:
  "\<forall>e \<in> set es. e \<noteq> EvSessionDied \<and> e \<notin> EvStreamDied ` set (ps_opened (cl_objs c ! k)) \<Longrightarrow> fireHooks k b es c = Some c"
  by (induction es) simp_all

definition sample_pool :: Client where
  "sample_pool = snd (NewClient sample_pf 0 0 0 1 0 0 0 100 [])"

definition sample_session :: Session where
  "sample_session = NewClientSession (quietConn []) sample_pf 100 []"

text \<open>The session with its one stream.\<close>

definition sample_busy :: Session where
  "sample_busy = (maybeStartIdleLoop sample_session)\<lparr>ss_activeStreams := 1, ss_buffering := False,
     ss_buffer := encodeFrames [settingsFrame sample_pf, newFrame cmdSYN 1], ss_streamId := 1,
     ss_objs := [\<lparr>st_id = 1, st_dieErr = None, st_synTimer = False, st_frameSeq = 0, st_reported = False, st_mig = False\<rparr>],
     ss_streams := [(1, 0)]\<rparr>"

definition pool_busy :: Client where
  "pool_busy = sample_pool\<lparr>cl_sessionCounter := 1,
     cl_objs := [\<lparr>ps_session = sample_busy, ps_seq = 1, ps_idleSince = 0, ps_opened = [0]\<rparr>], cl_sessions := [(1, 0)]\<rparr>"

lemma sample_trace:
  "ss_trace sample_session = []" "e \<in> set (ss_trace (maybeStartIdleLoop sample_session)) \<Longrightarrow> e = EvStartIdleLoop"
  by (auto simp: sample_session_def NewClientSession_def newSession_def maybeStartIdleLoop_def emit_def Let_def split_beta
      split: if_splits)

lemma sample_dialled:
  "createSession (Inr (quietConn [])) (sample_pool\<lparr>cl_die := b\<rparr>) = Some (Inr 0, sample_pool\<lparr>cl_die := b, cl_sessionCounter := 1,
     cl_objs := [\<lparr>ps_session = Run sample_session, ps_seq = 1, ps_idleSince = 0, ps_opened = []\<rparr>], cl_sessions := [(1, 0)]\<rparr>)"
proof -
  have s: "(NewClientSession (quietConn []) sample_pf 100 [])\<lparr>ss_migActive := False\<rparr> = sample_session"
    by (simp add: sample_session_def NewClientSession_def newSession_def Let_def split_beta)
  have "ss_trace (Run sample_session) = ss_trace (maybeStartIdleLoop sample_session)"
    using client_running[OF sample_pf_facts(4), of "quietConn []" 100 "[]"] by (simp add: sample_session_def)
  then have "\<forall>e \<in> set (newEvents sample_session (Run sample_session)). e = EvStartIdleLoop"
    using sample_trace by (simp add: newEvents_def)
  then have "fireHooks 0 closed (newEvents sample_session (Run sample_session)) c = Some c" for closed c
    by (intro fireHooks_quiet) auto
  then show ?thesis
    by (simp add: createSession_def sample_pool_def NewClient_def Let_def s sessionMoved_def updPooled_def)
qed

lemma sample_opened:
  "openOn 0 (sample_pool\<lparr>cl_die := b, cl_sessionCounter := 1,
     cl_objs := [\<lparr>ps_session = Run sample_session, ps_seq = 1, ps_idleSince = 0, ps_opened = []\<rparr>], cl_sessions := [(1, 0)]\<rparr>)
   = Some (Inr 0, pool_busy\<lparr>cl_die := b\<rparr>)"
proof -
  let ?r = "(Run sample_session)\<lparr>ss_activeStreams := 1\<rparr>"
  have o': "OpenStream ?r = ((Some 0, None), sample_busy)"
    using client_opened_counted[OF sample_pf_facts(4), where c = "quietConn []" and now = 100 and r = "[]" and n = 1]
    by (simp add: sample_session_def sample_busy_def)
  have "ss_activeStreams (Run sample_session) = 0"
    by (simp add: sample_session_def NewClientSession_def newSession_fields)
  moreover have "newEvents ?r sample_busy = []"
    using client_running[OF sample_pf_facts(4), of "quietConn []" 100 "[]"]
    by (simp add: newEvents_def sample_busy_def sample_session_def)
  ultimately show ?thesis
    using o' by (simp add: openOn_def addActive_def updPooled_def sessionMoved_def Let_def pool_busy_def)
qed

lemma alive: "sample_pool\<lparr>cl_die := False\<rparr> = sample_pool" "pool_busy\<lparr>cl_die := False\<rparr> = pool_busy"
  by (simp_all add: pool_busy_def sample_pool_def NewClient_def Let_def)

lemma pool_busy_created: "CreateStream order (Inr (quietConn [])) sample_pool = Some (Inr (0, 0), pool_busy)"
proof -
  have "represents (cl_idleSession sample_pool) []"
    unfolding sample_pool_def NewClient_def Let_def by (simp add: NewSkipList_def represents_init cmp_ok_def)
  then have "tryIdle sample_pool = Some (None, sample_pool)"
    by (simp add: tryIdle_def getIdleSession_Nil)
  moreover have "tryReuse order sample_pool = Some (None, sample_pool)" "\<not> cl_die sample_pool"
    by (simp_all add: tryReuse_def activeSessionCount_def sample_pool_def NewClient_def Let_def)
  ultimately show ?thesis
    using sample_dialled[of False] sample_opened[of False] by (simp add: CreateStream_def alive)
qed

lemma pool_busy_reachable: "pool_reachable md5 pool_busy"
proof (rule reach_more)
  show "pool_reachable md5 sample_pool" unfolding sample_pool_def by (rule reach_new)
  show "pool_step md5 sample_pool pool_busy"
    by (rule step_create[OF _ _ _ pool_busy_created[of id]]) (simp_all add: quietConn_def sample_pool_def NewClient_def Let_def)
qed


theorem pool_operations_return_witness:
  "\<exists>res d. CreateStream rev (Inr (quietConn [1])) pool_busy = Some (res, d) \<and> idleCleanup pool_busy \<noteq> None"
proof -
  have "CreateStream rev (Inr (quietConn [1])) pool_busy \<noteq> None \<and> idleCleanup pool_busy \<noteq> None"
    using pool_operations_return[OF pool_busy_reachable[of "\<lambda>_. []"], of rev "Inr (quietConn [1])"]
    by (simp add: pool_busy_def quietConn_def)
  then show ?thesis by auto
qed

section \<open>The session serves another stream\<close>

text \<open>With frames still buffered, a control frame goes out with them.\<close>

lemma flush_control:
  assumes "\<not> ss_closed s" "\<not> ss_buffering s" "ss_buffer s \<noteq> []" "\<not> c_closed (ss_conn s)" "c_sched (ss_conn s) = []"
    and "length (f_data f) \<le> maxFrameDataLen"
  shows "\<exists>rs r. writeControlFrame f s = ((length (f_data f), None), s\<lparr>ss_buffer := [], ss_shaper := rs, ss_rand := r\<rparr>) \<and>
    \<not> c_closed (rs_conn rs) \<and> c_sched (rs_conn rs) = []"
proof -
  let ?flush = "WriteInitialFlush (ss_padding s) (ss_now s) (ss_buffer s @ encodeFrame f) (ss_shaper s) (ss_rand s)"
  obtain n rs r where w: "?flush = ((n, None), rs, r)"
    using WriteInitialFlush_succeeds[OF assms(4,5)] by blast
  have "c_closed (rs_conn (fst (snd ?flush))) = c_closed (ss_conn s)" "c_sched (rs_conn (fst (snd ?flush))) = []"
    using shaper_sched(2)[OF assms(5)] by simp_all
  then have "\<not> c_closed (rs_conn rs)" "c_sched (rs_conn rs) = []" using assms(4) by (simp_all add: w)
  moreover have "writeControlFrame f s = ((length (f_data f), None), s\<lparr>ss_buffer := [], ss_shaper := rs, ss_rand := r\<rparr>)"
    using assms(1-3,6) w by (simp add: writeControlFrame_def writeConn_def flushShaped_def IsClosed_def)
  ultimately show ?thesis by blast
qed

lemma sample_busy_facts:
  "\<not> ss_closed sample_busy" "\<not> ss_connBroken sample_busy" "\<not> ss_buffering sample_busy" "ss_buffer sample_busy \<noteq> []"
  "\<not> c_closed (ss_conn sample_busy)" "c_sched (ss_conn sample_busy) = []" "ss_peerVersion sample_busy = 0"
  "\<not> ss_migActive sample_busy"
  by (simp_all add: sample_busy_def sample_session_def maybeStartIdleLoop_def emit_def NewClientSession_def newSession_def
      newRecordShaper_def quietConn_def encodeFrame_def frameHeader_def Let_def split_beta)

lemma sample_shared: "\<exists>s. OpenStream (sample_busy\<lparr>ss_activeStreams := 2\<rparr>) = ((Some 1, None), s) \<and> ss_trace s = ss_trace sample_busy"
proof -
  define s0 where "s0 = sample_busy\<lparr>ss_activeStreams := 2, ss_streamId := 2,
     ss_objs := ss_objs sample_busy @ [\<lparr>st_id = 2, st_dieErr = None, st_synTimer = False, st_frameSeq = 0, st_reported = False,
       st_mig = False\<rparr>], ss_streams := AList.update 2 (Suc 0) (ss_streams sample_busy)\<rparr>"
  have "\<not> ss_closed s0" "\<not> ss_buffering s0" "ss_buffer s0 \<noteq> []" "\<not> c_closed (ss_conn s0)" "c_sched (ss_conn s0) = []"
    using sample_busy_facts by (simp_all add: s0_def)
  from flush_control[OF this, of "newFrame cmdSYN 2"] obtain rs r where
    w: "writeControlFrame (newFrame cmdSYN 2) s0 = ((0, None), s0\<lparr>ss_buffer := [], ss_shaper := rs, ss_rand := r\<rparr>)"
    by (auto simp: newFrame_def)
  have "ss_streamId sample_busy + 1 = 2" "length (ss_objs sample_busy) = 1" by (simp_all add: sample_busy_def)
  moreover have "\<not> (2 :: byte) \<le> 0" by (simp add: word_le_nat_alt)
  ultimately have "OpenStream (sample_busy\<lparr>ss_activeStreams := 2\<rparr>) = ((Some 1, None), s0\<lparr>ss_buffer := [], ss_shaper := rs, ss_rand := r, ss_buffering := False\<rparr>)"
    using w sample_busy_facts by (simp add: OpenStream_def IsClosed_def newStream_def Let_def flip: s0_def)
  then show ?thesis by (simp add: s0_def)
qed

theorem cap_multiplexes_witness:
  "\<exists>d. CreateStream rev (Inr (quietConn [1])) pool_busy = Some (Inr (0, 1), d) \<and> length (cl_objs d) = 1"
proof -
  obtain s where s: "OpenStream (sample_busy\<lparr>ss_activeStreams := 2\<rparr>) = ((Some 1, None), s)" "ss_trace s = ss_trace sample_busy"
    using sample_shared by blast
  then have "\<exists>d. openOn 0 pool_busy = Some (Inr 1, d)"
    by (simp add: openOn_def addActive_def updPooled_def sessionMoved_def newEvents_def pool_busy_def Let_def)
      (simp add: sample_busy_def newEvents_def)
  then obtain d where d: "openOn 0 pool_busy = Some (Inr 1, d)" by blast
  have idle: "represents (cl_idleSession pool_busy) []"
    by (simp add: pool_busy_def sample_pool_def NewClient_def Let_def NewSkipList_def represents_init cmp_ok_def)
  have "leastLoadedSession rev pool_busy = Some 0"
    using sample_busy_facts by (simp add: leastLoadedSession_def lighter_def pool_busy_def unusable_def IsClosed_def)
  then have "tryReuse rev pool_busy = Some (Some (0, 1), d)"
    using d by (simp add: tryReuse_def activeSessionCount_def) (simp add: pool_busy_def sample_pool_def NewClient_def Let_def)
  then have c: "CreateStream rev (Inr (quietConn [1])) pool_busy = Some (Inr (0, 1), d)"
    by (simp add: CreateStream_def tryIdle_def getIdleSession_Nil[OF idle])
      (simp add: pool_busy_def sample_pool_def NewClient_def Let_def)
  have "cl_maxSession pool_busy = 1" "activeSessionCount pool_busy = 1" "length (cl_objs pool_busy) = 1"
    by (simp_all add: pool_busy_def sample_pool_def NewClient_def activeSessionCount_def Let_def)
  then have "length (cl_objs d) = 1"
    using cap_multiplexes[OF pool_busy_reachable[of "\<lambda>_. []"] idle _ _ _ c] by auto
  with c show ?thesis by blast
qed

section \<open>The session falls idle\<close>

definition sample_ended :: Session where
  "sample_ended = snd (streamClose 0 sample_busy)"

lemma sample_ended_facts:
  "ss_trace sample_ended = ss_trace sample_busy @ [EvStreamDied 0]" "\<not> ss_closed sample_ended" "\<not> ss_connBroken sample_ended"
  "ss_activeStreams sample_ended = 1" "healthy sample_ended" "ss_streams sample_ended = []" "length (ss_objs sample_ended) = 1"
  "ss_streamId sample_ended = 1" "ss_peerVersion sample_ended = 0" "\<not> ss_migActive sample_ended"
proof -
  define s0 where "s0 = sample_busy\<lparr>
    ss_objs := [\<lparr>st_id = 1, st_dieErr = Some ErrClosedPipe, st_synTimer = False, st_frameSeq = 0, st_reported = False, st_mig = False\<rparr>],
    ss_trace := ss_trace sample_busy @ [EvStreamDied 0]\<rparr>"
  have d: "dieStream 0 ErrClosedPipe sample_busy = (True, s0)"
    by (simp add: dieStream_def updStream_def emit_def s0_def Let_def) (simp add: sample_busy_def)
  have "\<not> ss_closed s0" "\<not> ss_buffering s0" "ss_buffer s0 \<noteq> []" "\<not> c_closed (ss_conn s0)" "c_sched (ss_conn s0) = []"
    using sample_busy_facts by (simp_all add: s0_def)
  from flush_control[OF this, of "newFrame cmdFIN 1"] obtain rs r where
    w: "writeControlFrame (newFrame cmdFIN 1) s0 = ((0, None), s0\<lparr>ss_buffer := [], ss_shaper := rs, ss_rand := r\<rparr>)"
    and open': "\<not> c_closed (rs_conn rs)" "c_sched (rs_conn rs) = []"
    by (auto simp: newFrame_def)
  have "st_id (ss_objs s0 ! 0) = 1" "ss_streams s0 = [(1, 0)]" "\<not> IsClosed s0"
    using sample_busy_facts by (simp_all add: s0_def sample_busy_def IsClosed_def)
  with w have e: "sample_ended = s0\<lparr>ss_buffer := [], ss_shaper := rs, ss_rand := r, ss_streams := []\<rparr>"
    by (simp add: sample_ended_def streamClose_def closeWithError_def d streamClosed_def Let_def)
  show "ss_trace sample_ended = ss_trace sample_busy @ [EvStreamDied 0]" "\<not> ss_closed sample_ended" "\<not> ss_connBroken sample_ended"
    "ss_peerVersion sample_ended = 0" "\<not> ss_migActive sample_ended" "ss_streams sample_ended = []" "length (ss_objs sample_ended) = 1"
    using sample_busy_facts by (simp_all add: e s0_def)
  show "healthy sample_ended"
    using sample_busy_facts open' by (simp add: healthy_def listening_def flushed_def unbuffered_def e s0_def)
  show "ss_streamId sample_ended = 1" by (simp add: e s0_def sample_busy_def)
  have "ss_activeStreams sample_busy = 1" by (simp add: sample_busy_def)
  then show "ss_activeStreams sample_ended = 1" by (simp add: e s0_def)
qed

text \<open>The pool in that state, its session in the skip list \<open>sl\<close>.\<close>

definition pool_idle :: "(u64, nat) SkipList \<Rightarrow> rand \<Rightarrow> Client" where
  "pool_idle sl r = pool_busy\<lparr>cl_objs := [\<lparr>ps_session = sample_ended\<lparr>ss_activeStreams := 0\<rparr>, ps_seq = 1, ps_idleSince = 100, ps_opened = [0]\<rparr>],
     cl_idleSession := sl, cl_rand := r\<rparr>"

lemma pool_busy_simps:
  "cl_objs pool_busy = [\<lparr>ps_session = sample_busy, ps_seq = 1, ps_idleSince = 0, ps_opened = [0]\<rparr>]"
  "cl_now pool_busy = 100" "\<not> cl_die pool_busy" "cl_rand pool_busy = []" "cl_idleSession pool_busy = NewSkipList"
  "cl_idleSessionTimeout pool_busy = 30000000000" "cl_minIdleSession pool_busy = 0"
  by (simp_all add: pool_busy_def sample_pool_def NewClient_def Let_def)

lemma sample_fallen:
  "\<exists>sl r. sessionMoved 0 sample_ended pool_busy = Some (pool_idle sl r) \<and> represents sl [(- 2 :: u64, 0 :: nat)]"
proof -
  let ?c1 = "pool_busy\<lparr>cl_objs := [\<lparr>ps_session = sample_ended\<lparr>ss_activeStreams := 0\<rparr>, ps_seq = 1, ps_idleSince = 0, ps_opened = [0]\<rparr>]\<rparr>"
  have "represents (NewSkipList :: (u64, nat) SkipList) []" by (simp add: NewSkipList_def represents_init cmp_ok_def)
  from skl.insert_ok[OF this, of "- 2" 0 "[]"] obtain sl r where
    i: "Insert (- 2 :: u64) (0 :: nat) NewSkipList [] = Some (sl, r)" "represents sl [(- 2, 0)]" by (auto simp: absInsert_def)
  have "putIdle 0 ?c1 = Some (pool_idle sl r)"
    using i(1) by (simp add: putIdle_def updPooled_def idleKey_def pool_busy_simps pool_idle_def Let_def)
  moreover have "addActive 0 (- 1) (updPooled 0 (\<lambda>p. p\<lparr>ps_session := sample_ended\<rparr>) pool_busy) = ?c1"
    using sample_ended_facts(4) by (simp add: addActive_def updPooled_def pool_busy_simps)
  moreover have "newEvents sample_busy sample_ended = [EvStreamDied 0]" by (simp add: newEvents_def sample_ended_facts)
  ultimately have "sessionMoved 0 sample_ended pool_busy = Some (pool_idle sl r)"
    using sample_ended_facts(3) sample_busy_facts(1)
    by (simp add: sessionMoved_def streamDieHook_def pool_busy_simps IsClosed_def updPooled_def Let_def)
  with i(2) show ?thesis by blast
qed

lemma sample_idle_step:
  assumes "sessionMoved 0 sample_ended pool_busy = Some (pool_idle sl r)"
  shows "sess_step md5 (sess pool_busy 0) sample_ended" "ss_activeStreams (sess pool_busy 0) = ss_activeStreams sample_ended"
    "pool_reachable md5 (pool_idle sl r)"
proof -
  show a: "ss_activeStreams (sess pool_busy 0) = ss_activeStreams sample_ended"
    using sample_ended_facts(4) by (simp add: pool_busy_simps sample_busy_def)
  then have "sample_ended\<lparr>ss_activeStreams := ss_activeStreams (sess pool_busy 0)\<rparr> = sample_ended" by simp
  moreover show "sess_step md5 (sess pool_busy 0) sample_ended"
    using step_close_stream[of 0 sample_busy md5] by (simp add: sample_ended_def pool_busy_simps) (simp add: sample_busy_def)
  ultimately have "pool_step md5 pool_busy (pool_idle sl r)"
    using assms by (intro step_session[of 0 _ _ sample_ended]) (simp_all add: pool_busy_simps)
  then show "pool_reachable md5 (pool_idle sl r)" by (rule reach_more[OF pool_busy_reachable])
qed

text \<open>Some time later its timeout has passed.\<close>

definition pool_late :: "(u64, nat) SkipList \<Rightarrow> rand \<Rightarrow> Client" where
  "pool_late sl r = (pool_idle sl r)\<lparr>cl_now := 60000000000, cl_rand := [], cl_padding := sample_pf\<rparr>"

lemma pool_late_simps:
  "cl_objs (pool_late sl r) = [\<lparr>ps_session = sample_ended\<lparr>ss_activeStreams := 0\<rparr>, ps_seq = 1, ps_idleSince = 100, ps_opened = [0]\<rparr>]"
  "cl_now (pool_late sl r) = 60000000000" "cl_idleSessionTimeout (pool_late sl r) = 30000000000" "cl_minIdleSession (pool_late sl r) = 0"
  "cl_maxSession (pool_late sl r) = 1" "cl_sessions (pool_late sl r) = [(1, 0)]" "\<not> cl_die (pool_late sl r)"
  "cl_closing (pool_late sl r) = []"
  by (simp_all add: pool_late_def pool_idle_def pool_busy_def sample_pool_def NewClient_def Let_def)

lemma represents_unique: "represents sl xs \<Longrightarrow> represents sl ys \<Longrightarrow> xs = ys"
  using Iterate_refines[of sl xs] Iterate_refines[of sl ys] by auto

lemma pool_late_reachable:
  assumes "sessionMoved 0 sample_ended pool_busy = Some (pool_idle sl r)" "represents sl [(- 2, 0)]"
  shows "pool_reachable md5 (pool_late sl r)" "pool_inv (pool_late sl r) [(- 2, 0)]"
proof -
  have "pool_late sl r = (pool_idle sl r)\<lparr>cl_now := 60000000000, cl_rand := [], cl_closing := [], cl_padding := sample_pf\<rparr>"
    by (simp add: pool_late_def pool_idle_def pool_busy_def sample_pool_def NewClient_def Let_def)
  then show reach: "pool_reachable md5 (pool_late sl r)"
    using reach_more[OF sample_idle_step(3)[OF assms(1)] step_world] by simp
  then obtain xs where xs: "pool_inv (pool_late sl r) xs" by (rule pool_reachableE)
  have "represents sl xs" using pool_inv_rep[OF xs] by (simp add: pool_late_def pool_idle_def)
  with xs represents_unique[OF assms(2)] show "pool_inv (pool_late sl r) [(- 2, 0)]" by simp
qed

lemma sample_idle:
  "\<exists>c. pool_reachable md5 c \<and> pool_inv c [(- 2, 0)] \<and> length (cl_objs c) = 1 \<and> \<not> unusable (sess c 0) \<and>
     ss_activeStreams (sess c 0) = 0 \<and> ps_idleSince (cl_objs c ! 0) = 100 \<and> cl_now c = 60000000000 \<and>
     cl_idleSessionTimeout c = 30000000000 \<and> cl_minIdleSession c = 0"
proof -
  obtain sl r where p: "sessionMoved 0 sample_ended pool_busy = Some (pool_idle sl r)" "represents sl [(- 2, 0)]"
    using sample_fallen by blast
  from pool_late_reachable[OF p] show ?thesis
    using sample_ended_facts by (intro exI[of _ "pool_late sl r"]) (simp add: pool_late_simps unusable_def IsClosed_def)
qed



end
