(* ===== verification/Service.thy ===== *)
theory Service
  imports RecordShaper MigRegistry
begin

text \<open>
  \<open>client.go\<close> and \<open>service.go\<close>: the authentication packet that opens every connection, and the service
  that checks it and hands the connection on.  SHA-256 is a parameter of the definitions; so is the
  capacity of the packet buffer, which belongs to a third-party package.  A connection is the list of
  the chunks its \<open>Read\<close> calls will return.
\<close>

section \<open>Users\<close>

definition authDomainPrefix :: string where "authDomainPrefix = ''anytls-x:''"

record User =
  us_Name :: string
  us_Password :: string

definition passwordSha256 :: "(bytes \<Rightarrow> bytes) \<Rightarrow> string \<Rightarrow> bytes" where
  "passwordSha256 sha256 pw = sha256 (bytes_of (authDomainPrefix @ pw))"

definition buildUserMap :: "(bytes \<Rightarrow> bytes) \<Rightarrow> User list \<Rightarrow> (bytes \<times> string) list" where
  "buildUserMap sha256 users =
     foldl (\<lambda>u user. AList.update (passwordSha256 sha256 (us_Password user)) (us_Name user) u) [] users"

section \<open>The client's packet\<close>

text \<open>
  \<open>createOutboundConnection\<close>: the bytes it sends before it hands the connection over (whose log then
  starts afresh).  \<open>None\<close> is the panic of \<open>Extend\<close> beyond the capacity of the packet buffer.
\<close>

definition authPacket :: "nat \<Rightarrow> bytes \<Rightarrow> PaddingFactory \<Rightarrow> rand \<Rightarrow> (bytes \<times> rand) option" where
  "authPacket packetSize pw pf r =
     (let (paddingLen, r) = SamplePaddingLen pf r;
          b = pw @ putUint16 (word_of_int paddingLen)
      in if length b > packetSize then None
         else if paddingLen > 0
         then if int (length b) + paddingLen > int packetSize then None
              else let (filler, r) = FillRandom (nat paddingLen) r in Some (b @ filler, r)
         else Some (b, r))"

definition createOutboundConnection ::
    "nat \<Rightarrow> bytes \<Rightarrow> PaddingFactory \<Rightarrow> int \<Rightarrow> go_error + conn \<Rightarrow> rand \<Rightarrow> ((go_error + bytes \<times> conn) \<times> rand) option" where
  "createOutboundConnection packetSize pw pf now dialled r =
     (case dialled of
        Inl e \<Rightarrow> Some (Inl e, r)
      | Inr c \<Rightarrow>
          (case authPacket packetSize pw pf r of
             None \<Rightarrow> None
           | Some (b, r) \<Rightarrow>
               let ((_, err), c) = connWrite now b c
               in Some (case err of Some e \<Rightarrow> Inl e | None \<Rightarrow> Inr (b, c\<lparr>c_out := []\<rparr>), r)))"

section \<open>The service\<close>

record ServiceConfig =
  cf_PaddingScheme :: bytes
  cf_Users :: "User list"
  cf_Handler :: bool
  cf_FallbackHandler :: bool
  cf_Logger :: bool
  cf_EnableMigration :: "bool option"
  cf_MigrationMinBulkBytes :: int
  cf_MigrationTLSOnly :: "bool option"

record 'sm Service =
  sv_users :: "(bytes \<times> string) list"
  sv_padding :: PaddingFactory
  sv_fallback :: bool
  sv_migReg :: "'sm MigRegistry option"
  sv_migMinBulk :: int
  sv_migTLSOnly :: bool

text \<open>A \<open>*bool\<close> option that is on when it is not set.\<close>

definition onByDefault :: "bool option \<Rightarrow> bool" where
  "onByDefault opt = (case opt of None \<Rightarrow> True | Some b \<Rightarrow> b)"

definition NewService ::
    "(bytes \<Rightarrow> bytes) \<Rightarrow> (bytes \<Rightarrow> string) \<Rightarrow> bool \<Rightarrow> ServiceConfig \<Rightarrow> go_error + 'sm Service" where
  "NewService sha256 md5 migrationEnvDefault cfg =
     (if \<not> cf_Handler cfg \<or> \<not> cf_Logger cfg then Inl ErrInvalid
      else case NewPaddingFactory md5 (cf_PaddingScheme cfg) of
             None \<Rightarrow> Inl (OtherError ''incorrect padding scheme format'')
           | Some pf \<Rightarrow>
               let mig = (onByDefault (cf_EnableMigration cfg) \<or> migrationEnvDefault)
               in Inr \<lparr>sv_users = buildUserMap sha256 (cf_Users cfg), sv_padding = pf,
                       sv_fallback = cf_FallbackHandler cfg,
                       sv_migReg = (if mig then Some NewMigRegistry else None),
                       sv_migMinBulk = (if mig then cf_MigrationMinBulkBytes cfg else 0),
                       sv_migTLSOnly = (mig \<and> onByDefault (cf_MigrationTLSOnly cfg))\<rparr>)"

definition UpdateUsers :: "(bytes \<Rightarrow> bytes) \<Rightarrow> User list \<Rightarrow> 'sm Service \<Rightarrow> 'sm Service" where
  "UpdateUsers sha256 users s = s\<lparr>sv_users := buildUserMap sha256 users\<rparr>"

text \<open>\<open>b.ReadOnceFrom(conn)\<close>: one \<open>Read\<close> into the free space of the buffer.\<close>

definition readOnce :: "nat \<Rightarrow> bytes list \<Rightarrow> go_error + bytes \<times> bytes" where
  "readOnce cap reads =
     (case reads of [] \<Rightarrow> Inl EOF | c # cs \<Rightarrow> Inr (take cap c, drop cap c @ concat cs))"

definition readBytes :: "nat \<Rightarrow> bytes \<Rightarrow> (bytes \<times> bytes) option" where
  "readBytes n b = (if length b < n then None else Some (take n b, drop n b))"

datatype 'sm served =
    ServeErr go_error
  | ServeFallback bytes
  | ServeCarrier 'sm bytes
  | ServeHandled
  | ServeSession string bytes

definition fallback :: "'sm Service \<Rightarrow> bytes \<Rightarrow> string \<Rightarrow> 'sm served" where
  "fallback s conn err = (if sv_fallback s then ServeFallback conn else ServeErr (OtherError err))"

text \<open>
  \<open>NewConnection\<close>: who gets the connection and what bytes it will deliver to them.  \<open>rest\<close> is what
  the connection has left after the first read; the cached connection delivers the unread part of the
  buffer before it.
\<close>

definition NewConnection :: "nat \<Rightarrow> bytes list \<Rightarrow> 'sm Service \<Rightarrow> 'sm served \<times> 'sm Service" where
  "NewConnection packetSize reads s =
     (case readOnce packetSize reads of
        Inl e \<Rightarrow> (ServeErr e, s)
      | Inr (b, rest) \<Rightarrow>
          (case readBytes 32 b of
             None \<Rightarrow> (fallback s (b @ rest) ''EOF'', s)
           | Some (pw, b1) \<Rightarrow>
               (case map_of (sv_users s) pw of
                  None \<Rightarrow> (fallback s (b @ rest) ''unknown user password'', s)
                | Some user \<Rightarrow>
                    (case readBytes 2 b1 of
                       None \<Rightarrow> (fallback s (b @ rest) ''read padding length'', s)
                     | Some (by2, b2) \<Rightarrow>
                         let paddingLen = unat (getUint16 (by2 ! 0) (by2 ! 1))
                         in case (if paddingLen > 0 then readBytes paddingLen b2 else Some ([], b2)) of
                              None \<Rightarrow> (fallback s (b @ rest) ''read padding'', s)
                            | Some (_, b3) \<Rightarrow>
                                if sv_migReg s = None then (ServeSession user (b3 @ rest), s)
                                else let (v, reg) = MaybeAcceptCarrier (b3 @ rest) (sv_migReg s);
                                         s = s\<lparr>sv_migReg := reg\<rparr>
                                     in (case v of
                                           CarrierErr e \<Rightarrow> (ServeErr e, s)
                                         | NotCarrier conn \<Rightarrow> (ServeSession user conn, s)
                                         | CarrierDropped \<Rightarrow> (ServeHandled, s)
                                         | CarrierAttached sm conn \<Rightarrow> (ServeCarrier sm conn, s))))))"

section \<open>Who is let in\<close>

lemma map_of_buildUserMap:
  "map_of (buildUserMap sha256 users) h
   = map_option us_Name (find (\<lambda>u. passwordSha256 sha256 (us_Password u) = h) (rev users))"
proof (induction users rule: rev_induct)
  case Nil
  then show ?case by (simp add: buildUserMap_def)
next
  case (snoc u us)
  then show ?case by (simp add: buildUserMap_def update_conv)
qed

lemma NewService_fields:
  assumes "NewService sha256 md5 env cfg = Inr s"
  shows "sv_users s = buildUserMap sha256 (cf_Users cfg)" "sv_fallback s = cf_FallbackHandler cfg"
    "\<exists>pf. NewPaddingFactory md5 (cf_PaddingScheme cfg) = Some pf \<and> sv_padding s = pf"
  using assms by (auto simp: NewService_def Let_def split: if_splits option.splits)

lemma SamplePaddingLen_nonneg:
  assumes "wf_factory pf"
  shows "0 \<le> fst (SamplePaddingLen pf r)"
proof (cases "0 < totalWeight pf")
  case True
  from SamplePaddingLen_bucket [OF assms True, of r] obtain b where
    b: "b \<in> set (PadBuckets pf)" "sample_of b (fst (SamplePaddingLen pf r))" by blast
  moreover have "1 \<le> pb_Min b" using assms b(1) by (auto simp: wf_factory_def list_all_iff wf_bucket_def)
  ultimately show ?thesis by (auto simp: sample_of_def split: if_splits)
qed (simp add: SamplePaddingLen_def)

lemma find_member: "find P xs = Some x \<Longrightarrow> x \<in> set xs \<and> P x"
  by (induction xs) (auto split: if_splits)

lemma authPacket_parts:
  assumes "authPacket packetSize pw pf r = Some (pkt, r')" "wf_factory pf" "length pw = 32" "packetSize \<le> 65535"
  shows "\<exists>filler. pkt = pw @ putUint16 (word_of_nat (length filler)) @ filler \<and> length filler \<le> 65535 \<and> length pkt \<le> packetSize"
proof -
  obtain n r1 where s: "SamplePaddingLen pf r = (n, r1)" by fastforce
  have n0: "0 \<le> n" using SamplePaddingLen_nonneg [OF assms(2), of r] s by simp
  define filler where "filler = (if n = 0 then [] else fst (FillRandom (nat n) r1))"
  have len: "length filler = nat n" by (simp add: filler_def)
  let ?b = "pw @ putUint16 (word_of_int n)"
  have "authPacket packetSize pw pf r = (if length ?b > packetSize \<or> int (length ?b) + n > int packetSize then None
      else Some (?b @ filler, if n = 0 then r1 else snd (FillRandom (nat n) r1)))"
    using s n0 by (simp add: authPacket_def filler_def split_beta Let_def)
  then have fits: "int (length ?b) + n \<le> int packetSize" and pkt: "pkt = ?b @ filler"
    using assms(1) by (simp_all split: if_splits)
  have w: "word_of_nat (length filler) = (word_of_int n :: u16)" using n0 len by simp
  have "length ?b = 34" using assms(3) by simp
  then have "length pkt \<le> packetSize" "length filler \<le> 65535" using fits assms(4) len n0 unfolding pkt by simp_all
  moreover have "pkt = pw @ putUint16 (word_of_nat (length filler)) @ filler" unfolding w pkt by simp
  ultimately show ?thesis by blast
qed

text \<open>A connection with a known password and a complete padding, whatever the first read holds beyond.\<close>

lemma NewConnection_known:
  assumes "reads = (pw @ putUint16 (word_of_nat (length filler)) @ filler @ xs) # cs" "length pw = 32" "length filler \<le> 65535"
    and "length (pw @ putUint16 (word_of_nat (length filler) :: u16) @ filler) \<le> packetSize" "map_of (sv_users s) pw = Some user"
  shows "NewConnection packetSize reads s =
    (if sv_migReg s = None then (ServeSession user (xs @ concat cs), s)
     else let (v, reg) = MaybeAcceptCarrier (xs @ concat cs) (sv_migReg s); s = s\<lparr>sv_migReg := reg\<rparr>
          in (case v of
                CarrierErr e \<Rightarrow> (ServeErr e, s)
              | NotCarrier conn \<Rightarrow> (ServeSession user conn, s)
              | CarrierDropped \<Rightarrow> (ServeHandled, s)
              | CarrierAttached sm conn \<Rightarrow> (ServeCarrier sm conn, s)))"
proof -
  let ?len = "putUint16 (word_of_nat (length filler) :: u16)"
  define k where "k = packetSize - length (pw @ ?len @ filler)"
  define b3 where "b3 = take k xs"
  define rest where "rest = drop k xs @ concat cs"
  have all: "b3 @ rest = xs @ concat cs" by (simp add: b3_def rest_def)
  have "readOnce packetSize reads = Inr (pw @ ?len @ filler @ b3, rest)"
    using assms(1,4) by (simp add: readOnce_def b3_def rest_def k_def)
  moreover have "readBytes 32 (pw @ ?len @ filler @ b3) = Some (pw, ?len @ filler @ b3)"
    using assms(2) by (simp add: readBytes_def)
  moreover have "readBytes 2 (?len @ filler @ b3) = Some (?len, filler @ b3)" by (simp add: readBytes_def)
  moreover have "unat (getUint16 (?len ! 0) (?len ! 1)) = length filler"
    using getUint16_len [OF assms(3)] by (simp add: putUint16_def)
  moreover have "readBytes (length filler) (filler @ b3) = Some (filler, b3)"
    by (simp add: readBytes_def)
  ultimately show ?thesis using assms(5) all by (simp add: NewConnection_def Let_def)
qed

lemma not_carrier_rewound:
  assumes "7 \<le> length conn" "conn ! 0 \<noteq> cmdMigrateCarrier"
  shows "MaybeAcceptCarrier conn reg = (NotCarrier conn, reg)"
  using assms by (simp add: MaybeAcceptCarrier_def ReadFull_def Cmd_def)

text \<open>
  Property C11.  A client with a configured password gets through: whatever padding its scheme samples,
  when its authentication packet arrives in one read (with any bytes behind it), the service recognises
  the user and starts a session on exactly the bytes that follow the packet, unless they open a carrier.
  SHA-256 enters only through the length of its digests and the absence of a collision between the
  passwords of users with different names.
\<close>

theorem authenticated_connection_served:
  assumes "\<forall>x. length (sha256 x) = 32" "NewService sha256 md5 env cfg = Inr s" "user \<in> set (cf_Users cfg)"
    and "\<forall>u \<in> set (cf_Users cfg). passwordSha256 sha256 (us_Password u) = passwordSha256 sha256 (us_Password user)
          \<longrightarrow> us_Name u = us_Name user"
    and "wf_factory pf" "packetSize \<le> 65535"
    and "authPacket packetSize (passwordSha256 sha256 (us_Password user)) pf r = Some (pkt, r')"
    and "7 \<le> length (xs @ concat cs)" "(xs @ concat cs) ! 0 \<noteq> cmdMigrateCarrier"
  shows "fst (NewConnection packetSize ((pkt @ xs) # cs) s) = ServeSession (us_Name user) (xs @ concat cs)"
proof -
  let ?pw = "passwordSha256 sha256 (us_Password user)"
  have pw: "length ?pw = 32" using assms(1) by (simp add: passwordSha256_def)
  from authPacket_parts [OF assms(7,5) pw assms(6)] obtain filler where
    f: "pkt = ?pw @ putUint16 (word_of_nat (length filler)) @ filler" "length filler \<le> 65535" "length pkt \<le> packetSize" by blast
  have known: "map_of (sv_users s) ?pw = Some (us_Name user)"
  proof -
    from assms(3) obtain u where u: "find (\<lambda>u. passwordSha256 sha256 (us_Password u) = ?pw) (rev (cf_Users cfg)) = Some u"
      by (cases "find (\<lambda>u. passwordSha256 sha256 (us_Password u) = ?pw) (rev (cf_Users cfg))") (auto simp: find_None_iff)
    then have "us_Name u = us_Name user" using assms(4) find_member [OF u] by simp
    with u show ?thesis using NewService_fields(1) [OF assms(2)] by (simp add: map_of_buildUserMap)
  qed
  have fits: "length (?pw @ putUint16 (word_of_nat (length filler) :: u16) @ filler) \<le> packetSize" using f(1,3) by simp
  have reads: "(pkt @ xs) # cs = (?pw @ putUint16 (word_of_nat (length filler)) @ filler @ xs) # cs" using f(1) by simp
  have "NewConnection packetSize ((pkt @ xs) # cs) s =
    (if sv_migReg s = None then (ServeSession (us_Name user) (xs @ concat cs), s)
     else (ServeSession (us_Name user) (xs @ concat cs), s\<lparr>sv_migReg := sv_migReg s\<rparr>))"
    unfolding NewConnection_known [OF reads pw f(2) fits known] not_carrier_rewound [OF assms(8,9)] by simp
  then show ?thesis by simp
qed

text \<open>\<open>b\<close> begins with the digest, a padding length and at least so many bytes.\<close>

definition opens_with :: "bytes \<Rightarrow> bytes \<Rightarrow> bool" where
  "opens_with pw b \<longleftrightarrow> (\<exists>filler xs. b = pw @ putUint16 (word_of_nat (length filler)) @ filler @ xs \<and> length filler \<le> 65535)"

lemma opens_withI:
  assumes "\<not> length b < 32" "\<not> length (drop 32 b) < 2"
    and "\<not> length (drop 2 (drop 32 b)) < unat (getUint16 (drop 32 b ! 0) (drop 32 b ! 1))"
  shows "opens_with (take 32 b) b"
proof -
  let ?g = "getUint16 (drop 32 b ! 0) (drop 32 b ! 1)"
  define filler where "filler = take (unat ?g) (drop 2 (drop 32 b))"
  have len: "length filler = unat ?g" using assms(3) by (simp add: filler_def)
  obtain x y z where d: "drop 32 b = x # y # z" using assms(2) by (metis One_nat_def Suc_1 length_Suc_conv length_greater_0_conv less_Suc_eq list.size(3) not_less_eq neq_Nil_conv)
  then have "take 2 (drop 32 b) = putUint16 (word_of_nat (length filler))"
    unfolding len by (simp add: putUint16_getUint16)
  moreover have "b = take 32 b @ take 2 (drop 32 b) @ filler @ drop (unat ?g) (drop 2 (drop 32 b))"
    by (simp add: filler_def del: drop_drop)
  moreover have "unat ?g < 2 ^ LENGTH(16)" by (rule unsigned_less)
  then have "length filler \<le> 65535" unfolding len by simp
  ultimately show ?thesis unfolding opens_with_def by metis
qed

text \<open>
  Property C31.  Everybody else is indistinguishable from a stranger: whenever the first read does not
  begin with the digest of a configured password, followed by a complete padding, the fallback handler
  (if there is one) gets a connection that delivers every byte from the start, in order, and the service
  is unchanged; without a fallback the connection is refused.
\<close>

theorem stranger_reaches_fallback:
  assumes "NewService sha256 md5 env cfg = Inr s" "\<forall>x. length (sha256 x) = 32"
    and "NewConnection packetSize (c # cs) s = (v, s')"
    and "\<not> (\<exists>u \<in> set (cf_Users cfg). opens_with (passwordSha256 sha256 (us_Password u)) (take packetSize c))"
  shows "s' = s \<and> (if cf_FallbackHandler cfg then v = ServeFallback (concat (c # cs)) else (\<exists>e. v = ServeErr e))"
proof -
  let ?b = "take packetSize c" and ?rest = "drop packetSize c @ concat cs"
  have fb: "s' = s \<and> (if cf_FallbackHandler cfg then v = ServeFallback (concat (c # cs)) else (\<exists>e. v = ServeErr e))"
    if "NewConnection packetSize (c # cs) s = (fallback s (?b @ ?rest) err, s)" for err
    using that assms(3) NewService_fields(2) [OF assms(1)] by (auto simp: fallback_def)
  have ro: "readOnce packetSize (c # cs) = Inr (?b, ?rest)" by (simp add: readOnce_def)
  show ?thesis
  proof (cases "map_of (sv_users s) (take 32 ?b)")
    case None
    then show ?thesis using ro by (intro fb [of "if length ?b < 32 then ''EOF'' else ''unknown user password''"])
      (simp add: NewConnection_def readBytes_def del: take_take)
  next
    case (Some user)
    then obtain u where "find (\<lambda>u. passwordSha256 sha256 (us_Password u) = take 32 ?b) (rev (cf_Users cfg)) = Some u"
      using NewService_fields(1) [OF assms(1)] by (auto simp: map_of_buildUserMap)
    then have u: "u \<in> set (cf_Users cfg)" "passwordSha256 sha256 (us_Password u) = take 32 ?b"
      using find_member by fastforce+
    then have "length (take 32 ?b) = 32" using assms(2) by (metis passwordSha256_def)
    then have l32: "\<not> length ?b < 32" by simp
    have no: "\<not> opens_with (take 32 ?b) ?b" using assms(4) u by metis
    let ?b1 = "drop 32 ?b"
    show ?thesis
    proof (cases "length ?b1 < 2")
      case True
      then show ?thesis using ro Some l32 by (intro fb [of "''read padding length''"])
        (simp add: NewConnection_def readBytes_def)
    next
      case False
      define n where "n = unat (getUint16 (?b1 ! 0) (?b1 ! 1))"
      have "length (drop 2 ?b1) < n"
      proof (rule ccontr)
        assume "\<not> length (drop 2 ?b1) < n"
        with opens_withI [OF l32 False] no show False by (simp add: n_def)
      qed
      with ro Some l32 False show ?thesis by (intro fb [of "''read padding''"])
        (simp add: NewConnection_def readBytes_def n_def Let_def)
    qed
  qed
qed

section \<open>Examples\<close>

definition sample_sha :: "bytes \<Rightarrow> bytes" where
  "sample_sha b = take 32 (b @ replicate 32 0)"

definition sample_user :: User where
  "sample_user = \<lparr>us_Name = ''bob'', us_Password = ''pw''\<rparr>"

definition sample_config :: ServiceConfig where
  "sample_config = \<lparr>cf_PaddingScheme = bytes_of ''k=v'', cf_Users = [sample_user],
     cf_Handler = True, cf_FallbackHandler = True, cf_Logger = True, cf_EnableMigration = None,
     cf_MigrationMinBulkBytes = 0, cf_MigrationTLSOnly = None\<rparr>"

lemma sample_sha_length: "\<forall>x. length (sample_sha x) = 32"
  by (simp add: sample_sha_def min_def)

lemma sample_service: "\<exists>s :: nat Service. NewService sample_sha (\<lambda>_. []) False sample_config = Inr s"
proof -
  have "length (StringMapFromBytes (bytes_of ''k=v'')) \<noteq> 0"
    by (simp add: StringMapFromBytes_def splitN2_def)
  then obtain p where "NewPaddingFactory (\<lambda>_. []) (bytes_of ''k=v'') = Some p"
    by (auto simp: NewPaddingFactory_def Let_def)
  then show ?thesis by (simp add: NewService_def sample_config_def Let_def)
qed

lemma sample_packet:
  "\<exists>pkt r. authPacket 16384 (passwordSha256 sample_sha (us_Password sample_user)) sample_factory [] = Some (pkt, r)"
proof -
  have "SamplePaddingLen sample_factory [] = (35, [])"
    by (simp add: SamplePaddingLen_def sample_factory_def FastIntn_def randIntN_def paddingBucket_def)
  then show ?thesis
    using sample_sha_length by (simp add: authPacket_def passwordSha256_def Let_def split: prod.split)
qed

theorem authenticated_connection_served_witness:
  "\<exists>(s :: nat Service) pkt. NewService sample_sha (\<lambda>_. []) False sample_config = Inr s
     \<and> fst (NewConnection 16384 ((pkt @ [4, 0, 0, 0, 0, 0, 0]) # []) s) = ServeSession ''bob'' [4, 0, 0, 0, 0, 0, 0]"
proof -
  obtain s :: "nat Service" where s: "NewService sample_sha (\<lambda>_. []) False sample_config = Inr s" using sample_service by blast
  obtain pkt r where p: "authPacket 16384 (passwordSha256 sample_sha (us_Password sample_user)) sample_factory [] = Some (pkt, r)"
    using sample_packet by blast
  have u: "sample_user \<in> set (cf_Users sample_config)" "us_Name sample_user = ''bob''"
    "\<forall>u \<in> set (cf_Users sample_config). passwordSha256 sample_sha (us_Password u) = passwordSha256 sample_sha (us_Password sample_user)
       \<longrightarrow> us_Name u = us_Name sample_user"
    by (simp_all add: sample_config_def sample_user_def)
  from authenticated_connection_served [OF sample_sha_length s u(1,3) sample_factory_wf _ p, of "[4, 0, 0, 0, 0, 0, 0]" "[]"] s u(2)
  show ?thesis by auto
qed

theorem stranger_reaches_fallback_witness:
  "\<exists>s :: nat Service. NewService sample_sha (\<lambda>_. []) False sample_config = Inr s
     \<and> NewConnection 16384 [[71, 69, 84]] s = (ServeFallback [71, 69, 84], s)"
proof -
  obtain s :: "nat Service" where s: "NewService sample_sha (\<lambda>_. []) False sample_config = Inr s" using sample_service by blast
  obtain v s' where n: "NewConnection 16384 [[71, 69, 84]] s = (v, s')" by fastforce
  have "\<not> opens_with pw (take 16384 [71, 69, 84])" if "length pw = 32" for pw
    using that by (auto simp: opens_with_def dest!: arg_cong [of _ _ length])
  then have no: "\<not> (\<exists>u \<in> set (cf_Users sample_config). opens_with (passwordSha256 sample_sha (us_Password u)) (take 16384 [71, 69, 84]))"
    using sample_sha_length by (simp add: passwordSha256_def)
  from stranger_reaches_fallback [OF s sample_sha_length n no] s n show ?thesis by (auto simp: sample_config_def)
qed

end
