(* ===== verification/Proxy.thy ===== *)
theory Proxy
  imports Pool_Sample Service
begin

text \<open>
  \<open>client.go\<close>: the public client.  It sets up the padding scheme and the pool, opens a stream per
  proxied connection and writes the destination to it.  The address serialiser of the \<open>sing\<close> library is
  a parameter: \<open>serialise dest\<close> lists the writes it makes.  They come before any rail-switch of the
  stream, so they take the plain path of \<open>Stream.Write\<close>.
\<close>

section \<open>The client\<close>

record ClientConfig =
  cc_Password :: string
  cc_IdleSessionCheckInterval :: duration
  cc_IdleSessionTimeout :: duration
  cc_MinIdleSession :: int
  cc_MaxSession :: int
  cc_HeartbeatInterval :: duration
  cc_HeartbeatQuietWindow :: duration
  cc_HeartbeatTimeout :: duration
  cc_EnableMigration :: "bool option"

text \<open>The padding both the pool and \<open>createOutboundConnection\<close> read is \<open>cl_padding\<close> of the pool.\<close>

record ProxyClient =
  pc_passwordSha256 :: bytes
  pc_sessionClient :: Client

definition newProxyClient ::
    "(bytes \<Rightarrow> string) \<Rightarrow> (bytes \<Rightarrow> bytes) \<Rightarrow> bool \<Rightarrow> PaddingFactory \<Rightarrow> ClientConfig \<Rightarrow> int \<Rightarrow> rand \<Rightarrow> ProxyClient" where
  "newProxyClient md5 sha256 migrationEnvDefault noPadding config now r =
     (let pf = snd (UpdatePaddingScheme md5 DefaultPaddingScheme noPadding);
          c = snd (NewClient pf (cc_IdleSessionCheckInterval config) (cc_IdleSessionTimeout config) (cc_MinIdleSession config)
                (cc_MaxSession config) (cc_HeartbeatInterval config) (cc_HeartbeatQuietWindow config)
                (cc_HeartbeatTimeout config) now r);
          migEnabled = (cc_EnableMigration config = None \<or> the (cc_EnableMigration config))
      in \<lparr>pc_passwordSha256 = passwordSha256 sha256 (cc_Password config),
          pc_sessionClient = SetMigrationEnabled (migEnabled \<or> migrationEnvDefault) c\<rparr>)"

text \<open>The writes of the serialiser on stream \<open>i\<close> of session \<open>k\<close>, up to the first error.\<close>

primrec writeAll :: "nat \<Rightarrow> nat \<Rightarrow> bytes list \<Rightarrow> Client \<Rightarrow> (go_error option \<times> Client) option" where
  "writeAll k i [] c = Some (None, c)"
| "writeAll k i (b # bs) c = do {
     let ((_, err), s) = streamWrite i False b (sess c k);
     c \<leftarrow> sessionMoved k s c;
     case err of
       Some e \<Rightarrow> Some (Some e, c)
     | None \<Rightarrow> writeAll k i bs c }"

text \<open>\<open>dialled\<close> is the outcome of \<open>createOutboundConnection\<close>, should the pool call it.\<close>

definition CreateProxy ::
    "('d \<Rightarrow> bytes list) \<Rightarrow> ((u64 \<times> nat) list \<Rightarrow> (u64 \<times> nat) list) \<Rightarrow> go_error + conn \<Rightarrow> 'd \<Rightarrow> Client
      \<Rightarrow> ((go_error + nat \<times> nat) \<times> Client) option" where
  "CreateProxy serialise order dialled dest c = do {
     (res, c) \<leftarrow> CreateStream order dialled c;
     case res of
       Inl e \<Rightarrow> Some (Inl e, c)
     | Inr (k, i) \<Rightarrow> do {
         (err, c) \<leftarrow> writeAll k i (serialise dest) c;
         case err of
           None \<Rightarrow> Some (Inr (k, i), c)
         | Some e \<Rightarrow> do {
             c \<leftarrow> sessionMoved k (snd (streamClose i (sess c k))) c;
             Some (Inl e, c) } } }"

definition proxyReset :: "ProxyClient \<Rightarrow> ProxyClient option" where
  "proxyReset h = do { c \<leftarrow> Reset (pc_sessionClient h); Some (h\<lparr>pc_sessionClient := c\<rparr>) }"

definition proxyClose :: "ProxyClient \<Rightarrow> ProxyClient option" where
  "proxyClose h = do { c \<leftarrow> poolClose (pc_sessionClient h); Some (h\<lparr>pc_sessionClient := c\<rparr>) }"

text \<open>A new client speaks the built-in padding scheme, whatever was there before.\<close>

lemma newProxyClient_padding:
  "RecordConfig (cl_padding (pc_sessionClient (newProxyClient md5 sha256 env np config now r))) = DefaultRecordShaperConfig"
proof -
  obtain p where "NewPaddingFactory md5 DefaultPaddingScheme = Some p" "RecordConfig p = DefaultRecordShaperConfig"
    using default_scheme_parsed by blast
  then show ?thesis
    by (simp add: newProxyClient_def UpdatePaddingScheme_def SetMigrationEnabled_def NewClient_def Let_def)
qed

section \<open>Stream operations leave the counter alone\<close>

lemma active_sendPSH: "ss_activeStreams (snd (sendPSH sid chunk s)) = ss_activeStreams s"
  by (simp add: sendPSH_def Let_def split_beta)

lemma active_writeDataLoop: "ss_activeStreams (snd (writeDataLoop sid data written s)) = ss_activeStreams s"
proof (induction sid data written s rule: writeDataLoop.induct)
  case (1 sid data written s)
  show ?case
  proof (cases "data = []")
    case False
    define chunk where "chunk = (if length data > h2MaxFramePayload then take h2MaxFramePayload data else data)"
    obtain err s1 where s1: "sendPSH sid chunk s = (err, s1)" by fastforce
    have "writeDataLoop sid data written s = (if err \<noteq> None then ((written, err), s1)
        else writeDataLoop sid (drop (length chunk) data) (written + length chunk) s1)"
      using s1 unfolding chunk_def by (subst writeDataLoop.simps) (simp only: False Let_def if_False split)
    with "1.IH" [OF False chunk_def s1 [symmetric]] active_sendPSH[of sid chunk s] s1 show ?thesis by auto
  qed (simp add: writeDataLoop.simps [of sid "[]"])
qed

lemma active_splitLoop: "ss_activeStreams (snd (splitLoop k sid data offset written s)) = ss_activeStreams s"
proof (induction k arbitrary: offset written s)
  case (Suc k)
  then show ?case unfolding splitLoop.simps(2) Let_def split_beta by (simp add: active_sendPSH)
qed simp

lemma active_streamWrite: "ss_activeStreams (snd (streamWrite i expired b s)) = ss_activeStreams s"
proof -
  have "ss_activeStreams (snd (writeDataFrameShaped sid b early t)) = ss_activeStreams t" for sid early t
    using active_writeDataLoop [of sid b 0 t]
    by (simp add: writeDataFrameShaped_def writeDataFrame_def writeDataFrameSplit_def active_splitLoop Let_def split_beta
        split: option.split)
  then show ?thesis by (simp add: streamWrite_def Let_def split: option.split)
qed

lemma active_streamClose: "ss_activeStreams (snd (streamClose i s)) = ss_activeStreams s"
  by (simp add: streamClose_def closeWithError_def streamClosed_def Let_def split_beta)

section \<open>A proxied connection\<close>

lemma reachable_move:
  assumes c: "pool_reachable md5 c" "openedStream c (k, i)"
    and s: "sess_step md5 (sess c k) s" "ss_activeStreams s = ss_activeStreams (sess c k)"
  shows "\<exists>d. sessionMoved k s c = Some d \<and> pool_reachable md5 d \<and> openedStream d (k, i) \<and> ss_objs (sess d k) = ss_objs s"
proof -
  obtain xs where xs: "pool_inv c xs" and n: "length (cl_objs c) < 2 ^ 38" using c(1) by (rule pool_reachableE)
  have k: "k < length (cl_objs c)" "i \<in> set (ps_opened (cl_objs c ! k))" using c(2) by (simp_all add: openedStream_def)
  have "session_inv (sess c k)" using xs k(1) by (simp add: pool_inv_def pooled_ok_def)
  then have "ready k s (ps_opened (cl_objs c ! k)) c xs"
    using s by (intro pool_inv_ready[OF xs k(1)]) (simp_all add: grows_step sess_step_inv[OF s(1)])
  from sessionMoved_runs[OF this n] obtain d where
    d: "sessionMoved k s c = Some d" "sameObjs (updPooled k (\<lambda>p. p\<lparr>ps_session := s\<rparr>) c) d" by (auto simp: runs_def)
  have "s\<lparr>ss_activeStreams := ss_activeStreams (sess c k)\<rparr> = s" using s(2) by simp
  then have "pool_step md5 c d" using step_session[OF k(1) s(1)] d(1) by simp
  then have "pool_reachable md5 d" by (rule reach_more[OF c(1)])
  moreover have "ss_objs (sess d k) = ss_objs s" "openedStream d (k, i)"
    using sameObjs_sess(3,4)[OF d(2), of k] d(2) k by (simp_all add: openedStream_def sameObjs_def)
  ultimately show ?thesis using d(1) by blast
qed

lemma opened_in_range:
  assumes "pool_reachable md5 c" "openedStream c (k, i)"
  shows "i < length (ss_objs (sess c k))" "session_inv (sess c k)"
proof -
  obtain xs where "pool_inv c xs" using assms(1) by (rule pool_reachableE)
  with assms(2) show "i < length (ss_objs (sess c k))" "session_inv (sess c k)"
    by (auto simp: pool_inv_def pooled_ok_def openedStream_def)
qed

lemma writeAll_returns:
  assumes "pool_reachable md5 c" "openedStream c (k, i)"
  shows "\<exists>err d. writeAll k i bs c = Some (err, d) \<and> pool_reachable md5 d \<and> openedStream d (k, i)"
  using assms
proof (induction bs arbitrary: c)
  case (Cons b bs)
  obtain n err s where w: "streamWrite i False b (sess c k) = ((n, err), s)" by (metis prod.collapse)
  have "sess_step md5 (sess c k) s" "ss_activeStreams s = ss_activeStreams (sess c k)"
    using step_write[OF opened_in_range(1)[OF Cons.prems], of md5 False b] active_streamWrite[of i False b "sess c k"] w by simp_all
  from reachable_move[OF Cons.prems this] obtain d where d: "sessionMoved k s c = Some d" "pool_reachable md5 d" "openedStream d (k, i)"
    by blast
  show ?case
  proof (cases err)
    case None
    with Cons.IH[OF d(2,3)] w d(1) show ?thesis by simp
  qed (use w d in simp)
qed simp

lemma closed_stream_dead:
  assumes "session_inv s" "i < length (ss_objs s)"
  shows "st_dieErr (ss_objs (snd (streamClose i s)) ! i) \<noteq> None"
proof (cases "st_dieErr (ss_objs s ! i)")
  case None
  define t where "t = snd (dieStream i ErrClosedPipe s)"
  have "EvStreamDied i \<in> set (ss_trace t)" by (simp add: t_def dieStream_def None emit_def Let_def)
  moreover have e: "snd (streamClose i s) = snd (streamClosed (st_id (ss_objs t ! i)) t)"
    by (simp add: streamClose_def closeWithError_def t_def dieStream_def None Let_def)
  moreover have "grows t (snd (streamClosed (st_id (ss_objs t ! i)) t))"
    by (simp add: streamClosed_def Let_def split_beta grows_ops)
  ultimately have "EvStreamDied i \<in> set (ss_trace (snd (streamClose i s)))"
    unfolding e grows_def by (auto dest: set_mono_prefix)
  moreover have "session_inv (snd (streamClose i s))"
    using closeWithError_inv[OF assms(1)] assms(2) by (simp add: streamClose_def)
  ultimately have "dead (ss_objs (snd (streamClose i s))) i"
    unfolding session_inv_def inv_except_def hooks_once_def by (metis count_list_0_iff)
  then show ?thesis by (simp add: dead_def)
qed (simp add: streamClose_def closeWithError_def dieStream_def)

text \<open>
  Property C29.  \<open>CreateProxy\<close> always returns and leaves a reachable pool: either with a stream of the pool, or
  with an error, and then a stream that was opened but could not take the destination has been closed.
\<close>

theorem proxy_stream_or_closed:
  assumes "pool_reachable md5 c" "length (cl_objs c) + 1 < 2 ^ 38" "\<And>es. set (order es) = set es"
    and "\<forall>u. dialled = Inr u \<longrightarrow> \<not> c_closed u"
  shows "\<exists>res d. CreateProxy serialise order dialled dest c = Some (res, d) \<and> pool_reachable md5 d \<and>
    (\<forall>k i. res = Inr (k, i) \<longrightarrow> i \<in> set (ps_opened (cl_objs d ! k))) \<and>
    (\<forall>e k i c'. res = Inl e \<longrightarrow> CreateStream order dialled c = Some (Inr (k, i), c') \<longrightarrow>
       st_dieErr (ss_objs (sess d k) ! i) \<noteq> None)"
proof -
  obtain xs where "pool_inv c xs" using assms(1) by (rule pool_reachableE)
  then have "wellWith (length (cl_objs c)) c" by (auto simp: wellWith_def)
  from CreateStream_well[OF this assms(2-4)] obtain res c1 where
    c1: "CreateStream order dialled c = Some (res, c1)" "\<And>k i. res = Inr (k, i) \<Longrightarrow> openedStream c1 (k, i)"
    by (auto simp: runs_def)
  have r1: "pool_reachable md5 c1" by (rule reach_more[OF assms(1) step_create[OF assms(3,4,2) c1(1)]])
  show ?thesis
  proof (cases res)
    case (Inl e)
    with c1(1) r1 show ?thesis by (simp add: CreateProxy_def)
  next
    case (Inr st)
    obtain k i where st: "st = (k, i)" by (cases st)
    from writeAll_returns[OF r1, of k i] c1(2) Inr st obtain err c2 where
      c2: "writeAll k i (serialise dest) c1 = Some (err, c2)" "pool_reachable md5 c2" "openedStream c2 (k, i)" by blast
    show ?thesis
    proof (cases err)
      case None
      with c1(1) c2 Inr st show ?thesis by (simp add: CreateProxy_def openedStream_def)
    next
      case (Some e)
      note i = opened_in_range[OF c2(2,3)]
      have "sess_step md5 (sess c2 k) (snd (streamClose i (sess c2 k)))" by (rule step_close_stream[OF i(1)])
      from reachable_move[OF c2(2,3) this active_streamClose] obtain d where
        d: "sessionMoved k (snd (streamClose i (sess c2 k))) c2 = Some d" "pool_reachable md5 d"
          "ss_objs (sess d k) = ss_objs (snd (streamClose i (sess c2 k)))" by blast
      from d(3) closed_stream_dead[OF i(2,1)] have "st_dieErr (ss_objs (sess d k) ! i) \<noteq> None" by simp
      with d(1,2) c1(1) c2(1) Inr st Some show ?thesis by (simp add: CreateProxy_def)
    qed
  qed
qed

theorem proxy_stream_or_closed_witness:
  "\<exists>res d. CreateProxy (\<lambda>port. [[1, 127, 0, 0, 1], port]) rev (Inr (quietConn [])) [31, 144] pool_busy = Some (res, d)
    \<and> pool_reachable (\<lambda>_. []) d"
proof -
  have "length (cl_objs pool_busy) + 1 < 2 ^ 38" "\<forall>u. Inr (quietConn []) = Inr u \<longrightarrow> \<not> c_closed u"
    by (simp_all add: pool_busy_def quietConn_def)
  from proxy_stream_or_closed[OF pool_busy_reachable[of "\<lambda>_. []"] this(1) _ this(2), where order = rev and dest = "[31, 144]"
      and serialise = "\<lambda>port. [[1, 127, 0, 0, 1], port]"]
  show ?thesis by auto
qed

end
