(* ===== verification/Pool_Threads.thy ===== *)
theory Pool_Threads
  imports Pool_Life
begin

text \<open>
  The pool under concurrency.  In \<open>Pool\<close> an operation of the pool is one function; here it is a thread
  that runs from one shared access to the next: a section under \<open>idleSessionLock\<close> or \<open>sessionsLock\<close>, one
  atomic access to a stream counter, one check of the die context, one operation of a session.  Between
  two steps of a thread every other thread, the sessions and the clock may move.  The steps reuse the
  definitions of \<open>Pool\<close> for the sections; \<open>Close\<close>, \<open>Reset\<close>, the cleanup, the die hooks and every
  \<open>CreateStream\<close> are threads.
\<close>

section \<open>Threads\<close>

text \<open>Which of the three calls of \<open>openOn\<close> in \<open>CreateStream\<close>.\<close>

datatype attempt = OnIdle | OnReused | OnFresh

text \<open>A thread is named by what it does next.\<close>

datatype thread =
    Creating
  | Taking
  | Bumping attempt nat
  | Opening attempt nat
  | Failed attempt nat "nat option"
  | RollingBack attempt nat
  | GaveUp attempt nat
  | Counting
  | Choosing
  | Dialling
  | Registering nat
  | Starting nat
  | Answered "go_error + nat \<times> nat"
  | StreamEnded nat
  | Judging nat
  | Pooling nat
  | Putting nat
  | SessionEnded nat
  | Unlisting nat
  | Closing "nat list"
  | Sweeping
  | SweepingUntil int
  | SweptClosing "nat list"
  | ShuttingDown
  | Emptying
  | Resetting
  | Draining
  | Snapshotting "nat list"
  | Expiring "nat list" "nat list"

text \<open>
  What a step finds outside: the order of the map, the outcome of a dial, and how recent the flags of a
  session are that a die hook reads.  A hook runs inside the session operation that fires it; as that
  operation is one step of the session, the hook may see a flag before the operation raises it.
\<close>

record world =
  w_order :: "(u64 \<times> nat) list \<Rightarrow> (u64 \<times> nat) list"
  w_dialled :: "go_error + conn"
  w_seesClosed :: bool
  w_seesBroken :: bool

definition world_ok :: "world \<Rightarrow> bool" where
  "world_ok w \<longleftrightarrow> (\<forall>es. set (w_order w es) = set es) \<and> (\<forall>u. w_dialled w = Inr u \<longrightarrow> \<not> c_closed u)"

section \<open>Sessions that move\<close>

text \<open>The die hooks that events of session \<open>k\<close> start.\<close>

definition hookOf :: "nat \<Rightarrow> nat list \<Rightarrow> event \<Rightarrow> thread list" where
  "hookOf k opened e =
     (if e = EvSessionDied then [SessionEnded k]
      else if e \<in> EvStreamDied ` set opened then [StreamEnded k] else [])"

definition moveTo :: "nat \<Rightarrow> Session \<Rightarrow> Client \<Rightarrow> thread list \<times> Client" where
  "moveTo k s c =
     (concat (map (hookOf k (ps_opened (cl_objs c ! k))) (newEvents (sess c k) s)),
      updPooled k (\<lambda>p. p\<lparr>ps_session := s\<rparr>) c)"

definition closeOne :: "nat \<Rightarrow> Client \<Rightarrow> thread list \<times> Client" where
  "closeOne k c = moveTo k (snd (Close (sess c k))) c"

text \<open>\<open>openOn\<close> between its two accesses to the counter.\<close>

definition openStep :: "attempt \<Rightarrow> nat \<Rightarrow> Client \<Rightarrow> thread list \<times> Client" where
  "openStep a k c =
     (let ((i, err), s) = OpenStream (sess c k);
          c = updPooled k (\<lambda>p. p\<lparr>ps_opened := ps_opened p @ (case i of None \<Rightarrow> [] | Some i \<Rightarrow> [i])\<rparr>) c;
          (hooks, c) = moveTo k s c
      in ((case err of None \<Rightarrow> Answered (Inr (k, the i)) | Some e \<Rightarrow> Failed a k i) # hooks, c))"

text \<open>What follows an \<open>openOn\<close> that has answered an error.\<close>

definition giveUp :: "attempt \<Rightarrow> nat \<Rightarrow> Client \<Rightarrow> thread list \<times> Client" where
  "giveUp a k c =
     (case a of
        OnReused \<Rightarrow> ([Dialling], c)
      | OnIdle \<Rightarrow> apfst ((#) Counting) (closeOne k c)
      | OnFresh \<Rightarrow> apfst ((#) (Answered (Inl (OtherError ''failed to create stream'')))) (closeOne k c))"

text \<open>\<open>createSession\<close> up to the registration.\<close>

definition addDialled :: "conn \<Rightarrow> Client \<Rightarrow> Client" where
  "addDialled u c =
     (let session = (NewClientSession u (cl_padding c) (cl_now c) (cl_rand c))\<lparr>ss_migActive := cl_migEnabled c\<rparr>;
          seq = cl_sessionCounter c + 1
      in c\<lparr>cl_sessionCounter := seq,
           cl_objs := cl_objs c @ [\<lparr>ps_session = session, ps_seq = seq, ps_idleSince = 0, ps_opened = []\<rparr>]\<rparr>)"

text \<open>A hook has found no stream left.\<close>

definition judge :: "bool \<Rightarrow> bool \<Rightarrow> nat \<Rightarrow> Client \<Rightarrow> thread list \<times> Client" where
  "judge closed broken k c =
     (if \<not> closed \<and> \<not> broken then ([Pooling k], c)
      else if broken \<and> \<not> closed then ([], spawnClose k c)
      else ([], c))"

section \<open>Steps\<close>

fun threadStep :: "world \<Rightarrow> thread \<Rightarrow> Client \<Rightarrow> (thread list \<times> Client) option" where
  "threadStep w Creating c = Some (if cl_die c then [Answered (Inl ErrClosedPipe)] else [Taking], c)"
| "threadStep w Taking c = do {
     (idle, c) \<leftarrow> getIdleSession c;
     Some ([case idle of None \<Rightarrow> Counting | Some k \<Rightarrow> Bumping OnIdle k], c) }"
| "threadStep w (Bumping a k) c = Some ([Opening a k], addActive k 1 c)"
| "threadStep w (Opening a k) c = Some (openStep a k c)"
| "threadStep w (Failed a k i) c =
     Some ([if i = None \<or> st_dieErr (ss_objs (sess c k) ! the i) = None then RollingBack a k else GaveUp a k], c)"
| "threadStep w (RollingBack a k) c = Some ([GaveUp a k], addActive k (- 1) c)"
| "threadStep w (GaveUp a k) c = Some (giveUp a k c)"
| "threadStep w Counting c =
     Some ([if cl_maxSession c > 0 \<and> activeSessionCount c \<ge> cl_maxSession c then Choosing else Dialling], c)"
| "threadStep w Choosing c =
     Some ([case leastLoadedSession (w_order w) c of None \<Rightarrow> Dialling | Some k \<Rightarrow> Bumping OnReused k], c)"
| "threadStep w Dialling c =
     Some (case w_dialled w of
             Inl e \<Rightarrow> ([Answered (Inl (OtherError ''failed to create session''))], c)
           | Inr u \<Rightarrow> ([Registering (length (cl_objs c))], addDialled u c))"
| "threadStep w (Registering k) c =
     Some ([Starting k], c\<lparr>cl_sessions := AList.update (ps_seq (cl_objs c ! k)) k (cl_sessions c)\<rparr>)"
| "threadStep w (Starting k) c = Some (apfst ((#) (Bumping OnFresh k)) (moveTo k (Run (sess c k)) c))"
| "threadStep w (Answered r) c = Some ([Answered r], c)"
| "threadStep w (StreamEnded k) c =
     (let c = addActive k (- 1) c in Some (if ss_activeStreams (sess c k) > 0 then [] else [Judging k], c))"
| "threadStep w (Judging k) c =
     Some (judge (w_seesClosed w \<and> IsClosed (sess c k)) (w_seesBroken w \<and> ss_connBroken (sess c k)) k c)"
| "threadStep w (Pooling k) c = Some (if cl_die c then ([], spawnClose k c) else ([Putting k], c))"
| "threadStep w (Putting k) c = do { c \<leftarrow> putIdle k c; Some ([], c) }"
| "threadStep w (SessionEnded k) c = do { c \<leftarrow> unIdle (idleKey k c) c; Some ([Unlisting k], c) }"
| "threadStep w (Unlisting k) c =
     Some ([], c\<lparr>cl_sessions := AList.delete (ps_seq (cl_objs c ! k)) (cl_sessions c)\<rparr>)"
| "threadStep w (Closing ks) c =
     Some (case ks of [] \<Rightarrow> ([], c) | k # ks \<Rightarrow> apfst ((#) (Closing ks)) (closeOne k c))"
| "threadStep w Sweeping c = Some ([SweepingUntil (cl_now c - cl_idleSessionTimeout c)], c)"
| "threadStep w (SweepingUntil expTime) c = do {
     it \<leftarrow> Iterate (cl_idleSession c);
     (toClose, c) \<leftarrow> cleanupLoop expTime 0 [] it c;
     Some ([SweptClosing toClose], c) }"
| "threadStep w (SweptClosing ks) c =
     Some (case ks of [] \<Rightarrow> (if cl_die c then [] else [Sweeping], c)
                    | k # ks \<Rightarrow> apfst ((#) (SweptClosing ks)) (closeOne k c))"
| "threadStep w ShuttingDown c = Some ([Emptying], c\<lparr>cl_die := True\<rparr>)"
| "threadStep w Emptying c = Some ([Closing (map snd (cl_sessions c))], c\<lparr>cl_sessions := []\<rparr>)"
| "threadStep w Resetting c = Some (if cl_die c then [] else [Draining], c)"
| "threadStep w Draining c = do {
     it \<leftarrow> Iterate (cl_idleSession c);
     idle \<leftarrow> drain (cl_idleSession c) it;
     Some ([Snapshotting (map snd idle)], c\<lparr>cl_idleSession := Clear (cl_idleSession c)\<rparr>) }"
| "threadStep w (Snapshotting ks) c =
     (let all = map snd (cl_sessions c) @ ks in Some ([Expiring all all], c))"
| "threadStep w (Expiring ks all) c =
     Some (case ks of [] \<Rightarrow> ([], c\<lparr>cl_closing := cl_closing c @ all\<rparr>)
                    | k # ks \<Rightarrow> ([Expiring ks all], updPooled k (pastDeadline (cl_now c)) c))"

text \<open>
  A session belongs to its creator alone until it is registered; from then on it may move by any of its
  own steps.  \<open>go session.Close()\<close> becomes a thread when it is scheduled.  \<open>Creating\<close>, \<open>ShuttingDown\<close> and
  \<open>Resetting\<close> are called by the user of the pool, at any time and any number of times; the cleanup runs
  from the start.
\<close>

type_synonym pool_sys = "Client \<times> thread list"

inductive system_step :: "(bytes \<Rightarrow> string) \<Rightarrow> pool_sys \<Rightarrow> pool_sys \<Rightarrow> bool" for md5 where
  run_thread: "world_ok w \<Longrightarrow> (t = Dialling \<Longrightarrow> length (cl_objs c) + 1 < 2 ^ 38) \<Longrightarrow>
    threadStep w t c = Some (ts', d) \<Longrightarrow> system_step md5 (c, us @ t # vs) (d, us @ ts' @ vs)"
| run_session: "k < length (cl_objs c) \<Longrightarrow> Registering k \<notin> set ts \<Longrightarrow> sess_step md5 (sess c k) s \<Longrightarrow>
    moveTo k (s\<lparr>ss_activeStreams := ss_activeStreams (sess c k)\<rparr>) c = (hooks, d) \<Longrightarrow>
    system_step md5 (c, ts) (d, ts @ hooks)"
| run_spawned: "cl_closing c = k # ks \<Longrightarrow>
    system_step md5 (c, ts) (c\<lparr>cl_closing := ks\<rparr>, ts @ [Closing [k]])"
| run_call: "t \<in> {Creating, ShuttingDown, Resetting} \<Longrightarrow> system_step md5 (c, ts) (c, ts @ [t])"
| run_migration: "system_step md5 (c, ts) (SetMigrationEnabled b c, ts)"
| run_world: "system_step md5 (c, ts) (c\<lparr>cl_now := now, cl_rand := r, cl_padding := pf\<rparr>, ts)"

inductive system_reachable :: "(bytes \<Rightarrow> string) \<Rightarrow> pool_sys \<Rightarrow> bool" for md5 where
  sys_new: "system_reachable md5 (snd (NewClient pf ci to mi ms hi hq ht now r), [Sweeping])"
| sys_more: "system_reachable md5 x \<Longrightarrow> system_step md5 x y \<Longrightarrow> system_reachable md5 y"

end
