(* ===== verification/Pool_Threads_Inv.thy ===== *)
theory Pool_Threads_Inv
  imports Pool_Threads "HOL-Library.Multiset"
begin

text \<open>
  The invariant of the interleaved pool.  It accounts for what the threads hold: an increment of a
  stream counter between \<open>activeStreams.Add(1)\<close> and the registration of the stream, a decrement a die
  hook still owes, a session nobody else knows yet.
\<close>

section \<open>What threads hold\<close>

text \<open>The sessions a thread knows, the count on session \<open>k\<close> it owes, the sessions it alone knows.\<close>

fun about :: "thread \<Rightarrow> nat set" where
  "about (Bumping a k) = {k}" | "about (Opening a k) = {k}" | "about (Failed a k i) = {k}"
| "about (RollingBack a k) = {k}" | "about (GaveUp a k) = {k}" | "about (Starting k) = {k}"
| "about (StreamEnded k) = {k}" | "about (Judging k) = {k}" | "about (Pooling k) = {k}" | "about (Putting k) = {k}"
| "about (SessionEnded k) = {k}" | "about (Unlisting k) = {k}"
| "about (Closing ks) = set ks" | "about (SweptClosing ks) = set ks" | "about (Snapshotting ks) = set ks"
| "about (Expiring ks all) = set ks \<union> set all"
| "about _ = {}"

fun owed :: "nat \<Rightarrow> thread \<Rightarrow> nat" where
  "owed k (Opening a j) = of_bool (j = k)"
| "owed k (Failed a j i) = of_bool (j = k \<and> i = None)"
| "owed k (RollingBack a j) = of_bool (j = k)"
| "owed k (StreamEnded j) = of_bool (j = k)"
| "owed k _ = 0"

fun owned :: "thread \<Rightarrow> nat list" where
  "owned (Registering k) = [k]"
| "owned _ = []"

definition debt :: "nat \<Rightarrow> thread list \<Rightarrow> nat" where
  "debt k ts = sum_list (map (owed k) ts)"

definition unshared :: "thread list \<Rightarrow> nat list" where
  "unshared ts = concat (map owned ts)"

fun thread_ok :: "Client \<Rightarrow> thread \<Rightarrow> bool" where
  "thread_ok c (Failed a k (Some i)) = dead (ss_objs (sess c k)) i"
| "thread_ok c (Registering k) = (k < length (cl_objs c) \<and> \<not> ss_closed (sess c k))"
| "thread_ok c _ = True"

definition known :: "Client \<Rightarrow> (u64 \<times> nat) list \<Rightarrow> thread list \<Rightarrow> nat set" where
  "known c xs ts = snd ` set (cl_sessions c) \<union> snd ` set xs \<union> set (cl_closing c) \<union> (\<Union>t \<in> set ts. about t)"

definition tables :: "Client \<Rightarrow> (u64 \<times> nat) list \<Rightarrow> bool" where
  "tables c xs \<longleftrightarrow> pool_tables (\<lambda>_. True) c xs"

definition ending :: "nat \<Rightarrow> thread list \<Rightarrow> bool" where
  "ending k ts \<longleftrightarrow> SessionEnded k \<in> set ts \<or> Unlisting k \<in> set ts"

definition sys_inv :: "Client \<Rightarrow> thread list \<Rightarrow> (u64 \<times> nat) list \<Rightarrow> bool" where
  "sys_inv c ts xs \<longleftrightarrow> tables c xs \<and> length (cl_objs c) < 2 ^ 38 \<and>
     (\<forall>k < length (cl_objs c). pooled_ok (cl_objs c ! k) (int (debt k ts))) \<and>
     (\<forall>t \<in> set ts. thread_ok c t) \<and>
     known c xs ts \<subseteq> {..<length (cl_objs c)} \<and> distinct (unshared ts) \<and> set (unshared ts) \<inter> known c xs ts = {} \<and>
     (\<forall>k \<in> snd ` set (cl_sessions c). ss_closed (sess c k) \<longrightarrow> ending k ts)"

lemma debt_simps [simp]: "debt k [] = 0" "debt k (t # ts) = owed k t + debt k ts" "debt k (ts @ us) = debt k ts + debt k us"
  by (simp_all add: debt_def)

lemma unshared_simps [simp]: "unshared [] = []" "unshared (t # ts) = owned t @ unshared ts" "unshared (ts @ us) = unshared ts @ unshared us"
  by (simp_all add: unshared_def)

lemma ending_simps [simp]:
  "ending k (t # ts) \<longleftrightarrow> t = SessionEnded k \<or> t = Unlisting k \<or> ending k ts" "ending k (ts @ us) \<longleftrightarrow> ending k ts \<or> ending k us"
  "\<not> ending k []"
  by (auto simp: ending_def)

lemma unshared_iff: "k \<in> set (unshared ts) \<longleftrightarrow> Registering k \<in> set ts"
proof -
  have "k \<in> set (owned t) \<longleftrightarrow> t = Registering k" for t by (cases t) auto
  then show ?thesis by (auto simp: unshared_def)
qed

text \<open>The order of the threads does not matter.\<close>

lemma sys_inv_perm:
  assumes "mset ts = mset us"
  shows "sys_inv c ts xs \<longleftrightarrow> sys_inv c us xs"
proof -
  have s: "set ts = set us" using assms by (rule mset_eq_setD)
  have "mset (map (owed k) ts) = mset (map (owed k) us)" for k using assms by simp
  then have "debt k ts = debt k us" for k unfolding debt_def by (metis sum_mset_sum_list)
  moreover have "mset (unshared ts) = mset (unshared us)"
    using arg_cong[OF assms, of "\<lambda>m. \<Sum>t\<in>#m. mset (owned t)"] by (simp add: unshared_def mset_concat sum_mset_sum_list comp_def flip: mset_map)
  then have "distinct (unshared ts) = distinct (unshared us)" "set (unshared ts) = set (unshared us)"
    using mset_eq_imp_distinct_iff mset_eq_setD by blast+
  ultimately show ?thesis using s by (simp add: sys_inv_def known_def ending_def)
qed

lemma sys_inv_rotate: "sys_inv c (us @ t # vs) xs \<longleftrightarrow> sys_inv c (t # us @ vs) xs"
  by (rule sys_inv_perm) simp

section \<open>Steps that leave the sessions alone\<close>

definition still :: "Client \<Rightarrow> Client \<Rightarrow> bool" where
  "still c d \<longleftrightarrow> length (cl_objs d) = length (cl_objs c) \<and>
     (\<forall>j < length (cl_objs c). sess d j = sess c j \<and> ps_opened (cl_objs d ! j) = ps_opened (cl_objs c ! j))"

lemma still_refl [simp]: "still c c"
  by (simp add: still_def)

lemma thread_ok_still:
  assumes "thread_ok c t" "still c d" "about t \<subseteq> {..<length (cl_objs c)}"
  shows "thread_ok d t"
  using assms by (cases "(c, t)" rule: thread_ok.cases) (auto simp: still_def)

lemma sys_inv_known:
  "sys_inv c ts xs \<Longrightarrow> k \<in> known c xs ts \<Longrightarrow> k < length (cl_objs c)"
  by (auto simp: sys_inv_def)

lemma known_thread: "t \<in> set ts \<Longrightarrow> about t \<subseteq> known c xs ts"
  by (auto simp: known_def)

lemma inv_still:
  assumes inv: "sys_inv c (t # rs) xs" and tab: "tables d ys" and st: "still c d"
    and ts': "\<And>k. debt k ts' = owed k t" "unshared ts' = []" "\<forall>u \<in> set ts'. thread_ok d u"
    and kn: "known d ys ts' \<subseteq> known c xs [t]"
    and li: "\<forall>k \<in> snd ` set (cl_sessions d). k \<in> snd ` set (cl_sessions c) \<and>
      (t = SessionEnded k \<or> t = Unlisting k \<longrightarrow> ending k ts')"
  shows "sys_inv d (ts' @ rs) ys"
proof -
  have len: "length (cl_objs d) = length (cl_objs c)" using st by (simp add: still_def)
  have k: "known d ys (ts' @ rs) \<subseteq> known c xs (t # rs)" using kn by (auto simp: known_def)
  have "thread_ok d u" if "u \<in> set rs" for u
    using that inv known_thread[of u "t # rs" c xs] by (intro thread_ok_still[OF _ st]) (auto simp: sys_inv_def)
  moreover have "pooled_ok (cl_objs d ! k) (int (debt k (ts' @ rs)))" if "k < length (cl_objs c)" for k
    using inv that st ts'(1) by (simp add: sys_inv_def still_def pooled_ok_def)
  moreover have "distinct (unshared (ts' @ rs))" "set (unshared (ts' @ rs)) \<inter> known d ys (ts' @ rs) = {}"
    using inv ts'(2) k by (auto simp: sys_inv_def)
  moreover have "ending k (ts' @ rs)" if "k \<in> snd ` set (cl_sessions d)" "ss_closed (sess d k)" for k
  proof -
    have kc: "k \<in> snd ` set (cl_sessions c)" using li that(1) by blast
    then have "k < length (cl_objs c)" using sys_inv_known[OF inv] by (auto simp: known_def)
    then have "ss_closed (sess c k)" using that(2) st by (simp add: still_def)
    then have "ending k (t # rs)" using inv kc unfolding sys_inv_def by blast
    with li that(1) show ?thesis by auto
  qed
  ultimately show ?thesis
    using inv tab ts'(3) k len unfolding sys_inv_def by (simp add: subset_trans ball_Un)
qed

section \<open>Steps of the counters\<close>

lemma still_active:
  "k < length (cl_objs c) \<Longrightarrow> thread_ok (addActive k a c) t = thread_ok c t"
  by (cases "(c, t)" rule: thread_ok.cases) (auto simp: addActive_session)

lemma addActive_tables [simp]:
  "cl_sessions (addActive k a c) = cl_sessions c" "cl_closing (addActive k a c) = cl_closing c"
  "cl_idleSession (addActive k a c) = cl_idleSession c"
  by (simp_all add: addActive_def)

lemma inv_count:
  assumes inv: "sys_inv c (t # rs) xs" and k: "about t = {k}"
    and ts': "\<And>j. int (debt j ts') = int (owed j t) + (if j = k then a else 0)" "unshared ts' = []"
      "\<forall>u \<in> set ts'. thread_ok c u \<and> about u \<subseteq> {k}" "\<And>j. \<not> ending j [t]"
  shows "sys_inv (addActive k a c) (ts' @ rs) xs"
proof -
  have kn: "k < length (cl_objs c)" using sys_inv_known[OF inv] k by (simp add: known_def)
  have "tables (addActive k a c) xs"
    using inv kn by (simp add: tables_def sys_inv_def pool_tables_addActive)
  moreover have "known (addActive k a c) xs (ts' @ rs) \<subseteq> known c xs (t # rs)"
    using ts'(3) k by (fastforce simp: known_def)
  moreover have "pooled_ok (cl_objs (addActive k a c) ! j) (int (debt j (ts' @ rs)))" if "j < length (cl_objs c)" for j
  proof -
    have "pooled_ok (cl_objs c ! j) (int (debt j (t # rs)))" using inv that by (simp add: sys_inv_def)
    then show ?thesis using ts'(1)[of j] kn by (auto simp: pooled_ok_def addActive_session)
  qed
  moreover have "\<not> ending j [t] \<and> (ss_closed (sess (addActive k a c) j) \<longleftrightarrow> ss_closed (sess c j))" for j
    using ts'(4) kn by (simp add: addActive_session)
  ultimately show ?thesis
    using inv ts'(2,3) kn unfolding sys_inv_def by (auto simp: still_active addActive_session)
qed

section \<open>Steps of the sessions\<close>

lemma debt_hooks:
  "debt j (concat (map (hookOf k opened) es)) = (if j = k then deaths opened es else 0)"
  by (induction es) (auto simp: hookOf_def deaths_Cons deaths_def)

lemma hooks_thread:
  assumes "t \<in> set (concat (map (hookOf k opened) es))"
  shows "about t = {k}" "owned t = []" "thread_ok c t"
  using assms by (auto simp: hookOf_def split: if_splits)

lemma unshared_hooks [simp]: "unshared (concat (map (hookOf k opened) es)) = []"
  using hooks_thread(2) by (fastforce simp: unshared_def)

lemma ending_hooks: "EvSessionDied \<in> set es \<Longrightarrow> ending k (concat (map (hookOf k opened) es))"
  by (induction es) (auto simp: hookOf_def)

lemma dead_grows:
  "session_inv s \<Longrightarrow> session_inv s' \<Longrightarrow> grows s s' \<Longrightarrow> dead (ss_objs s) i \<Longrightarrow> dead (ss_objs s') i"
  by (rule new_deaths(1))

text \<open>Session \<open>k\<close> moves to \<open>s\<close>; its counter already has the streams it will have opened.\<close>

lemma moveTo_inv:
  assumes m: "moveTo k s c = (hooks, d)" and k: "k < length (cl_objs c)" "Registering k \<notin> set ts"
    and inv: "tables c xs" "length (cl_objs c) < 2 ^ 38" "\<forall>t \<in> set ts. thread_ok c t"
      "known c xs ts \<subseteq> {..<length (cl_objs c)}" "distinct (unshared ts)" "set (unshared ts) \<inter> known c xs ts = {}"
      "\<forall>j \<in> snd ` set (cl_sessions c). ss_closed (sess c j) \<longrightarrow> ending j ts"
    and others: "\<forall>j < length (cl_objs c). j \<noteq> k \<longrightarrow> pooled_ok (cl_objs c ! j) (int (debt j ts))"
    and s: "session_inv (sess c k)" "session_inv s" "grows (sess c k) s"
      "ss_activeStreams s = int (living (ss_objs (sess c k)) (ps_opened (cl_objs c ! k))) + int (debt k ts)"
      "distinct (ps_opened (cl_objs c ! k))" "\<forall>i \<in> set (ps_opened (cl_objs c ! k)). i < length (ss_objs s)"
  shows "sys_inv d (hooks @ ts) xs"
proof -
  let ?es = "newEvents (sess c k) s" and ?opened = "ps_opened (cl_objs c ! k)"
  have d: "d = updPooled k (\<lambda>p. p\<lparr>ps_session := s\<rparr>) c" and h: "hooks = concat (map (hookOf k ?opened) ?es)"
    using m by (simp_all add: moveTo_def)
  have sd: "sess d j = (if j = k then s else sess c j)" "ps_opened (cl_objs d ! j) = ps_opened (cl_objs c ! j)"
    "ps_seq (cl_objs d ! j) = ps_seq (cl_objs c ! j)" for j
    using k(1) by (simp_all add: d)
  have "tables d xs"
    using inv(1) pool_tables_cong[of d c] sd(3) by (simp add: tables_def d)
  moreover have "pooled_ok (cl_objs d ! j) (int (debt j (hooks @ ts)))" if "j < length (cl_objs c)" for j
  proof (cases "j = k")
    case True
    have "living (ss_objs (sess c k)) ?opened = living (ss_objs s) ?opened + deaths ?opened ?es"
      by (rule living_split[OF s(1-3,5)])
    then show ?thesis using s True sd by (simp add: pooled_ok_def h debt_hooks)
  next
    case False
    then show ?thesis using others that sd k(1) by (simp add: d h debt_hooks)
  qed
  moreover have "thread_ok d t" if "t \<in> set ts" for t
  proof -
    have "thread_ok c t" using inv(3) that by blast
    then show ?thesis using k that dead_grows[OF s(1-3)]
      by (cases "(c, t)" rule: thread_ok.cases) (auto simp: sd d)
  qed
  moreover have "known d xs (hooks @ ts) \<subseteq> insert k (known c xs ts)"
    using hooks_thread(1) by (auto simp: known_def d h)
  then have "known d xs (hooks @ ts) \<subseteq> {..<length (cl_objs c)}" "set (unshared ts) \<inter> known d xs (hooks @ ts) = {}"
    using k inv(4,6) by (auto simp: unshared_iff)
  moreover have "ending j (hooks @ ts)" if "j \<in> snd ` set (cl_sessions d)" "ss_closed (sess d j)" for j
  proof (cases "j = k \<and> \<not> ss_closed (sess c k)")
    case True
    then have "count_list ?es EvSessionDied = 1" using new_deaths(4)[OF s(1-3)] that(2) by (simp add: sd)
    then have "EvSessionDied \<in> set ?es" by (metis count_notin zero_neq_one)
    then show ?thesis using True ending_hooks by (simp add: h)
  next
    case False
    have "ss_closed (sess c j)" using that(2) False by (auto simp: sd split: if_splits)
    then have "ending j ts" using inv(7) that(1) by (auto simp: d)
    then show ?thesis by simp
  qed
  moreover have "thread_ok d t" if "t \<in> set hooks" for t using that hooks_thread(3) unfolding h by blast
  moreover have "length (cl_objs d) = length (cl_objs c)" "unshared hooks = []" by (simp_all add: d h)
  ultimately show ?thesis
    using inv(2,5) unfolding sys_inv_def by auto
qed

end
