(* ===== verification/Pool_Threads_Steps.thy ===== *)
theory Pool_Threads_Steps
  imports Pool_Threads_Inv Pool_Cleanup
begin

text \<open>
  Every step of every thread returns and keeps the invariant of the interleaved pool.
\<close>

section \<open>Walks through the idle sessions\<close>

lemma tables_sorted: "tables c xs \<Longrightarrow> represents (cl_idleSession c) xs"
  by (simp add: tables_def pool_tables_def)

lemma unIdle_tables:
  "tables c xs \<Longrightarrow> runs (unIdle key c) (\<lambda>d. tables d (absRemove key xs) \<and> (\<exists>sl. d = c\<lparr>cl_idleSession := sl\<rparr>))"
  unfolding tables_def by (rule unIdle_runs)

lemma tables_spawn [simp]: "tables (spawnClose k c) xs = tables c xs"
  unfolding tables_def by (rule pool_tables_cong) simp_all

text \<open>What a walk of the list may change, and the sessions it may hand to \<open>Close\<close>.\<close>

definition walked :: "Client \<Rightarrow> (u64 \<times> nat) list \<Rightarrow> Client \<Rightarrow> (u64 \<times> nat) list \<Rightarrow> bool" where
  "walked c xs d ys \<longleftrightarrow> tables d ys \<and> still c d \<and> set ys \<subseteq> set xs \<and> cl_sessions d = cl_sessions c \<and>
     set (cl_closing d) \<subseteq> set (cl_closing c) \<union> snd ` set xs"

lemma walked_refl: "tables c xs \<Longrightarrow> walked c xs c xs"
  by (simp add: walked_def)

lemma still_trans: "still c d \<Longrightarrow> still d e \<Longrightarrow> still c e"
  by (simp add: still_def)

lemma walked_trans: "walked c xs d ys \<Longrightarrow> walked d ys e zs \<Longrightarrow> walked c xs e zs"
  unfolding walked_def using still_trans by fastforce

lemma getIdleSession_walks:
  assumes "tables c xs"
  shows "runs (getIdleSession c) (\<lambda>(res, d). (\<exists>ys. walked c xs d ys) \<and> (\<forall>k. res = Some k \<longrightarrow> k \<in> snd ` set xs))"
  using assms
proof (induction xs arbitrary: c)
  case Nil
  then show ?case using walked_refl by (auto simp: getIdleSession_Nil[OF tables_sorted])
next
  case (Cons e xs)
  obtain key k where e: "e = (key, k)" by (cases e)
  have rep: "represents (cl_idleSession c) ((key, k) # xs)" using tables_sorted[OF Cons.prems] by (simp add: e)
  obtain it where it: "Iterate (cl_idleSession c) = Some it" "Key (cl_idleSession c) it = Some key"
    "Value (cl_idleSession c) it = Some k" using represents_front[OF rep] by blast
  obtain sl where sl: "unIdle key c = Some (c\<lparr>cl_idleSession := sl\<rparr>)" "tables (c\<lparr>cl_idleSession := sl\<rparr>) xs"
    using unIdle_tables[OF Cons.prems, of key] skl.sorted[OF rep] by (auto simp: runs_def absRemove_front e)
  let ?c = "c\<lparr>cl_idleSession := sl\<rparr>"
  let ?d = "if ss_connBroken (sess ?c k) \<and> \<not> IsClosed (sess ?c k) then spawnClose k ?c else ?c"
  have w: "walked c (e # xs) ?d xs" "walked c (e # xs) ?c xs"
    using sl(2) by (auto simp: walked_def still_def e)
  have "runs (getIdleSession ?d) (\<lambda>(res, d). (\<exists>ys. walked ?d xs d ys) \<and> (\<forall>k. res = Some k \<longrightarrow> k \<in> snd ` set xs))"
    by (rule Cons.IH) (use sl(2) in simp)
  then have later: "runs (getIdleSession ?d) (\<lambda>(res, d). (\<exists>ys. walked c (e # xs) d ys) \<and> (\<forall>k. res = Some k \<longrightarrow> k \<in> snd ` set (e # xs)))"
    by (rule runs_mono) (use walked_trans[OF w(1)] in auto)
  have "\<not> IsEmpty (cl_idleSession c)" using represents_IsEmpty[OF rep] by simp
  then have "getIdleSession c = (if unusable (sess ?c k) then getIdleSession ?d else Some (Some k, ?c))"
    using it sl(1) by (subst getIdleSession.simps) simp
  then show ?case using later w(2) by (auto simp: e)
qed

text \<open>One entry of the cleanup; the loop goes on after it.\<close>

lemma cleanupLoop_moves:
  assumes pos: "positioned (cl_idleSession c) it xs ((key, k) # es)" and tab: "tables c (xs @ (key, k) # es)"
  shows "\<exists>it' c' n' xs' tc'. cleanupLoop expTime n tc it c = cleanupLoop expTime n' (tc @ tc') it' c'
    \<and> positioned (cl_idleSession c') it' xs' es \<and> walked c (xs @ (key, k) # es) c' (xs' @ es) \<and> set tc' \<subseteq> {k}
    \<and> cl_closing c' = cl_closing c"
proof -
  have front: "IsNotEnd it" "Key (cl_idleSession c) it = Some key" "Value (cl_idleSession c) it = Some k"
    using positioned_Cons(1-3)[OF pos] .
  obtain it' sl' where it': "MoveToNext (cl_idleSession c) it = Some it'" "positioned (cl_idleSession c) it' (xs @ [(key, k)]) es"
    "Remove key (cl_idleSession c) = Some (True, sl')" "positioned sl' it' xs es"
    using positioned_Cons(4)[OF pos] by blast
  have k: "k < length (cl_objs c)"
    using tab pool_tables_entry(1)[of _ c _ "(key, k)"] unfolding tables_def by fastforce
  let ?un = "c\<lparr>cl_idleSession := sl'\<rparr>" and ?up = "updPooled k (\<lambda>p. p\<lparr>ps_idleSince := cl_now c\<rparr>) c"
  have un: "unIdle key c = Some ?un" using it'(3) by (simp add: unIdle_def)
  have "represents sl' (xs @ es)" using it'(4) by (rule positioned_represents)
  then have w_un: "walked c (xs @ (key, k) # es) ?un (xs @ es)"
    using tab unfolding walked_def tables_def pool_tables_def by (auto simp: still_def idleKey_def)
  have w_up: "walked c (xs @ (key, k) # es) ?up (xs @ (key, k) # es)"
    using tab pool_tables_cong[of ?up c] k by (auto simp: walked_def tables_def still_def)
  have l: "cleanupLoop expTime n tc it c =
     (if unusable (sess c k) then cleanupLoop expTime n (if ss_connBroken (sess c k) \<and> \<not> IsClosed (sess c k) then tc @ [k] else tc) it' ?un
      else if ss_activeStreams (sess c k) > 0 then cleanupLoop expTime n tc it' ?un
      else if \<not> ps_idleSince (cl_objs c ! k) < expTime then cleanupLoop expTime (n + 1) tc it' c
      else if n < cl_minIdleSession c then cleanupLoop expTime (n + 1) tc it' ?up
      else cleanupLoop expTime n (tc @ [k]) it' ?un)"
    by (subst cleanupLoop.simps) (simp add: front it'(1) un)
  consider (drop) tc' where "cleanupLoop expTime n tc it c = cleanupLoop expTime n (tc @ tc') it' ?un" "set tc' \<subseteq> {k}"
    | (keep) "cleanupLoop expTime n tc it c = cleanupLoop expTime (n + 1) (tc @ []) it' c"
    | (renew) "cleanupLoop expTime n tc it c = cleanupLoop expTime (n + 1) (tc @ []) it' ?up"
    using l that(1)[of "[k]"] that(1)[of "[]"] that(2,3) by (simp split: if_splits)
  then show ?thesis
  proof cases
    case (drop tc')
    with it'(4) w_un show ?thesis
      by (intro exI[of _ it'] exI[of _ ?un] exI[of _ n] exI[of _ xs] exI[of _ tc']) simp
  next
    case keep
    with it'(2) walked_refl[OF tab] show ?thesis
      by (intro exI[of _ it'] exI[of _ c] exI[of _ "n + 1"] exI[of _ "xs @ [(key, k)]"] exI[of _ "[]"]) simp
  next
    case renew
    with it'(2) w_up show ?thesis
      by (intro exI[of _ it'] exI[of _ ?up] exI[of _ "n + 1"] exI[of _ "xs @ [(key, k)]"] exI[of _ "[]"]) simp
  qed
qed

lemma cleanupLoop_walks:
  assumes "positioned (cl_idleSession c) it xs es" "tables c (xs @ es)"
  shows "runs (cleanupLoop expTime n tc it c) (\<lambda>(ks, d). (\<exists>ys. walked c (xs @ es) d ys) \<and> set ks \<subseteq> set tc \<union> snd ` set es)"
  using assms
proof (induction es arbitrary: c n tc it xs)
  case Nil
  then have "\<not> IsNotEnd it" "walked c xs c xs" using positioned_end walked_refl by auto
  then show ?case by (subst cleanupLoop.simps) auto
next
  case (Cons e es)
  obtain key k where e: "e = (key, k)" by (cases e)
  obtain it' c' n' xs' tc' where l: "cleanupLoop expTime n tc it c = cleanupLoop expTime n' (tc @ tc') it' c'"
    "positioned (cl_idleSession c') it' xs' es" "walked c (xs @ e # es) c' (xs' @ es)" "set tc' \<subseteq> {k}"
    using cleanupLoop_moves[OF Cons.prems[unfolded e], of expTime n tc] unfolding e by blast
  have "runs (cleanupLoop expTime n' (tc @ tc') it' c') (\<lambda>(ks, d). (\<exists>ys. walked c' (xs' @ es) d ys) \<and> set ks \<subseteq> set (tc @ tc') \<union> snd ` set es)"
    using l(3) by (intro Cons.IH[OF l(2)]) (simp add: walked_def)
  then show ?case
    unfolding l(1) by (rule runs_mono) (use walked_trans[OF l(3)] l(4) e in auto)
qed

section \<open>Kinds of steps\<close>

text \<open>The thread goes on and nothing else changes.\<close>

lemma inv_next:
  assumes "sys_inv c (t # rs) xs" "\<And>k. debt k ts' = owed k t" "unshared ts' = []"
    and "\<forall>u \<in> set ts'. thread_ok c u \<and> about u \<subseteq> known c xs [t]" "\<And>k. \<not> ending k [t]"
  shows "sys_inv c (ts' @ rs) xs"
  using assms(4,5) by (intro inv_still[OF assms(1) _ still_refl assms(2,3)])
    (use assms(1) in \<open>auto simp: sys_inv_def known_def\<close>)

lemma sys_inv_spawn:
  assumes "sys_inv c ts xs" "k \<in> known c xs ts"
  shows "sys_inv (spawnClose k c) ts xs"
proof -
  have "known (spawnClose k c) xs ts = known c xs ts" using assms(2) by (auto simp: known_def)
  moreover have "thread_ok (spawnClose k c) t = thread_ok c t" for t
    by (cases "(c, t)" rule: thread_ok.cases) auto
  ultimately show ?thesis using assms(1) by (simp add: sys_inv_def)
qed

lemma inv_walk:
  assumes inv: "sys_inv c (t # rs) xs" and w: "walked c xs d ys"
    and ts': "\<And>k. debt k ts' = owed k t" "unshared ts' = []" "\<forall>u \<in> set ts'. thread_ok d u \<and> about u \<subseteq> snd ` set xs"
      "\<And>k. \<not> ending k [t]"
  shows "sys_inv d (ts' @ rs) ys"
proof (rule inv_still[OF inv _ _ ts'(1,2)])
  show "known d ys ts' \<subseteq> known c xs [t]" proof -
    have "(\<Union>t \<in> set ts'. about t) \<subseteq> snd ` set xs" using ts'(3) by blast
    moreover have "snd ` set ys \<subseteq> snd ` set xs" using w unfolding walked_def by blast
    ultimately show ?thesis using w unfolding walked_def known_def by auto
  qed
  show "tables d ys" "still c d" using w by (simp_all add: walked_def)
  show "\<forall>u \<in> set ts'. thread_ok d u" using ts'(3) by blast
  show "\<forall>k \<in> snd ` set (cl_sessions d). k \<in> snd ` set (cl_sessions c) \<and> (t = SessionEnded k \<or> t = Unlisting k \<longrightarrow> ending k ts')"
    using w ts'(4) by (simp add: walked_def)
qed

text \<open>A thread knows of a session others know as well, which is not hidden from it.\<close>

lemma inv_about:
  assumes "sys_inv c ts xs" "k \<in> known c xs ts"
  shows "k < length (cl_objs c)" "Registering k \<notin> set ts"
  using assms by (auto simp: sys_inv_def simp flip: unshared_iff)

lemma inv_moved:
  assumes inv: "sys_inv c ts xs" and k: "k \<in> known c xs ts" and m: "moveTo k s c = (hooks, d)"
    and s: "session_inv (sess c k) \<Longrightarrow> session_inv s" "grows (sess c k) s" "ss_activeStreams s = ss_activeStreams (sess c k)"
  shows "sys_inv d (hooks @ ts) xs"
proof -
  note kk = inv_about[OF inv k]
  have ok: "pooled_ok (cl_objs c ! k) (int (debt k ts))" using inv kk(1) by (simp add: sys_inv_def)
  show ?thesis
    by (rule moveTo_inv[OF m kk])
      (use inv ok s in \<open>auto simp: sys_inv_def pooled_ok_def grows_def intro: order_less_le_trans\<close>)
qed

lemma inv_closeOne:
  assumes "sys_inv c ts xs" "k \<in> known c xs ts"
  shows "case closeOne k c of (hooks, d) \<Rightarrow> sys_inv d (hooks @ ts) xs"
  using inv_moved[OF assms] session_inv_Close grows_Close[OF grows_refl]
  by (simp add: closeOne_def split: prod.split)

lemma sys_inv_add:
  assumes "sys_inv c ts xs" "thread_ok c u" "\<And>k. owed k u = 0" "owned u = []" "about u \<subseteq> {k}" "k < length (cl_objs c)"
    "Registering k \<notin> set ts"
  shows "sys_inv c (u # ts) xs"
proof -
  have "known c xs (u # ts) \<subseteq> insert k (known c xs ts)" using assms(5) by (auto simp: known_def)
  then show ?thesis using assms(1-4,6,7) by (auto simp: sys_inv_def unshared_iff)
qed

section \<open>Opening\<close>

text \<open>The stream \<open>OpenStream\<close> has registered takes over the increment that was waiting for it.\<close>

lemma inv_opened:
  assumes inv: "sys_inv c (Opening a k # rs) xs" and o': "OpenStream (sess c k) = ((Some i, err), s)"
    and m: "moveTo k s (updPooled k (\<lambda>p. p\<lparr>ps_opened := ps_opened p @ [i]\<rparr>) c) = (hooks, d)"
  shows "sys_inv d (hooks @ rs) xs"
proof -
  define c0 where "c0 = updPooled k (\<lambda>p. p\<lparr>ps_opened := ps_opened p @ [i]\<rparr>) c"
  have k: "k < length (cl_objs c)" "Registering k \<notin> set rs"
    using inv_about[OF inv, of k] by (simp_all add: known_def)
  have ok: "pooled_ok (cl_objs c ! k) (int (debt k (Opening a k # rs)))"
    using inv k(1) unfolding sys_inv_def by blast
  have i: "i = length (ss_objs (sess c k))" "i < length (ss_objs s)" using OpenStream_result(3)[OF o'] by auto
  have s: "session_inv s" "grows (sess c k) s" "ss_activeStreams s = ss_activeStreams (sess c k)"
    using o' ok OpenStream_inv[of "sess c k"] grows_OpenStream[of "sess c k" "sess c k"] active_OpenStream[of "sess c k"]
    by (simp_all add: pooled_ok_def)
  have c0: "length (cl_objs c0) = length (cl_objs c)" "sess c0 j = sess c j" "cl_sessions c0 = cl_sessions c" "known c0 xs rs = known c xs rs"
    "ps_opened (cl_objs c0 ! j) = (if j = k then ps_opened (cl_objs c ! k) @ [i] else ps_opened (cl_objs c ! j))" for j
    using k(1) by (simp_all add: c0_def known_def)
  have tk: "thread_ok c0 t = thread_ok c t" for t
    by (cases "(c, t)" rule: thread_ok.cases) (simp_all add: c0)
  have l: "living (ss_objs (sess c k)) (ps_opened (cl_objs c ! k) @ [i]) = living (ss_objs (sess c k)) (ps_opened (cl_objs c ! k)) + 1"
    using i(1) by (simp add: living_def dead_def)
  show ?thesis
  proof (rule moveTo_inv[OF m[folded c0_def]])
    show "tables c0 xs"
      using inv pool_tables_cong[of c0 c] k(1) by (simp add: sys_inv_def tables_def c0_def)
    show "known c0 xs rs \<subseteq> {..<length (cl_objs c0)}" "set (unshared rs) \<inter> known c0 xs rs = {}"
      using inv unfolding c0 by (auto simp: sys_inv_def known_def)
    show "\<forall>j<length (cl_objs c0). j \<noteq> k \<longrightarrow> pooled_ok (cl_objs c0 ! j) (int (debt j rs))"
      using inv by (auto simp: sys_inv_def pooled_ok_def c0)
    show "ss_activeStreams s = int (living (ss_objs (sess c0 k)) (ps_opened (cl_objs c0 ! k))) + int (debt k rs)"
      using ok s(3) l by (simp add: c0 pooled_ok_def)
    show "distinct (ps_opened (cl_objs c0 ! k))" "\<forall>i \<in> set (ps_opened (cl_objs c0 ! k)). i < length (ss_objs s)"
      using ok i s(2) by (auto simp: c0 pooled_ok_def grows_def)
  qed (use inv ok s k in \<open>auto simp: sys_inv_def c0 tk pooled_ok_def\<close>)
qed

lemma inv_openStep:
  assumes inv: "sys_inv c (Opening a k # rs) xs"
  shows "case openStep a k c of (ts', d) \<Rightarrow> sys_inv d (ts' @ rs) xs"
proof -
  obtain i err s where o': "OpenStream (sess c k) = ((i, err), s)" by (metis prod.collapse)
  have k: "k < length (cl_objs c)" "Registering k \<notin> set rs"
    using inv_about[OF inv, of k] by (simp_all add: known_def)
  show ?thesis
  proof (cases i)
    case None
    then have s: "s = sess c k" "err \<noteq> None" using OpenStream_result(1)[OF o'] by simp_all
    have "updPooled k (\<lambda>p. p\<lparr>ps_opened := ps_opened p @ []\<rparr>) c = c" "updPooled k (\<lambda>p. p\<lparr>ps_session := s\<rparr>) c = c"
      by (simp_all add: updPooled_def s(1))
    then have "openStep a k c = ([Failed a k None], c)"
      using s o' None by (auto simp: openStep_def moveTo_def newEvents_def)
    with inv_next[OF inv, of "[Failed a k None]"] show ?thesis by (simp add: known_def)
  next
    case (Some j)
    obtain hooks d where m: "moveTo k s (updPooled k (\<lambda>p. p\<lparr>ps_opened := ps_opened p @ [j]\<rparr>) c) = (hooks, d)"
      by fastforce
    let ?u = "case err of None \<Rightarrow> Answered (Inr (k, j)) | Some e \<Rightarrow> Failed a k (Some j)"
    have d: "sess d k = s" "length (cl_objs d) = length (cl_objs c)" using m k(1) by (auto simp: moveTo_def)
    have inv': "session_inv (sess c k)" using inv k(1) by (auto simp: sys_inv_def pooled_ok_def)
    have "sys_inv d (?u # hooks @ rs) xs"
    proof (rule sys_inv_add[OF inv_opened[OF inv o'[unfolded Some] m]])
      show "thread_ok d ?u" using OpenStream_result(4)[OF o' Some _ inv'] by (simp add: d split: option.split)
      show "Registering k \<notin> set (hooks @ rs)" using k(2) m hooks_thread(2) by (fastforce simp: moveTo_def)
    qed (use k(1) d in \<open>auto split: option.split\<close>)
    moreover have "openStep a k c = (?u # hooks, d)"
      using o' Some m by (auto simp: openStep_def split: option.split)
    ultimately show ?thesis by simp
  qed
qed

section \<open>Dialling\<close>

lemma owed_about: "k \<notin> about t \<Longrightarrow> owed k t = 0"
  by (cases "(k, t)" rule: owed.cases) auto

lemma debt_about: "\<forall>t \<in> set ts. k \<notin> about t \<Longrightarrow> debt k ts = 0"
  by (induction ts) (auto simp: owed_about)

lemma dialled_objs:
  "j < length (cl_objs c) \<Longrightarrow> cl_objs (addDialled u c) ! j = cl_objs c ! j"
  "length (cl_objs (addDialled u c)) = length (cl_objs c) + 1"
  "cl_sessions (addDialled u c) = cl_sessions c" "cl_closing (addDialled u c) = cl_closing c" "cl_idleSession (addDialled u c) = cl_idleSession c"
  "cl_sessionCounter (addDialled u c) = cl_sessionCounter c + 1"
  by (simp_all add: addDialled_def Let_def nth_append)

lemma dialled_new:
  assumes "\<not> c_closed u"
  shows "pooled_ok (cl_objs (addDialled u c) ! length (cl_objs c)) 0" "\<not> ss_closed (sess (addDialled u c) (length (cl_objs c)))"
    "ps_seq (cl_objs (addDialled u c) ! length (cl_objs c)) = cl_sessionCounter c + 1"
proof -
  have "session_inv (NewClientSession u (cl_padding c) (cl_now c) (cl_rand c))"
    unfolding NewClientSession_def by (rule newSession_inv) (use assms in blast)
  then have "session_inv ((NewClientSession u (cl_padding c) (cl_now c) (cl_rand c))\<lparr>ss_migActive := cl_migEnabled c\<rparr>)"
    by (rule session_inv_frame) (simp add: core_def)
  then show "pooled_ok (cl_objs (addDialled u c) ! length (cl_objs c)) 0" "\<not> ss_closed (sess (addDialled u c) (length (cl_objs c)))"
    "ps_seq (cl_objs (addDialled u c) ! length (cl_objs c)) = cl_sessionCounter c + 1"
    by (simp_all add: addDialled_def Let_def pooled_ok_def living_def NewClientSession_def newSession_fields)
qed

lemma tables_dialled:
  assumes "tables c xs" "\<not> c_closed u"
  shows "tables (addDialled u c) xs"
proof -
  let ?d = "addDialled u c"
  have t: "pool_tables (\<lambda>_. True) c xs" using assms(1) by (simp add: tables_def)
  then have n: "cl_sessionCounter c = of_nat (length (cl_objs c))" by (simp add: pool_tables_def)
  show ?thesis
    unfolding tables_def pool_tables_def split_beta
  proof (intro conjI ballI allI impI)
    show "represents (cl_idleSession ?d) xs" "distinct (map fst (cl_sessions ?d))"
      using t by (simp_all add: pool_tables_def dialled_objs)
    show "cl_sessionCounter ?d = of_nat (length (cl_objs ?d))" using n by (simp add: dialled_objs)
    fix k assume "k < length (cl_objs ?d)"
    then show "ps_seq (cl_objs ?d ! k) = of_nat (Suc k)"
      using t n dialled_new(3)[OF assms(2)] by (cases "k = length (cl_objs c)") (simp_all add: pool_tables_def dialled_objs)
  next
    fix e assume e: "e \<in> set xs"
    show "snd e < length (cl_objs ?d)" "fst e = idleKey (snd e) ?d"
      using pool_tables_entry(1)[OF t e] by (simp_all add: dialled_objs idleKey_def)
  next
    fix e assume "e \<in> set (cl_sessions ?d)"
    then have e: "e \<in> set (cl_sessions c)" by (simp add: dialled_objs)
    show "snd e < length (cl_objs ?d)" "fst e = ps_seq (cl_objs ?d ! snd e)"
      using pool_tables_entry(2)[OF t e] by (simp_all add: dialled_objs)
  qed simp_all
qed

lemma inv_dialled:
  assumes inv: "sys_inv c (Dialling # rs) xs" and u: "\<not> c_closed u" and n: "length (cl_objs c) + 1 < 2 ^ 38"
  shows "sys_inv (addDialled u c) (Registering (length (cl_objs c)) # rs) xs"
proof -
  let ?n = "length (cl_objs c)" and ?d = "addDialled u c"
  have kn: "known ?d xs (Registering ?n # rs) = known c xs (Dialling # rs)" by (simp add: known_def dialled_objs)
  have bound: "known c xs (Dialling # rs) \<subseteq> {..<?n}" using inv by (simp add: sys_inv_def)
  have reg: "k < ?n" if "Registering k \<in> set rs" for k
    using inv that thread_ok.simps(2)[of c k] unfolding sys_inv_def by (metis list.set_intros(2))
  have "thread_ok ?d t" if "t \<in> set rs" for t
  proof -
    have "thread_ok c t" "about t \<subseteq> {..<?n}" using inv that bound by (auto simp: sys_inv_def known_def)
    then show ?thesis by (cases "(c, t)" rule: thread_ok.cases) (auto simp: dialled_objs)
  qed
  moreover have "pooled_ok (cl_objs ?d ! k) (int (debt k rs))" if "k < ?n + 1" for k
  proof (cases "k = ?n")
    case True
    have "debt ?n rs = 0" using bound by (intro debt_about) (auto simp: known_def)
    then show ?thesis using dialled_new(1)[OF u] True by simp
  next
    case False
    then show ?thesis using inv that by (simp add: sys_inv_def dialled_objs)
  qed
  moreover have "?n \<notin> set (unshared rs)" using reg by (auto simp: unshared_iff)
  moreover have "ending k rs" if "k \<in> snd ` set (cl_sessions c)" "ss_closed (sess ?d k)" for k
  proof -
    have "k < ?n" using that(1) bound by (auto simp: known_def)
    then have "ending k (Dialling # rs)" using inv that unfolding sys_inv_def by (metis dialled_objs(1))
    then show ?thesis by simp
  qed
  moreover have "tables ?d xs" using inv u tables_dialled by (simp add: sys_inv_def)
  ultimately show ?thesis
    using inv n bound dialled_new(2)[OF u] unfolding sys_inv_def kn
    by (auto simp: dialled_objs(2-5))
qed

lemma inv_registered:
  assumes inv: "sys_inv c (Registering k # rs) xs"
  shows "sys_inv (c\<lparr>cl_sessions := AList.update (ps_seq (cl_objs c ! k)) k (cl_sessions c)\<rparr>) (Starting k # rs) xs"
proof -
  let ?d = "c\<lparr>cl_sessions := AList.update (ps_seq (cl_objs c ! k)) k (cl_sessions c)\<rparr>"
  have k: "k < length (cl_objs c)" "\<not> ss_closed (sess c k)" "k \<notin> set (unshared rs)"
    using inv by (simp_all add: sys_inv_def)
  have sub: "set (cl_sessions ?d) \<subseteq> insert (ps_seq (cl_objs c ! k), k) (set (cl_sessions c))"
    using set_update_subset by simp
  then have kn: "known ?d xs (Starting k # rs) \<subseteq> insert k (known c xs (Registering k # rs))"
    by (fastforce simp: known_def)
  have "thread_ok ?d t = thread_ok c t" for t by (cases "(c, t)" rule: thread_ok.cases) auto
  moreover have "tables ?d xs"
  proof -
    have t: "pool_tables (\<lambda>_. True) c xs" using inv by (simp add: sys_inv_def tables_def)
    have "snd e < length (cl_objs c) \<and> fst e = ps_seq (cl_objs c ! snd e)" if "e \<in> set (cl_sessions ?d)" for e
      using sub that pool_tables_entry(2)[OF t, of e] k(1) by auto
    with t show ?thesis
      unfolding tables_def pool_tables_def idleKey_def by (simp add: split_beta distinct_update)
  qed
  moreover have "ending j (Starting k # rs)" if "j \<in> snd ` set (cl_sessions ?d)" "ss_closed (sess c j)" for j
  proof -
    have "j \<noteq> k" using that(2) k(2) by auto
    then have "j \<in> snd ` set (cl_sessions c)" using that(1) sub by auto
    then have "ending j (Registering k # rs)" using inv that(2) unfolding sys_inv_def by blast
    then show ?thesis by simp
  qed
  ultimately show ?thesis
    using inv k kn unfolding sys_inv_def by auto
qed

section \<open>The shared lists\<close>

lemma inv_putIdle:
  assumes inv: "sys_inv c (Putting k # rs) xs"
  shows "runs (putIdle k c) (\<lambda>d. \<exists>ys. sys_inv d rs ys)"
proof -
  have t: "pool_tables (\<lambda>_. True) c xs" and k: "k < length (cl_objs c)" and n: "length (cl_objs c) < 2 ^ 38"
    using inv inv_about(1)[OF inv, of k] by (simp_all add: sys_inv_def tables_def known_def)
  show ?thesis
  proof (rule runs_mono[OF putIdle_runs[OF t k _ n]])
    fix d assume "pool_tables (\<lambda>_. True) d (absInsert (idleKey k c) k xs) \<and>
      (\<exists>sl r. d = (updPooled k (\<lambda>p. p\<lparr>ps_idleSince := cl_now c\<rparr>) c)\<lparr>cl_idleSession := sl, cl_rand := r\<rparr>)"
    then obtain sl r where d: "tables d (absInsert (idleKey k c) k xs)"
      "d = (updPooled k (\<lambda>p. p\<lparr>ps_idleSince := cl_now c\<rparr>) c)\<lparr>cl_idleSession := sl, cl_rand := r\<rparr>"
      by (auto simp: tables_def)
    have "snd ` set (absInsert (idleKey k c) k xs) \<subseteq> insert k (snd ` set xs)" by (auto simp: absInsert_def)
    then have "known d (absInsert (idleKey k c) k xs) [] \<subseteq> known c xs [Putting k]" by (auto simp: known_def d(2))
    then have "sys_inv d ([] @ rs) (absInsert (idleKey k c) k xs)"
      using k by (intro inv_still[OF inv d(1)]) (auto simp: still_def d(2))
    then show "\<exists>ys. sys_inv d rs ys" by auto
  qed simp
qed

lemma inv_unIdle:
  assumes inv: "sys_inv c (SessionEnded k # rs) xs"
  shows "runs (unIdle (idleKey k c) c) (\<lambda>d. \<exists>ys. sys_inv d (Unlisting k # rs) ys)"
proof -
  have "tables c xs" using inv by (simp add: sys_inv_def)
  then show ?thesis
  proof (rule runs_mono[OF unIdle_tables])
    fix d assume "tables d (absRemove (idleKey k c) xs) \<and> (\<exists>sl. d = c\<lparr>cl_idleSession := sl\<rparr>)"
    then obtain sl where d: "tables d (absRemove (idleKey k c) xs)" "d = c\<lparr>cl_idleSession := sl\<rparr>" by blast
    have "snd ` set (absRemove (idleKey k c) xs) \<subseteq> snd ` set xs" by (auto simp: absRemove_def)
    then have "known d (absRemove (idleKey k c) xs) [Unlisting k] \<subseteq> known c xs [SessionEnded k]" by (auto simp: known_def d(2))
    then have "sys_inv d ([Unlisting k] @ rs) (absRemove (idleKey k c) xs)"
      by (intro inv_still[OF inv d(1)]) (auto simp: still_def d(2))
    then show "\<exists>ys. sys_inv d (Unlisting k # rs) ys" by auto
  qed
qed

text \<open>A smaller session table.\<close>

lemma inv_forget:
  assumes inv: "sys_inv c (t # rs) xs" and m: "set m \<subseteq> set (cl_sessions c)" "distinct (map fst m)"
    and d: "d = c\<lparr>cl_sessions := m\<rparr>" and gone: "\<forall>k \<in> snd ` set m. \<not> ending k [t]"
    and ts': "\<And>k. debt k ts' = owed k t" "unshared ts' = []" "\<forall>u \<in> set ts'. thread_ok d u \<and> about u \<subseteq> known c xs [t]"
  shows "sys_inv d (ts' @ rs) xs"
proof (rule inv_still[OF inv _ _ ts'(1,2)])
  have "pool_tables (\<lambda>_. True) c xs" using inv by (simp add: sys_inv_def tables_def)
  then show "tables d xs"
    using m unfolding tables_def pool_tables_def idleKey_def d by (simp add: split_beta) blast
  show "known d xs ts' \<subseteq> known c xs [t]" using m(1) ts'(3) by (auto simp: known_def d)
qed (use m gone ts' in \<open>auto simp: still_def d\<close>)

lemma inv_unlisted:
  assumes inv: "sys_inv c (Unlisting k # rs) xs"
  shows "sys_inv (c\<lparr>cl_sessions := AList.delete (ps_seq (cl_objs c ! k)) (cl_sessions c)\<rparr>) rs xs"
proof -
  let ?m = "AList.delete (ps_seq (cl_objs c ! k)) (cl_sessions c)"
  have t: "pool_tables (\<lambda>_. True) c xs" using inv by (simp add: sys_inv_def tables_def)
  have m: "e \<in> set (cl_sessions c) \<and> fst e \<noteq> ps_seq (cl_objs c ! k)" if "e \<in> set ?m" for e
    using that by (auto simp: AList.delete_eq)
  have "snd e \<noteq> k" if "e \<in> set ?m" for e using m[OF that] pool_tables_entry(2)[OF t, of e] by auto
  then have "\<forall>j \<in> snd ` set ?m. \<not> ending j [Unlisting k]" by auto
  moreover have "distinct (map fst ?m)" using t by (simp add: pool_tables_def distinct_delete)
  ultimately have "sys_inv (c\<lparr>cl_sessions := ?m\<rparr>) ([] @ rs) xs"
    using m by (intro inv_forget[OF inv _ _ refl]) auto
  then show ?thesis by simp
qed

lemma inv_drained:
  assumes inv: "sys_inv c (Draining # rs) xs"
  shows "runs (threadStep w Draining c) (\<lambda>(ts', d). \<exists>ys. sys_inv d (ts' @ rs) ys)"
proof -
  have t: "tables c xs" using inv by (simp add: sys_inv_def)
  obtain it where it: "Iterate (cl_idleSession c) = Some it" "drain (cl_idleSession c) it = Some xs"
    using Iterate_refines[OF tables_sorted[OF t]] by blast
  let ?d = "c\<lparr>cl_idleSession := Clear (cl_idleSession c)\<rparr>"
  have "tables ?d []"
    using t skl.clear_ok[OF tables_sorted[OF t]] by (simp add: tables_def pool_tables_def)
  then have "sys_inv ?d ([Snapshotting (map snd xs)] @ rs) []"
    by (intro inv_still[OF inv]) (auto simp: still_def known_def)
  with it show ?thesis by auto
qed

lemma inv_expired:
  assumes inv: "sys_inv c ts xs" and k: "k \<in> known c xs ts"
  shows "sys_inv (updPooled k (pastDeadline (cl_now c)) c) ts xs"
proof -
  let ?s = "setConn (SetWriteDeadline (Some (cl_now c - second)) (ss_conn (sess c k))) (sess c k)"
  have "updPooled k (pastDeadline (cl_now c)) c = updPooled k (\<lambda>p. p\<lparr>ps_session := ?s\<rparr>) c"
    by (simp add: updPooled_def pastDeadline_def)
  then have m: "moveTo k ?s c = ([], updPooled k (pastDeadline (cl_now c)) c)"
    by (simp add: moveTo_def newEvents_def setConn_def)
  have "core ?s = core (sess c k)" by (simp add: core_def setConn_def SetWriteDeadline_def)
  then have "session_inv (sess c k) \<Longrightarrow> session_inv ?s" "grows (sess c k) ?s"
    using session_inv_frame grows_core by blast+
  from inv_moved[OF inv k m this] show ?thesis by (simp add: setConn_def)
qed

end
