(* ===== verification/Pool_System.thy ===== *)
theory Pool_System
  imports Pool_Threads_Steps
begin

text \<open>
  The interleaved pool as a whole: the invariant holds in every state it can reach, and no step of any
  thread crashes there.
\<close>

section \<open>Steps of threads\<close>

text \<open>A step that moves a session and goes on as \<open>u\<close>.\<close>

lemma inv_move_next:
  assumes inv: "sys_inv c (t # rs) xs" and k: "k \<in> about t" and m: "moveTo k s c = (hooks, d)"
    and s: "session_inv (sess c k) \<Longrightarrow> session_inv s" "grows (sess c k) s" "ss_activeStreams s = ss_activeStreams (sess c k)"
    and u: "\<And>j. owed j u = owed j t" "owned u = []" "\<And>e. thread_ok e u" "about u \<subseteq> about t" "\<And>j. \<not> ending j [t]"
  shows "sys_inv d (u # hooks @ rs) xs"
proof -
  have "sys_inv d (hooks @ t # rs) xs" by (rule inv_moved[OF inv _ m s]) (use k in \<open>auto simp: known_def\<close>)
  then have "sys_inv d (t # hooks @ rs) xs" by (simp only: sys_inv_rotate)
  moreover have "about u \<subseteq> known d xs [t]" using u(4) by (auto simp: known_def)
  ultimately show ?thesis using inv_next[of d t "hooks @ rs" xs "[u]"] u by simp
qed

lemma inv_close_next:
  assumes "sys_inv c (t # rs) xs" "k \<in> about t" "\<And>j. owed j u = owed j t" "owned u = []" "\<And>e. thread_ok e u"
    "about u \<subseteq> about t" "\<And>j. \<not> ending j [t]"
  shows "case apfst ((#) u) (closeOne k c) of (ts', d) \<Rightarrow> sys_inv d (ts' @ rs) xs"
proof -
  obtain hooks d where m: "moveTo k (snd (Close (sess c k))) c = (hooks, d)" by fastforce
  have "sys_inv d (u # hooks @ rs) xs"
    by (rule inv_move_next[OF assms(1,2) m _ _ _ assms(3-7)]) (simp_all add: session_inv_Close grows_Close)
  then show ?thesis by (simp add: closeOne_def m)
qed

lemma runs_case: "(case x of (ts', d) \<Rightarrow> sys_inv d (ts' @ rs) xs) \<Longrightarrow> runs (Some x) (\<lambda>(ts', d). \<exists>ys. sys_inv d (ts' @ rs) ys)"
  by auto

lemma leastLoadedSession_known:
  assumes "leastLoadedSession order c = Some k" "set (order (cl_sessions c)) = set (cl_sessions c)"
  shows "k \<in> known c xs ts"
  using leastLoadedSession_spec(2)[OF assms(2,1)] by (auto simp: known_def)

text \<open>The threads of \<open>CreateStream\<close>.\<close>

lemma create_keeps:
  assumes inv: "sys_inv c (t # rs) xs" and w: "world_ok w"
    and t: "t \<in> {Creating, Taking, Counting, Choosing} \<or> (\<exists>a k i r. t \<in> {Bumping a k, Opening a k, Failed a k i, RollingBack a k, GaveUp a k, Starting k, Answered r})"
  shows "runs (threadStep w t c) (\<lambda>(ts', d). \<exists>ys. sys_inv d (ts' @ rs) ys)"
proof -
  note on = inv_next[OF inv]
  have go: "runs (Some (ts', c)) (\<lambda>(ts', d). \<exists>ys. sys_inv d (ts' @ rs) ys)" if "sys_inv c (ts' @ rs) xs" for ts'
    using that by auto
  consider (creating) "t = Creating" | (taking) "t = Taking" | (counting) "t = Counting" | (choosing) "t = Choosing"
    | (bumping) a k where "t = Bumping a k" | (opened) a k where "t = Opening a k" | (refused) a k i where "t = Failed a k i"
    | (rolling) a k where "t = RollingBack a k" | (gave) a k where "t = GaveUp a k" | (starting) k where "t = Starting k"
    | (answered) r where "t = Answered r"
    using t by blast
  then show ?thesis
  proof cases
    case creating
    then show ?thesis using on[of "[Answered (Inl ErrClosedPipe)]"] on[of "[Taking]"] by auto
  next
    case taking
    have "tables c xs" using inv by (simp add: sys_inv_def)
    from getIdleSession_walks[OF this] show ?thesis
    proof (simp add: taking, elim runs_pair, elim conjE exE)
      fix res d ys assume w: "walked c xs d ys" and res: "\<forall>k. res = Some k \<longrightarrow> k \<in> snd ` set xs"
      let ?u = "case res of None \<Rightarrow> Counting | Some k \<Rightarrow> Bumping OnIdle k"
      have "sys_inv d ([?u] @ rs) ys"
        by (rule inv_walk[OF inv w]) (use res taking in \<open>auto split: option.split\<close>)
      then show "runs (case (res, d) of (idle, c) \<Rightarrow> Some ([case idle of None \<Rightarrow> Counting | Some k \<Rightarrow> Bumping OnIdle k], c))
          (\<lambda>(ts', d). \<exists>ys. sys_inv d (ts' @ rs) ys)" by auto
    qed
  next
    case counting
    then show ?thesis using on[of "[Choosing]"] on[of "[Dialling]"] by auto
  next
    case choosing
    have "set (w_order w (cl_sessions c)) = set (cl_sessions c)" using w by (simp add: world_ok_def)
    then have "k \<in> known c xs [Choosing]" if "leastLoadedSession (w_order w) c = Some k" for k
      using leastLoadedSession_known[OF that] by blast
    then have
      "sys_inv c ([case leastLoadedSession (w_order w) c of None \<Rightarrow> Dialling | Some k \<Rightarrow> Bumping OnReused k] @ rs) xs"
      by (intro on) (auto simp: choosing split: option.split)
    then show ?thesis by (auto simp: choosing)
  next
    case (bumping a k)
    have "sys_inv (addActive k 1 c) ([Opening a k] @ rs) xs"
      by (rule inv_count[OF inv]) (auto simp: bumping)
    then show ?thesis by (auto simp: bumping)
  next
    case (opened a k)
    from inv_openStep[OF inv[unfolded opened]] show ?thesis by (simp only: opened threadStep.simps runs_case)
  next
    case (refused a k i)
    have "thread_ok c (Failed a k i)" using inv by (simp add: sys_inv_def refused)
    then have "sys_inv c ([if i = None \<or> st_dieErr (ss_objs (sess c k) ! the i) = None then RollingBack a k else GaveUp a k] @ rs) xs"
      by (intro on; cases i) (auto simp: refused known_def dead_def)
    then show ?thesis by (auto simp: refused)
  next
    case (rolling a k)
    have "sys_inv (addActive k (- 1) c) ([GaveUp a k] @ rs) xs"
      by (rule inv_count[OF inv]) (auto simp: rolling)
    then show ?thesis by (auto simp: rolling)
  next
    case (gave a k)
    have "case giveUp a k c of (ts', d) \<Rightarrow> sys_inv d (ts' @ rs) xs"
      using on[of "[Dialling]"] inv_close_next[OF inv, of k Counting]
        inv_close_next[OF inv, of k "Answered (Inl (OtherError ''failed to create stream''))"]
      by (cases a) (auto simp: giveUp_def gave)
    then show ?thesis by (simp only: gave threadStep.simps runs_case)
  next
    case (starting k)
    obtain hooks d where m: "moveTo k (Run (sess c k)) c = (hooks, d)" by fastforce
    have "sys_inv d (Bumping OnFresh k # hooks @ rs) xs"
      by (rule inv_move_next[OF inv _ m]) (simp_all add: starting Run_inv grows_Run)
    then show ?thesis by (auto simp: starting m)
  next
    case (answered r)
    then show ?thesis using inv by auto
  qed
qed

text \<open>The hooks, and the operations on all sessions.\<close>

lemma hook_keeps:
  assumes inv: "sys_inv c (t # rs) xs" and t: "t \<in> {StreamEnded k, Judging k, Pooling k, Putting k, SessionEnded k, Unlisting k}"
  shows "runs (threadStep w t c) (\<lambda>(ts', d). \<exists>ys. sys_inv d (ts' @ rs) ys)"
proof -
  have k: "k \<in> known c xs (t # rs)" using t by (auto simp: known_def)
  have gone: "sys_inv (spawnClose k c) rs xs" "sys_inv c rs xs" if "t = Judging k \<or> t = Pooling k"
    using inv_next[OF sys_inv_spawn[OF inv k], of "[]"] inv_next[OF inv, of "[]"] that by auto
  consider (ended) "t = StreamEnded k" | (judging) "t = Judging k" | (pooling) "t = Pooling k" | (putting) "t = Putting k"
    | (died) "t = SessionEnded k" | (unlisting) "t = Unlisting k" using t by blast
  then show ?thesis
  proof cases
    case ended
    have "sys_inv (addActive k (- 1) c) (ts' @ rs) xs" if "ts' \<in> {[], [Judging k]}" for ts'
      by (rule inv_count[OF inv]) (use that in \<open>auto simp: ended\<close>)
    from this[of "[]"] this[of "[Judging k]"] show ?thesis by (auto simp: ended Let_def)
  next
    case judging
    have "sys_inv c ([Pooling k] @ rs) xs" by (rule inv_next[OF inv]) (auto simp: judging known_def)
    with gone show ?thesis by (auto simp: judging judge_def)
  next
    case pooling
    have "sys_inv c ([Putting k] @ rs) xs" by (rule inv_next[OF inv]) (auto simp: pooling known_def)
    with gone show ?thesis by (auto simp: pooling)
  next
    case putting
    from inv_putIdle[OF inv[unfolded putting]] show ?thesis
      by (simp add: putting) (elim runs_then, auto)
  next
    case died
    from inv_unIdle[OF inv[unfolded died]] show ?thesis
      by (simp add: died) (elim runs_then, auto)
  next
    case unlisting
    from inv_unlisted[OF inv[unfolded unlisting]] show ?thesis by (auto simp: unlisting)
  qed
qed

lemma list_keeps:
  assumes inv: "sys_inv c (t # rs) xs"
    and t: "(\<exists>ks. t = Closing ks) \<or> (\<exists>ks. t = SweptClosing ks) \<or> (\<exists>ks. t = Snapshotting ks) \<or> (\<exists>ks all. t = Expiring ks all)"
  shows "runs (threadStep w t c) (\<lambda>(ts', d). \<exists>ys. sys_inv d (ts' @ rs) ys)"
proof -
  note on = inv_next[OF inv]
  consider (closing) ks where "t = Closing ks" | (swept) ks where "t = SweptClosing ks" | (snapshot) ks where "t = Snapshotting ks"
    | (expiring) ks all where "t = Expiring ks all" using t by blast
  then show ?thesis
  proof cases
    case (closing ks)
    have "case (case ks of [] \<Rightarrow> ([], c) | k # ks \<Rightarrow> apfst ((#) (Closing ks)) (closeOne k c)) of (ts', d) \<Rightarrow> sys_inv d (ts' @ rs) xs"
      using on[of "[]"] inv_close_next[OF inv, of "hd ks" "Closing (tl ks)"] by (cases ks) (auto simp: closing subset_insertI)
    then show ?thesis unfolding closing threadStep.simps by (rule runs_case)
  next
    case (swept ks)
    have "case (case ks of [] \<Rightarrow> (if cl_die c then [] else [Sweeping], c)
                         | k # ks \<Rightarrow> apfst ((#) (SweptClosing ks)) (closeOne k c)) of (ts', d) \<Rightarrow> sys_inv d (ts' @ rs) xs"
      using on[of "[]"] on[of "[Sweeping]"] inv_close_next[OF inv, of "hd ks" "SweptClosing (tl ks)"]
      by (cases ks) (auto simp: swept subset_insertI)
    then show ?thesis unfolding swept threadStep.simps by (rule runs_case)
  next
    case (snapshot ks)
    let ?all = "map snd (cl_sessions c) @ ks"
    have "sys_inv c ([Expiring ?all ?all] @ rs) xs" by (rule on) (auto simp: snapshot known_def)
    then show ?thesis by (auto simp: snapshot Let_def)
  next
    case (expiring ks all)
    show ?thesis
    proof (cases ks)
      case Nil
      let ?d = "c\<lparr>cl_closing := cl_closing c @ all\<rparr>"
      have "tables ?d xs" using inv by (simp add: sys_inv_def tables_def pool_tables_def idleKey_def)
      then have "sys_inv ?d ([] @ rs) xs"
        by (intro inv_still[OF inv]) (auto simp: expiring still_def known_def)
      then show ?thesis by (auto simp: expiring Nil)
    next
      case (Cons k ks')
      have "sys_inv (updPooled k (pastDeadline (cl_now c)) c) (t # rs) xs"
        by (rule inv_expired[OF inv]) (simp add: expiring Cons known_def)
      from inv_next[OF this, of "[Expiring ks' all]"] show ?thesis
        by (auto simp: expiring Cons known_def)
    qed
  qed
qed

lemma pool_keeps:
  assumes inv: "sys_inv c (t # rs) xs"
    and t: "t \<in> {Sweeping, ShuttingDown, Emptying, Resetting, Draining} \<or> (\<exists>e. t = SweepingUntil e)"
  shows "runs (threadStep w t c) (\<lambda>(ts', d). \<exists>ys. sys_inv d (ts' @ rs) ys)"
proof -
  note on = inv_next[OF inv]
  have tab: "tables c xs" using inv by (simp add: sys_inv_def)
  consider (sweeping) "t = Sweeping" | (until) e where "t = SweepingUntil e" | (shutting) "t = ShuttingDown"
    | (emptying) "t = Emptying" | (resetting) "t = Resetting" | (draining) "t = Draining" using t by blast
  then show ?thesis
  proof cases
    case sweeping
    then show ?thesis using on[of "[SweepingUntil (cl_now c - cl_idleSessionTimeout c)]"] by auto
  next
    case (until e)
    obtain it where it: "Iterate (cl_idleSession c) = Some it" "positioned (cl_idleSession c) it [] xs"
      using positioned_start[OF tables_sorted[OF tab]] by blast
    have "tables c ([] @ xs)" using tab by simp
    from cleanupLoop_walks[OF it(2) this, of e 0 "[]"] have
      "runs (cleanupLoop e 0 [] it c) (\<lambda>(ks, d). (\<exists>ys. walked c xs d ys) \<and> set ks \<subseteq> snd ` set xs)" by simp
    then have "runs (cleanupLoop e 0 [] it c) (\<lambda>(ks, d). \<exists>ys. sys_inv d (SweptClosing ks # rs) ys)"
      by (rule runs_mono) (use inv_walk[OF inv, of _ _ "[SweptClosing _]"] until in auto)
    then show ?thesis using it(1) by (simp add: until) (elim runs_pair, auto)
  next
    case shutting
    have "tables (c\<lparr>cl_die := True\<rparr>) xs" using tab by (simp add: tables_def pool_tables_def idleKey_def)
    then have "sys_inv (c\<lparr>cl_die := True\<rparr>) ([Emptying] @ rs) xs"
      by (intro inv_still[OF inv]) (auto simp: shutting still_def known_def)
    then show ?thesis by (auto simp: shutting)
  next
    case emptying
    have "sys_inv (c\<lparr>cl_sessions := []\<rparr>) ([Closing (map snd (cl_sessions c))] @ rs) xs"
      by (rule inv_forget[OF inv _ _ refl]) (auto simp: emptying known_def)
    then show ?thesis by (auto simp: emptying)
  next
    case resetting
    then show ?thesis using on[of "[]"] on[of "[Draining]"] by auto
  next
    case draining
    show ?thesis unfolding draining by (rule inv_drained) (rule inv[unfolded draining])
  qed
qed

lemma dial_keeps:
  assumes inv: "sys_inv c (Dialling # rs) xs" and w: "world_ok w" and n: "length (cl_objs c) + 1 < 2 ^ 38"
  shows "runs (threadStep w Dialling c) (\<lambda>(ts', d). \<exists>ys. sys_inv d (ts' @ rs) ys)"
proof (cases "w_dialled w")
  case (Inl e)
  then show ?thesis
    using inv_next[OF inv, of "[Answered (Inl (OtherError ''failed to create session''))]"] by auto
next
  case (Inr u)
  with w have "\<not> c_closed u" by (simp add: world_ok_def)
  from inv_dialled[OF inv this n] Inr show ?thesis by auto
qed

lemma threadStep_keeps:
  assumes inv: "sys_inv c (t # rs) xs" and w: "world_ok w" and n: "t = Dialling \<Longrightarrow> length (cl_objs c) + 1 < 2 ^ 38"
  shows "runs (threadStep w t c) (\<lambda>(ts', d). \<exists>ys. sys_inv d (ts' @ rs) ys)"
proof (cases t)
  case Dialling
  with dial_keeps inv w n show ?thesis by simp
next
  case (Registering k)
  with inv_registered[of c k rs xs] inv show ?thesis by auto
qed (use create_keeps[OF inv w] hook_keeps[OF inv] list_keeps[OF inv] pool_keeps[OF inv] in blast)+

section \<open>Steps of the system\<close>

lemma sys_inv_frame:
  assumes "sys_inv c ts xs" "tables d xs" "cl_objs d = cl_objs c" "cl_sessions d = cl_sessions c" "set (cl_closing d) \<subseteq> set (cl_closing c)"
  shows "sys_inv d ts xs"
proof -
  have "thread_ok d t = thread_ok c t" for t by (cases "(c, t)" rule: thread_ok.cases) (simp_all add: assms(3))
  moreover have "known d xs ts \<subseteq> known c xs ts" using assms(4,5) by (auto simp: known_def)
  ultimately show ?thesis
    using assms unfolding sys_inv_def by (auto simp: sys_inv_def)
qed

lemma tables_frame:
  "tables c xs \<Longrightarrow> tables (c\<lparr>cl_now := now, cl_rand := r, cl_padding := pf\<rparr>) xs"
  "tables c xs \<Longrightarrow> tables (c\<lparr>cl_closing := ks\<rparr>) xs" "tables c xs \<Longrightarrow> tables (SetMigrationEnabled b c) xs"
  by (simp_all add: tables_def pool_tables_def idleKey_def SetMigrationEnabled_def)

lemma system_step_keeps:
  assumes "system_step md5 (c, ts) (d, us)" "sys_inv c ts xs"
  shows "\<exists>ys. sys_inv d us ys"
  using assms(1)
proof cases
  case (run_thread w t ts' as bs)
  have "sys_inv c (t # as @ bs) xs" using assms(2) by (simp only: run_thread(1) sys_inv_rotate)
  from threadStep_keeps[OF this run_thread(3,4)] obtain ys where "sys_inv d (ts' @ as @ bs) ys"
    using run_thread(5) by (auto simp: runs_def)
  moreover have "mset (ts' @ as @ bs) = mset us" by (simp add: run_thread(2))
  ultimately show ?thesis using sys_inv_perm by blast
next
  case (run_session k s hooks)
  let ?s = "s\<lparr>ss_activeStreams := ss_activeStreams (sess c k)\<rparr>"
  have inv: "session_inv (sess c k)" using assms(2) run_session(2) by (auto simp: sys_inv_def pooled_ok_def)
  have "grows (sess c k) ?s" using grows_step[OF run_session(4)] by (simp add: grows_def)
  then have "sys_inv d (hooks @ ts) xs"
    using assms(2) run_session(2,3) sess_step_inv[OF run_session(4) inv]
    by (intro moveTo_inv[OF run_session(5)]) (auto simp: sys_inv_def pooled_ok_def grows_def intro: order_less_le_trans)
  then show ?thesis using sys_inv_perm[of "hooks @ ts" us] by (auto simp: run_session(1))
next
  case (run_spawned k ks)
  have k: "k < length (cl_objs c)" "Registering k \<notin> set ts"
    using inv_about[OF assms(2), of k] run_spawned(3) by (simp_all add: known_def)
  have "tables d xs" using assms(2) tables_frame(2) by (simp add: sys_inv_def run_spawned(1))
  then have inv: "sys_inv d ts xs"
    by (rule sys_inv_frame[OF assms(2)]) (auto simp: run_spawned)
  have "sys_inv d (Closing [k] # ts) xs"
    by (rule sys_inv_add[OF inv]) (use k in \<open>auto simp: run_spawned(1)\<close>)
  then show ?thesis using sys_inv_perm[of "Closing [k] # ts" us] by (auto simp: run_spawned(2))
next
  case (run_call t)
  have "sys_inv c (t # ts) xs"
    using assms(2) run_call(3) by (auto simp: sys_inv_def known_def)
  then show ?thesis using sys_inv_perm[of "t # ts" us] by (auto simp: run_call(1,2))
next
  case (run_migration b)
  have "sys_inv d ts xs"
    using assms(2) tables_frame(3) by (intro sys_inv_frame[OF assms(2)])
      (auto simp: run_migration sys_inv_def SetMigrationEnabled_def)
  then show ?thesis by (auto simp: run_migration)
next
  case (run_world now r pf)
  have "sys_inv d ts xs"
    using assms(2) tables_frame(1) by (intro sys_inv_frame[OF assms(2)]) (auto simp: run_world sys_inv_def)
  then show ?thesis by (auto simp: run_world)
qed

lemma NewClient_sys: "\<exists>xs. sys_inv (snd (NewClient pf ci to mi ms hi hq ht now r)) [Sweeping] xs"
proof -
  have "represents (NewSkipList :: (u64, nat) SkipList) []"
    unfolding NewSkipList_def by (rule represents_init) (simp add: cmp_ok_def)
  then have "sys_inv (snd (NewClient pf ci to mi ms hi hq ht now r)) [Sweeping] []"
    by (simp add: NewClient_def Let_def sys_inv_def tables_def pool_tables_def known_def)
  then show ?thesis by blast
qed

lemma system_reachable_inv:
  assumes "system_reachable md5 (c, ts)"
  obtains xs where "sys_inv c ts xs"
proof -
  have "system_reachable md5 x \<Longrightarrow> \<exists>xs. sys_inv (fst x) (snd x) xs" for x
  proof (induction rule: system_reachable.induct)
    case (sys_more x y)
    then show ?case using system_step_keeps[of md5 "fst x" "snd x" "fst y" "snd y"] by auto
  qed (use NewClient_sys in simp)
  with assms that show ?thesis by fastforce
qed

section \<open>What the pool promises whatever overlaps\<close>

lemma returns:
  assumes "sys_inv c ts xs" "t \<in> set ts" "world_ok w" "t = Dialling \<Longrightarrow> length (cl_objs c) + 1 < 2 ^ 38"
  shows "threadStep w t c \<noteq> None"
proof -
  obtain us vs where "ts = us @ t # vs" using assms(2) by (auto simp: in_set_conv_decomp)
  with assms(1) have "sys_inv c (t # us @ vs) xs" by (simp only: sys_inv_rotate)
  from threadStep_keeps[OF this assms(3,4)] show ?thesis by (auto simp: runs_def)
qed

text \<open>
  Property C5.  Whatever the overlap of calls, hooks, cleanups and session steps, the stream counter of every
  session is the number of its living streams plus the increments threads still owe a decrement or a
  stream for; every entry of the two tables stands under its own key, a closed session stays in the
  session table only while its die hook is on its way, and no step of any thread crashes.
\<close>

theorem pool_threads_invariant:
  assumes "system_reachable md5 (c, ts)"
  shows "\<exists>xs. represents (cl_idleSession c) xs \<and>
    (\<forall>e \<in> set xs. snd e < length (cl_objs c) \<and> fst e = idleKey (snd e) c) \<and>
    (\<forall>e \<in> set (cl_sessions c). snd e < length (cl_objs c) \<and> fst e = ps_seq (cl_objs c ! snd e) \<and>
       (IsClosed (sess c (snd e)) \<longrightarrow> SessionEnded (snd e) \<in> set ts \<or> Unlisting (snd e) \<in> set ts)) \<and>
    (\<forall>k < length (cl_objs c). ss_activeStreams (sess c k) =
       int (length (filter (\<lambda>i. st_dieErr (ss_objs (sess c k) ! i) = None) (ps_opened (cl_objs c ! k)))) +
       int (sum_list (map (owed k) ts))) \<and>
    (\<forall>t \<in> set ts. \<forall>w. world_ok w \<and> (t = Dialling \<longrightarrow> length (cl_objs c) + 1 < 2 ^ 38) \<longrightarrow> threadStep w t c \<noteq> None)"
proof -
  obtain xs where inv: "sys_inv c ts xs" using assms by (rule system_reachable_inv)
  then have t: "pool_tables (\<lambda>_. True) c xs" by (simp add: sys_inv_def tables_def)
  have "ss_activeStreams (sess c k) =
       int (length (filter (\<lambda>i. st_dieErr (ss_objs (sess c k) ! i) = None) (ps_opened (cl_objs c ! k)))) + int (debt k ts)"
    if "k < length (cl_objs c)" for k
  proof -
    have ok: "pooled_ok (cl_objs c ! k) (int (debt k ts))" using inv that by (simp add: sys_inv_def)
    then have "filter (\<lambda>i. \<not> dead (ss_objs (sess c k)) i) (ps_opened (cl_objs c ! k)) =
        filter (\<lambda>i. st_dieErr (ss_objs (sess c k) ! i) = None) (ps_opened (cl_objs c ! k))"
      by (intro filter_cong) (auto simp: pooled_ok_def dead_def)
    with ok show ?thesis by (simp add: pooled_ok_def living_def)
  qed
  moreover have "IsClosed (sess c (snd e)) \<longrightarrow> SessionEnded (snd e) \<in> set ts \<or> Unlisting (snd e) \<in> set ts"
    if "e \<in> set (cl_sessions c)" for e
    using inv that unfolding sys_inv_def ending_def IsClosed_def by blast
  ultimately show ?thesis
    using pool_tables_entry[OF t] t returns[OF inv] unfolding debt_def pool_tables_def by blast
qed

end
