(* ===== verification/Pool_Schedule.thy ===== *)
theory Pool_Schedule
  imports Pool_System
begin

text \<open>
  The operations of \<open>Pool\<close> are schedules of the interleaved pool: an operation that runs alone, with the
  hooks it fires, does to the client what its function says.
\<close>

section \<open>Schedules\<close>

abbreviation steps :: "(bytes \<Rightarrow> string) \<Rightarrow> pool_sys \<Rightarrow> pool_sys \<Rightarrow> bool" where
  "steps md5 \<equiv> (system_step md5)\<^sup>*\<^sup>*"

definition calm :: world where
  "calm = \<lparr>w_order = id, w_dialled = Inl ErrClosedPipe, w_seesClosed = True, w_seesBroken = True\<rparr>"

lemma calm_ok: "world_ok calm" "world_ok (calm\<lparr>w_seesClosed := b\<rparr>)"
  by (simp_all add: calm_def world_ok_def)

lemma step_thread:
  "threadStep w t c = Some (ts', d) \<Longrightarrow> world_ok w \<Longrightarrow> t \<noteq> Dialling \<Longrightarrow> steps md5 (c, us @ t # vs) (d, us @ ts' @ vs)"
  by (rule r_into_rtranclp, rule run_thread) simp_all

lemma step_calm:
  "threadStep calm t c = Some (ts', d) \<Longrightarrow> t \<noteq> Dialling \<Longrightarrow> steps md5 (c, us @ t # vs) (d, us @ ts' @ vs)"
  by (rule step_thread[OF _ calm_ok(1)])

lemma steps_reach: "steps md5 x y \<Longrightarrow> system_reachable md5 x \<Longrightarrow> system_reachable md5 y"
  by (induction rule: rtranclp_induct) (auto intro: sys_more)

section \<open>Hooks\<close>

lemma putIdle_same: "putIdle k c = Some d \<Longrightarrow> k < length (cl_objs c) \<Longrightarrow> sameObjs c d"
  by (auto simp: putIdle_def Let_def sameObjs_updActive split: bind_splits)

lemma streamDieHook_same:
  assumes "streamDieHook k closed c = Some d" "k < length (cl_objs c)"
  shows "sameObjs c d"
proof -
  let ?c = "addActive k (- 1) c"
  have same: "sameObjs c ?c" and k: "k < length (cl_objs ?c)" using assms(2) by (simp_all add: sameObjs_updActive addActive_session)
  have "d = ?c \<or> d = spawnClose k ?c \<or> putIdle k ?c = Some d"
    using assms(1) by (auto simp: streamDieHook_def Let_def split: if_splits)
  then show ?thesis using same sameObjs_updActive(6)[of c k ?c] sameObjs_trans[OF same putIdle_same[OF _ k]] by blast
qed

lemma sessionDieHook_same: "sessionDieHook k c = Some d \<Longrightarrow> sameObjs c d"
  by (auto simp: sessionDieHook_def unIdle_def sameObjs_updActive split: bind_splits)

lemma streamDieHook_schedule:
  assumes "streamDieHook k closed c = Some d" "k < length (cl_objs c)" "closed \<longrightarrow> ss_closed (sess c k)"
  shows "steps md5 (c, us @ StreamEnded k # vs) (d, us @ vs)"
proof -
  let ?c = "addActive k (- 1) c"
  let ?w = "calm\<lparr>w_seesClosed := closed\<rparr>"
  have cl: "ss_closed (sess ?c k) = ss_closed (sess c k)" using assms(2) by (simp add: addActive_session)
  show ?thesis
  proof (cases "ss_activeStreams (sess ?c k) > 0")
    case True
    then have "d = ?c" using assms(1) by (simp add: streamDieHook_def Let_def)
    then show ?thesis using step_calm[of "StreamEnded k" c "[]" d md5 us vs] True by (simp add: Let_def)
  next
    case False
    have "steps md5 (c, us @ StreamEnded k # vs) (?c, us @ [Judging k] @ vs)"
      by (rule step_calm) (simp_all add: Let_def False)
    also have "steps md5 (?c, us @ [Judging k] @ vs) (d, us @ vs)"
    proof -
      have j: "threadStep ?w (Judging k) ?c = Some (judge closed (ss_connBroken (sess ?c k)) k ?c)"
        using assms(3) cl by (auto simp: calm_def IsClosed_def)
      show ?thesis
      proof (cases "\<not> closed \<and> \<not> ss_connBroken (sess ?c k)")
        case True
        have "steps md5 (?c, us @ Judging k # vs) (?c, us @ [Pooling k] @ vs)"
          by (rule step_thread[OF _ calm_ok(2)[of closed]]) (use j True in \<open>simp_all add: judge_def\<close>)
        also have "steps md5 (?c, us @ [Pooling k] @ vs) (d, us @ vs)"
        proof (cases "cl_die ?c")
          case die: True
          then have "d = spawnClose k ?c" using assms(1) False True by (simp add: streamDieHook_def Let_def)
          then show ?thesis using step_calm[of "Pooling k" ?c "[]" d md5 us vs] die by simp
        next
          case alive: False
          then have put: "putIdle k ?c = Some d" using assms(1) False True by (simp add: streamDieHook_def Let_def)
          have "steps md5 (?c, us @ Pooling k # vs) (?c, us @ [Putting k] @ vs)"
            by (rule step_calm) (simp_all add: alive)
          also have "steps md5 (?c, us @ [Putting k] @ vs) (d, us @ vs)"
            using step_calm[of "Putting k" ?c "[]" d md5 us vs] put by simp
          finally show ?thesis by simp
        qed
        finally show ?thesis by simp
      next
        case gone: False
        then have "judge closed (ss_connBroken (sess ?c k)) k ?c = ([], d)"
          using assms(1) False by (auto simp: streamDieHook_def judge_def Let_def)
        then show ?thesis using step_thread[OF _ calm_ok(2), of closed "Judging k" ?c "[]" d md5 us vs] j by simp
      qed
    qed
    finally show ?thesis .
  qed
qed

lemma sessionDieHook_schedule:
  assumes "sessionDieHook k c = Some d"
  shows "steps md5 (c, us @ SessionEnded k # vs) (d, us @ vs)"
proof -
  obtain e where e: "unIdle (idleKey k c) c = Some e" "d = e\<lparr>cl_sessions := AList.delete (ps_seq (cl_objs e ! k)) (cl_sessions e)\<rparr>"
    using assms by (auto simp: sessionDieHook_def split: bind_splits)
  have "steps md5 (c, us @ SessionEnded k # vs) (e, us @ [Unlisting k] @ vs)"
    by (rule step_calm) (simp_all add: e(1))
  also have "steps md5 (e, us @ [Unlisting k] @ vs) (d, us @ vs)"
    using step_calm[of "Unlisting k" e "[]" d md5 us vs] by (simp add: e(2))
  finally show ?thesis .
qed

lemma hookOf_cases:
  "e = EvSessionDied \<Longrightarrow> hookOf k opened e = [SessionEnded k]"
  "e \<noteq> EvSessionDied \<Longrightarrow> e \<in> EvStreamDied ` set opened \<Longrightarrow> hookOf k opened e = [StreamEnded k]"
  "e \<noteq> EvSessionDied \<Longrightarrow> e \<notin> EvStreamDied ` set opened \<Longrightarrow> hookOf k opened e = []"
  by (simp_all add: hookOf_def)

lemma fireHooks_schedule:
  assumes "fireHooks k closed es c = Some d" "k < length (cl_objs c)" "closed \<or> EvSessionDied \<in> set es \<longrightarrow> ss_closed (sess c k)"
  shows "steps md5 (c, us @ concat (map (hookOf k (ps_opened (cl_objs c ! k))) es) @ vs) (d, us @ vs)"
  using assms
proof (induction es arbitrary: closed c)
  case (Cons e es)
  let ?opened = "ps_opened (cl_objs c ! k)"
  have later: "steps md5 (f, us @ concat (map (hookOf k ?opened) es) @ vs) (d, us @ vs)"
    if f: "fireHooks k closed' es f = Some d" "sameObjs c f" "closed' \<longrightarrow> ss_closed (sess c k)" for closed' f
  proof -
    have "k < length (cl_objs f)" "ss_closed (sess f k) = ss_closed (sess c k)" "ps_opened (cl_objs f ! k) = ?opened"
      using f(2) Cons.prems(2) sameObjs_sess[OF f(2) Cons.prems(2)] by (simp_all add: sameObjs_def)
    with Cons.IH[OF f(1)] f(3) Cons.prems(3) show ?thesis by simp
  qed
  show ?case
  proof (cases "e = EvSessionDied")
    case True
    then obtain f where f: "sessionDieHook k c = Some f" "fireHooks k True es f = Some d"
      using Cons.prems(1) by (auto split: bind_splits)
    have "steps md5 (c, us @ SessionEnded k # concat (map (hookOf k ?opened) es) @ vs) (f, us @ concat (map (hookOf k ?opened) es) @ vs)"
      by (rule sessionDieHook_schedule[OF f(1)])
    also have "steps md5 \<dots> (d, us @ vs)"
      using later[OF f(2) sessionDieHook_same[OF f(1)]] Cons.prems(3) True by simp
    finally show ?thesis using hookOf_cases(1)[OF True] by simp
  next
    case other: False
    show ?thesis
    proof (cases "e \<in> EvStreamDied ` set ?opened")
      case True
      then obtain f where f: "streamDieHook k closed c = Some f" "fireHooks k closed es f = Some d"
        using Cons.prems(1) other by (auto split: bind_splits)
      have "steps md5 (c, us @ StreamEnded k # concat (map (hookOf k ?opened) es) @ vs) (f, us @ concat (map (hookOf k ?opened) es) @ vs)"
        by (rule streamDieHook_schedule[OF f(1) Cons.prems(2)]) (use Cons.prems(3) in simp)
      also have "steps md5 \<dots> (d, us @ vs)"
        using later[OF f(2) streamDieHook_same[OF f(1) Cons.prems(2)]] Cons.prems(3) by simp
      finally show ?thesis using hookOf_cases(2)[OF other True] by simp
    next
      case False
      then have "fireHooks k closed es c = Some d" using Cons.prems(1) other by simp
      from later[OF this] Cons.prems(3) hookOf_cases(3)[OF other False] show ?thesis by simp
    qed
  qed
qed simp

text \<open>A session moves, and its hooks run.\<close>

lemma sessionMoved_schedule:
  assumes "sessionMoved k s c = Some d" "k < length (cl_objs c)" "session_inv (sess c k)" "session_inv s" "grows (sess c k) s"
    and m: "moveTo k s c = (hooks, e)"
  shows "steps md5 (e, us @ hooks @ vs) (d, us @ vs)"
proof -
  have e: "e = updPooled k (\<lambda>p. p\<lparr>ps_session := s\<rparr>) c"
    "hooks = concat (map (hookOf k (ps_opened (cl_objs e ! k))) (newEvents (sess c k) s))"
    using m assms(2) by (auto simp: moveTo_def)
  have "IsClosed (sess c k) \<or> EvSessionDied \<in> set (newEvents (sess c k) s) \<longrightarrow> ss_closed (sess e k)"
    using new_deaths(3,4)[OF assms(3-5)] count_list_0_iff[of "newEvents (sess c k) s" EvSessionDied] assms(2)
    by (auto simp: IsClosed_def e(1) split: if_splits)
  then show ?thesis
    using assms(1,2) unfolding e(2) by (intro fireHooks_schedule) (auto simp: sessionMoved_def e(1))
qed

section \<open>Operations\<close>

lemma wellWith_session: "wellWith n c \<Longrightarrow> k < n \<Longrightarrow> k < length (cl_objs c) \<and> session_inv (sess c k)"
  by (auto simp: wellWith_def pool_inv_def pooled_ok_def)

lemma closeSession_schedule:
  assumes "closeSession k c = Some d" "wellWith n c" "k < n" "closeOne k c = (hooks, e)"
  shows "steps md5 (e, us @ hooks @ vs) (d, us @ vs)"
  using assms(1,4) wellWith_session[OF assms(2,3)]
  by (intro sessionMoved_schedule[of k "snd (Close (sess c k))" c])
    (simp_all add: closeSession_def closeOne_def session_inv_Close grows_Close)

text \<open>A thread that closes session \<open>k\<close> and goes on as \<open>u\<close>.\<close>

lemma closing_schedule:
  assumes "closeSession k c = Some d" "wellWith n c" "k < n"
    and "threadStep calm t c = Some (apfst ((#) u) (closeOne k c))" "t \<noteq> Dialling"
  shows "steps md5 (c, us @ t # vs) (d, us @ u # vs)"
proof -
  obtain hooks e where e: "closeOne k c = (hooks, e)" by fastforce
  have "steps md5 (c, us @ t # vs) (e, us @ (u # hooks) @ vs)"
    by (rule step_calm) (use assms(4,5) e in simp_all)
  also have "steps md5 (e, us @ (u # hooks) @ vs) (d, us @ u # vs)"
    using closeSession_schedule[OF assms(1-3) e, of md5 "us @ [u]" vs] by simp
  finally show ?thesis .
qed

definition opened :: "attempt \<Rightarrow> nat \<Rightarrow> go_error + nat \<Rightarrow> thread" where
  "opened a k res = (case res of Inr i \<Rightarrow> Answered (Inr (k, i)) | Inl e \<Rightarrow> GaveUp a k)"

lemma openOn_schedule:
  assumes o': "openOn k c = Some (res, d)" and w: "wellWith n c" "k < n"
  shows "steps md5 (c, us @ Bumping a k # vs) (d, us @ opened a k res # vs)"
proof -
  let ?c1 = "addActive k 1 c"
  have k: "k < length (cl_objs c)" "session_inv (sess ?c1 k)"
    using wellWith_session[OF w] by (simp_all add: addActive_session)
  obtain i err s where op: "OpenStream (sess ?c1 k) = ((i, err), s)" by (metis prod.collapse)
  define c0 where "c0 = updPooled k (\<lambda>p. p\<lparr>ps_opened := ps_opened p @ (case i of None \<Rightarrow> [] | Some i \<Rightarrow> [i])\<rparr>) ?c1"
  obtain e where e: "sessionMoved k s c0 = Some e"
    and res: "res = (case err of None \<Rightarrow> Inr (the i) | Some er \<Rightarrow> Inl er)"
      "d = (if err \<noteq> None \<and> (i = None \<or> st_dieErr (ss_objs (sess e k) ! the i) = None) then addActive k (- 1) e else e)"
    using o' op by (auto simp: openOn_def Let_def c0_def split: bind_splits option.splits)
  obtain hooks f where m: "moveTo k s c0 = (hooks, f)" by fastforce
  let ?u = "case err of None \<Rightarrow> Answered (Inr (k, the i)) | Some er \<Rightarrow> Failed a k i"
  have s: "session_inv s" "grows (sess c0 k) s"
    using op OpenStream_inv[OF k(2)] grows_OpenStream[of "sess ?c1 k" "sess ?c1 k"] k(1)
    by (simp_all add: c0_def addActive_session)
  have c0: "k < length (cl_objs c0)" "session_inv (sess c0 k)" using k by (simp_all add: c0_def addActive_session)
  have "steps md5 (c, us @ Bumping a k # vs) (?c1, us @ [Opening a k] @ vs)"
    by (rule step_calm) simp_all
  also have "steps md5 (?c1, us @ [Opening a k] @ vs) (f, us @ (?u # hooks) @ vs)"
    using step_calm[of "Opening a k" ?c1 "?u # hooks" f md5 us vs] op m by (simp add: openStep_def flip: c0_def)
  also have "steps md5 (f, us @ (?u # hooks) @ vs) (e, us @ ?u # vs)"
    using sessionMoved_schedule[OF e c0 s m, of md5 "us @ [?u]" vs] by simp
  also have "steps md5 (e, us @ ?u # vs) (d, us @ opened a k res # vs)"
  proof (cases err)
    case None
    then show ?thesis by (simp add: res opened_def)
  next
    case (Some er)
    have "steps md5 (e, us @ RollingBack a k # vs) (addActive k (- 1) e, us @ [GaveUp a k] @ vs)"
      by (rule step_calm) simp_all
    moreover have "steps md5 (e, us @ Failed a k i # vs)
        (e, us @ [if i = None \<or> st_dieErr (ss_objs (sess e k) ! the i) = None then RollingBack a k else GaveUp a k] @ vs)"
      by (rule step_calm) simp_all
    ultimately show ?thesis
      using Some by (auto simp: res opened_def intro: rtranclp_trans)
  qed
  finally show ?thesis .
qed

lemma createSession_schedule:
  assumes c: "createSession (Inr u) c = Some (Inr k, d)" and w: "wellWith n c" "n + 1 < 2 ^ 38" "\<not> c_closed u"
  shows "steps md5 (c, us @ Dialling # vs) (d, us @ Bumping OnFresh k # vs)"
proof -
  let ?w = "calm\<lparr>w_dialled := Inr u\<rparr>"
  let ?s = "(NewClientSession u (cl_padding c) (cl_now c) (cl_rand c))\<lparr>ss_migActive := cl_migEnabled c\<rparr>"
  have n: "length (cl_objs c) = n" using w(1) by (simp add: wellWith_def)
  define e where "e = (addDialled u c)\<lparr>cl_sessions := AList.update (ps_seq (cl_objs (addDialled u c) ! n)) n (cl_sessions (addDialled u c))\<rparr>"
  have e: "e = withSession ?s c" by (simp add: e_def addDialled_def withSession_def Let_def flip: n)
  have k: "k = n" "sessionMoved n (Run ?s) e = Some d"
    using c n unfolding e by (auto simp: createSession_def withSession_def Let_def split: bind_splits)
  obtain hooks f where m: "moveTo n (Run ?s) e = (hooks, f)" by fastforce
  have "pooled_ok (cl_objs (addDialled u c) ! n) 0" using dialled_new(1)[OF w(3), of c] n by simp
  then have s: "session_inv ?s" by (simp add: pooled_ok_def addDialled_def Let_def flip: n)
  have sn: "sess e n = ?s" "n < length (cl_objs e)" by (simp_all add: e withSession_def flip: n)
  have "steps md5 (c, us @ Dialling # vs) (addDialled u c, us @ [Registering n] @ vs)"
    by (rule r_into_rtranclp, rule run_thread[of ?w]) (use w n in \<open>simp_all add: calm_def world_ok_def\<close>)
  also have "steps md5 (addDialled u c, us @ [Registering n] @ vs) (e, us @ [Starting n] @ vs)"
    using step_calm[of "Registering n" "addDialled u c" "[Starting n]" e md5 us vs] by (simp add: e_def)
  also have "steps md5 (e, us @ [Starting n] @ vs) (f, us @ (Bumping OnFresh n # hooks) @ vs)"
    using step_calm[of "Starting n" e "Bumping OnFresh n # hooks" f md5 us vs] m by (simp add: sn)
  also have "steps md5 (f, us @ (Bumping OnFresh n # hooks) @ vs) (d, us @ Bumping OnFresh n # vs)"
    using sessionMoved_schedule[OF k(2) sn(2) _ _ _ m, of md5 "us @ [Bumping OnFresh n]" vs] s
    by (simp add: sn(1) Run_inv grows_Run)
  finally show ?thesis by (simp add: k(1))
qed

section \<open>Creating a stream\<close>

lemma tryIdle_schedule:
  assumes r: "tryIdle c = Some (found, d)" and w: "wellWith n c" "n < 2 ^ 38"
  shows "steps md5 (c, us @ Taking # vs) (d, us @ (case found of None \<Rightarrow> Counting | Some st \<Rightarrow> Answered (Inr st)) # vs)"
proof -
  obtain idle e where i: "getIdleSession c = Some (idle, e)"
    using r by (auto simp: tryIdle_def split: bind_splits)
  have we: "wellWith n e" "\<forall>k. idle = Some k \<longrightarrow> k < n"
    using runs_Some_D[OF getIdleSession_well[OF w(1)] i] by simp_all
  have take': "steps md5 (c, us @ Taking # vs) (e, us @ [case idle of None \<Rightarrow> Counting | Some k \<Rightarrow> Bumping OnIdle k] @ vs)"
    by (rule step_calm) (simp_all add: i)
  show ?thesis
  proof (cases idle)
    case None
    then show ?thesis using r i take' by (simp add: tryIdle_def)
  next
    case (Some k)
    have k: "k < n" using we(2) Some by simp
    obtain res f where o': "openOn k e = Some (res, f)" using r i Some by (auto simp: tryIdle_def split: bind_splits)
    have wf: "wellWith n f" using runs_Some_D[OF openOn_well[OF we(1) k w(2)] o'] by simp
    have "steps md5 (c, us @ Taking # vs) (f, us @ opened OnIdle k res # vs)"
      using take' openOn_schedule[OF o' we(1) k, of md5 us OnIdle vs] Some by simp
    also have "steps md5 (f, us @ opened OnIdle k res # vs)
        (d, us @ (case found of None \<Rightarrow> Counting | Some st \<Rightarrow> Answered (Inr st)) # vs)"
    proof (cases res)
      case (Inl er)
      then have "closeSession k f = Some d" "found = None"
        using r i Some o' by (auto simp: tryIdle_def split: bind_splits)
      with closing_schedule[OF _ wf k, of d "GaveUp OnIdle k" Counting md5 us vs] Inl show ?thesis
        by (simp add: opened_def giveUp_def)
    next
      case (Inr i')
      then show ?thesis using r i Some o' by (auto simp: tryIdle_def opened_def)
    qed
    finally show ?thesis .
  qed
qed

lemma tryReuse_schedule:
  assumes r: "tryReuse order c = Some (found, d)" and w: "wellWith n c" "n < 2 ^ 38" and o': "\<And>es. set (order es) = set es"
  shows "steps md5 (c, us @ Counting # vs) (d, us @ (case found of None \<Rightarrow> Dialling | Some st \<Rightarrow> Answered (Inr st)) # vs)"
proof (cases "cl_maxSession c > 0 \<and> activeSessionCount c \<ge> cl_maxSession c")
  case False
  have "steps md5 (c, us @ Counting # vs) (c, us @ [Dialling] @ vs)"
    by (rule step_calm) (use False in simp_all)
  then show ?thesis using r False by (simp add: tryReuse_def)
next
  case True
  let ?w = "calm\<lparr>w_order := order\<rparr>"
  have "steps md5 (c, us @ Counting # vs) (c, us @ [Choosing] @ vs)"
    by (rule step_calm) (use True in simp_all)
  moreover have "steps md5 (c, us @ Choosing # vs)
      (c, us @ [case leastLoadedSession order c of None \<Rightarrow> Dialling | Some k \<Rightarrow> Bumping OnReused k] @ vs)"
    by (rule step_thread[of ?w]) (simp_all add: calm_def world_ok_def o')
  ultimately have choose: "steps md5 (c, us @ Counting # vs)
      (c, us @ [case leastLoadedSession order c of None \<Rightarrow> Dialling | Some k \<Rightarrow> Bumping OnReused k] @ vs)" by simp
  show ?thesis
  proof (cases "leastLoadedSession order c")
    case None
    then show ?thesis using choose r True by (simp add: tryReuse_def)
  next
    case (Some k)
    obtain res e where op: "openOn k c = Some (res, e)" using r True Some by (auto simp: tryReuse_def split: bind_splits)
    have k: "k < n"
      using leastLoadedSession_spec(2)[OF o' Some] w(1) pool_inv_sessions(1) unfolding wellWith_def by fastforce
    have "steps md5 (c, us @ Counting # vs) (e, us @ opened OnReused k res # vs)"
      using choose openOn_schedule[OF op w(1) k, of md5 us OnReused vs] Some by simp
    also have "steps md5 (e, us @ opened OnReused k res # vs)
        (d, us @ (case found of None \<Rightarrow> Dialling | Some st \<Rightarrow> Answered (Inr st)) # vs)"
      using r True Some op step_calm[of "GaveUp OnReused k" e "[Dialling]" e md5 us vs]
      by (cases res) (auto simp: tryReuse_def opened_def giveUp_def)
    finally show ?thesis .
  qed
qed

lemma fresh_schedule:
  assumes c: "createSession (Inr u) c = Some (Inr k, e)" "openOn k e = Some (res, f)"
    and d: "case res of Inr i \<Rightarrow> ans = Inr (k, i) \<and> d = f
            | Inl er \<Rightarrow> ans = Inl (OtherError ''failed to create stream'') \<and> closeSession k f = Some d"
    and w: "wellWith n c" "n + 1 < 2 ^ 38" "\<not> c_closed u"
  shows "steps md5 (c, us @ Dialling # vs) (d, us @ Answered ans # vs)"
proof -
  have we: "wellWith (Suc n) e" "k < Suc n"
    using runs_Some_D[OF createSession_well[OF w(1,2)] c(1)] w(3) by simp_all
  have n: "Suc n < 2 ^ 38" using w(2) by simp
  have wf: "wellWith (Suc n) f" using runs_Some_D[OF openOn_well[OF we n] c(2)] by simp
  have "steps md5 (c, us @ Dialling # vs) (e, us @ Bumping OnFresh k # vs)"
    by (rule createSession_schedule[OF c(1) w])
  also have "steps md5 (e, us @ Bumping OnFresh k # vs) (f, us @ opened OnFresh k res # vs)"
    by (rule openOn_schedule[OF c(2) we])
  also have "steps md5 (f, us @ opened OnFresh k res # vs) (d, us @ Answered ans # vs)"
    using d closing_schedule[OF _ wf we(2), of d "GaveUp OnFresh k" "Answered ans" md5 us vs]
    by (cases res) (auto simp: opened_def giveUp_def)
  finally show ?thesis .
qed

lemma create_stream_schedule:
  assumes r: "CreateStream order dialled c = Some (res, d)" and reach: "pool_reachable md5 c"
    and o': "\<And>es. set (order es) = set es" and u: "\<forall>u. dialled = Inr u \<longrightarrow> \<not> c_closed u"
    and n: "length (cl_objs c) + 1 < 2 ^ 38"
  shows "steps md5 (c, us @ [Creating] @ vs) (d, us @ [Answered res] @ vs)"
proof (cases "cl_die c")
  case True
  have "steps md5 (c, us @ Creating # vs) (c, us @ [Answered (Inl ErrClosedPipe)] @ vs)"
    by (rule step_calm) (simp_all add: True)
  then show ?thesis using r True by (simp add: CreateStream_def)
next
  case False
  let ?n = "length (cl_objs c)"
  have w: "wellWith ?n c" "?n < 2 ^ 38"
    using pool_reachable_well[OF reach] n by (auto simp: pool_well_def wellWith_def)
  obtain f1 c1 where t1: "tryIdle c = Some (f1, c1)" using r False by (auto simp: CreateStream_def split: bind_splits)
  have w1: "wellWith ?n c1" using runs_Some_D[OF tryIdle_well[OF w] t1] by simp
  have "steps md5 (c, us @ Creating # vs) (c, us @ [Taking] @ vs)"
    by (rule step_calm) (simp_all add: False)
  then have s1: "steps md5 (c, us @ Creating # vs) (c1, us @ (case f1 of None \<Rightarrow> Counting | Some st \<Rightarrow> Answered (Inr st)) # vs)"
    using tryIdle_schedule[OF t1 w, of md5 us vs] by simp
  show ?thesis
  proof (cases f1)
    case (Some st)
    then show ?thesis using s1 r False t1 by (auto simp: CreateStream_def)
  next
    case None
    obtain f2 c2 where t2: "tryReuse order c1 = Some (f2, c2)"
      using r False t1 None by (auto simp: CreateStream_def split: bind_splits)
    have w2: "wellWith ?n c2" using runs_Some_D[OF tryReuse_well[OF w1 w(2)] t2] o' by simp
    have s2: "steps md5 (c, us @ Creating # vs) (c2, us @ (case f2 of None \<Rightarrow> Dialling | Some st \<Rightarrow> Answered (Inr st)) # vs)"
      using s1 None tryReuse_schedule[OF t2 w1 w(2) o', of md5 us vs] by simp
    show ?thesis
    proof (cases f2)
      case (Some st)
      then show ?thesis using s2 r False t1 None t2 by (auto simp: CreateStream_def)
    next
      case none: None
      then have r': "createSession dialled c2 \<bind> (\<lambda>(made, c). case made of
                  Inl e \<Rightarrow> Some (Inl (OtherError ''failed to create session''), c)
                | Inr k \<Rightarrow> do {
                    (res, c) \<leftarrow> openOn k c;
                    case res of
                      Inr i \<Rightarrow> Some (Inr (k, i), c)
                    | Inl e \<Rightarrow> do { c \<leftarrow> closeSession k c; Some (Inl (OtherError ''failed to create stream''), c) } }) = Some (res, d)"
        using r False t1 None t2 by (simp add: CreateStream_def)
      have "steps md5 (c2, us @ Dialling # vs) (d, us @ Answered res # vs)"
      proof (cases dialled)
        case (Inl er)
        then have "res = Inl (OtherError ''failed to create session'')" "d = c2" using r' by (auto simp: createSession_def)
        moreover have "steps md5 (c2, us @ Dialling # vs) (c2, us @ [Answered (Inl (OtherError ''failed to create session''))] @ vs)"
          by (rule r_into_rtranclp, rule run_thread[of "calm\<lparr>w_dialled := Inl er\<rparr>"])
            (use w2 n in \<open>simp_all add: calm_def world_ok_def wellWith_def\<close>)
        ultimately show ?thesis by simp
      next
        case (Inr u')
        obtain k e where cs: "createSession dialled c2 = Some (Inr k, e)"
          using r' Inr by (auto simp: createSession_def Let_def split: bind_splits)
        then obtain r2 f where op: "openOn k e = Some (r2, f)" using r' by (auto split: bind_splits)
        have "case r2 of Inr i \<Rightarrow> res = Inr (k, i) \<and> d = f
            | Inl er \<Rightarrow> res = Inl (OtherError ''failed to create stream'') \<and> closeSession k f = Some d"
          using r' cs op by (cases r2) (auto split: bind_splits)
        from fresh_schedule[OF cs[unfolded Inr] op this w2 n] u Inr show ?thesis by blast
      qed
      with s2 none show ?thesis by simp
    qed
  qed
qed

section \<open>Closing\<close>

lemma closeSessions_schedule:
  assumes "closeSessions ks c = Some d" "wellWith n c" "\<forall>k \<in> set ks. k < n" "n < 2 ^ 38"
    and t: "t \<in> {Closing, SweptClosing}"
  shows "steps md5 (c, us @ t ks # vs) (d, us @ t [] # vs)"
  using assms(1-3)
proof (induction ks arbitrary: c)
  case (Cons k ks)
  obtain e where e: "closeSession k c = Some e" "closeSessions ks e = Some d"
    using Cons.prems(1) by (auto split: bind_splits)
  have k: "k < n" using Cons.prems(3) by simp
  have "wellWith n e" using runs_Some_D[OF closeSession_well[OF Cons.prems(2) k assms(4)] e(1)] .
  then have "steps md5 (e, us @ t ks # vs) (d, us @ t [] # vs)" using Cons.IH[OF e(2)] Cons.prems(3) by simp
  moreover have "steps md5 (c, us @ t (k # ks) # vs) (e, us @ t ks # vs)"
    by (rule closing_schedule[OF e(1) Cons.prems(2) k]) (use t in auto)
  ultimately show ?case by (rule rtranclp_trans[rotated])
qed simp

lemma closing_done:
  "steps md5 (c, us @ Closing [] # vs) (c, us @ vs)"
  "steps md5 (c, us @ SweptClosing [] # vs) (c, us @ (if cl_die c then [] else [Sweeping]) @ vs)"
  using step_calm[of "Closing []" c "[]" c md5 us vs]
    step_calm[of "SweptClosing []" c "if cl_die c then [] else [Sweeping]" c md5 us vs] by simp_all

lemma pool_close_schedule:
  assumes "poolClose c = Some d" "wellWith n c" "n < 2 ^ 38"
  shows "steps md5 (c, us @ [ShuttingDown] @ vs) (d, us @ vs)"
proof -
  let ?c = "c\<lparr>cl_die := True\<rparr>" and ?e = "c\<lparr>cl_die := True, cl_sessions := []\<rparr>" and ?ks = "map snd (cl_sessions c)"
  obtain xs where xs: "pool_inv c xs" "length (cl_objs c) = n" using assms(2) by (auto simp: wellWith_def)
  have "pool_inv ?e xs" by (rule pool_inv_same[OF xs(1)]) simp_all
  then have w: "wellWith n ?e" using xs(2) by (auto simp: wellWith_def)
  have ks: "\<forall>k \<in> set ?ks. k < n" using pool_inv_sessions(1)[OF xs(1)] xs(2) by auto
  have "steps md5 (c, us @ ShuttingDown # vs) (?c, us @ [Emptying] @ vs)"
    by (rule step_calm) simp_all
  also have "steps md5 (?c, us @ [Emptying] @ vs) (?e, us @ [Closing ?ks] @ vs)"
    using step_calm[of Emptying ?c "[Closing ?ks]" ?e md5 us vs] by simp
  also have "steps md5 (?e, us @ [Closing ?ks] @ vs) (d, us @ Closing [] # vs)"
    using closeSessions_schedule[OF _ w ks assms(3), of d Closing md5 us vs] assms(1) by (simp add: poolClose_def)
  also have "steps md5 (d, us @ Closing [] # vs) (d, us @ vs)" by (rule closing_done)
  finally show ?thesis by simp
qed

lemma idle_cleanup_schedule:
  assumes "idleCleanup c = Some d" "wellWith n c" "n < 2 ^ 38"
  shows "steps md5 (c, us @ [Sweeping] @ vs) (d, us @ (if cl_die d then [] else [Sweeping]) @ vs)"
proof -
  let ?exp = "cl_now c - cl_idleSessionTimeout c"
  obtain it ks e where l: "Iterate (cl_idleSession c) = Some it" "cleanupLoop ?exp 0 [] it c = Some (ks, e)" "closeSessions ks e = Some d"
    using assms(1) by (auto simp: idleCleanup_def idleCleanupExpTime_def split: bind_splits)
  obtain xs where xs: "pool_inv c xs" "length (cl_objs c) = n" using assms(2) by (auto simp: wellWith_def)
  obtain it' where it': "Iterate (cl_idleSession c) = Some it'" "positioned (cl_idleSession c) it' [] xs"
    using positioned_start[OF pool_inv_rep[OF xs(1)]] by blast
  have "pool_inv c ([] @ xs)" using xs(1) by simp
  from cleanupLoop_spec[OF it'(2) this, of ?exp 0 "[]"] l(1,2) it'(1) obtain ys where
    e: "ks = fst (sweep c ?exp 0 xs)" "pool_inv e ys" "quiet c e" by auto
  have w: "wellWith n e" using e xs(2) by (auto simp: wellWith_def quiet_def)
  have "\<forall>k \<in> set ks. k < n" using sweep_closed[of _ c ?exp 0 xs] pool_inv_sessions(2)[OF xs(1)] xs(2) by (fastforce simp: e(1))
  note closes = closeSessions_schedule[OF l(3) w this assms(3), of SweptClosing md5 us vs]
  have "steps md5 (c, us @ Sweeping # vs) (c, us @ [SweepingUntil ?exp] @ vs)"
    by (rule step_calm) simp_all
  also have "steps md5 (c, us @ [SweepingUntil ?exp] @ vs) (e, us @ [SweptClosing ks] @ vs)"
    using step_calm[of "SweepingUntil ?exp" c "[SweptClosing ks]" e md5 us vs] l by simp
  also have "steps md5 (e, us @ [SweptClosing ks] @ vs) (d, us @ SweptClosing [] # vs)"
    using closes by simp
  also have "steps md5 (d, us @ SweptClosing [] # vs) (d, us @ (if cl_die d then [] else [Sweeping]) @ vs)" by (rule closing_done)
  finally show ?thesis by simp
qed

lemma expiring_schedule:
  "steps md5 (c, us @ Expiring ks all # vs)
    ((fold (\<lambda>k. updPooled k (pastDeadline (cl_now c))) ks c)\<lparr>cl_closing := cl_closing c @ all\<rparr>, us @ vs)"
proof (induction ks arbitrary: c)
  case Nil
  then show ?case using step_calm[of "Expiring [] all" c "[]" "c\<lparr>cl_closing := cl_closing c @ all\<rparr>" md5 us vs] by simp
next
  case (Cons k ks)
  let ?c = "updPooled k (pastDeadline (cl_now c)) c"
  have "steps md5 (c, us @ Expiring (k # ks) all # vs) (?c, us @ [Expiring ks all] @ vs)"
    by (rule step_calm) simp_all
  with Cons.IH[of ?c] show ?case by (simp add: rtranclp_trans)
qed

lemma reset_schedule:
  assumes "Reset c = Some d"
  shows "steps md5 (c, us @ [Resetting] @ vs) (d, us @ vs)"
proof (cases "cl_die c")
  case True
  then show ?thesis using step_calm[of Resetting c "[]" c md5 us vs] assms by (simp add: Reset_def)
next
  case False
  let ?e = "c\<lparr>cl_idleSession := Clear (cl_idleSession c)\<rparr>"
  obtain it idle where it: "Iterate (cl_idleSession c) = Some it" "drain (cl_idleSession c) it = Some idle"
    "d = (let ks = map snd (cl_sessions c) @ map snd idle; f = fold (\<lambda>k. updPooled k (pastDeadline (cl_now c))) ks ?e
      in f\<lparr>cl_closing := cl_closing f @ ks\<rparr>)"
    using assms False by (auto simp: Reset_def Let_def split: bind_splits)
  let ?ks = "map snd (cl_sessions c) @ map snd idle"
  have "steps md5 (c, us @ Resetting # vs) (c, us @ [Draining] @ vs)"
    by (rule step_calm) (simp_all add: False)
  also have "steps md5 (c, us @ [Draining] @ vs) (?e, us @ [Snapshotting (map snd idle)] @ vs)"
    using step_calm[of Draining c "[Snapshotting (map snd idle)]" ?e md5 us vs] it by simp
  also have "steps md5 (?e, us @ [Snapshotting (map snd idle)] @ vs) (?e, us @ [Expiring ?ks ?ks] @ vs)"
    using step_calm[of "Snapshotting (map snd idle)" ?e "[Expiring ?ks ?ks]" ?e md5 us vs] by (simp add: Let_def)
  also have "steps md5 (?e, us @ [Expiring ?ks ?ks] @ vs) (d, us @ vs)"
    using expiring_schedule[of md5 ?e us ?ks ?ks vs] by (simp add: it(3) Let_def del: fold_append)
  finally show ?thesis by simp
qed


end
