(* ===== verification/Pool_Races.thy ===== *)
theory Pool_Races
  imports Pool_Schedule Pool_Sample Session_Guard
begin

text \<open>
  Three schedules of the interleaved pool in which overlapping operations do what none of them means to
  do, and the sample system on which the promises of the interleaved pool are instantiated.
\<close>

section \<open>A sample system\<close>

lemma reach_calm:
  "threadStep calm t c = Some (ts', d) \<Longrightarrow> t \<noteq> Dialling \<Longrightarrow> system_reachable md5 (c, us @ t # vs) \<Longrightarrow>
    system_reachable md5 (d, us @ ts' @ vs)"
  using steps_reach[OF step_calm] by blast

lemma reach_call: "system_reachable md5 (c, ts) \<Longrightarrow> system_reachable md5 (c, ts @ [Creating])"
  by (rule sys_more, assumption, rule run_call) simp

lemma sample_pool_simps:
  "cl_objs sample_pool = []" "cl_sessions sample_pool = []" "\<not> cl_die sample_pool" "cl_maxSession sample_pool = 1"
  "cl_sessionCounter sample_pool = 0" "cl_idleSession sample_pool = NewSkipList" "cl_closing sample_pool = []"
  "cl_padding sample_pool = sample_pf" "cl_now sample_pool = 100" "cl_rand sample_pool = []" "\<not> cl_migEnabled sample_pool"
  by (simp_all add: sample_pool_def NewClient_def Let_def)

lemma no_idle: "represents (cl_idleSession c) [] \<Longrightarrow> threadStep w Taking c = Some ([Counting], c)"
  by (simp add: getIdleSession_Nil)

lemma sample_system: "system_reachable md5 (sample_pool, [Sweeping])"
  unfolding sample_pool_def by (rule sys_new)

lemma system_busy: "system_reachable md5 (pool_busy, [Sweeping, Answered (Inr (0, 0))])"
proof -
  have "steps md5 (sample_pool, [Sweeping] @ [Creating] @ []) (pool_busy, [Sweeping] @ [Answered (Inr (0, 0))] @ [])"
  proof (rule create_stream_schedule[OF pool_busy_created[of id]])
    show "pool_reachable md5 sample_pool" unfolding sample_pool_def by (rule reach_new)
  qed (simp_all add: quietConn_def sample_pool_simps)
  from steps_reach[OF this] reach_call[OF sample_system] show ?thesis by simp
qed

section \<open>A session that has not been run\<close>

text \<open>What a client session that opens a stream before its settings has on the wire, the server refuses.\<close>

lemma early_syn_refused:
  assumes "framed s" "ss_buffer s = []" "outgoing s = [newFrame cmdSYN sid]"
  shows "\<exists>s1. recvLoop md5 (NewServerSession (quietConn (wire (ss_conn s))) pf now r) = (None, snd (Close s1)) \<and> ss_objs s1 = []"
proof -
  let ?s = "NewServerSession (quietConn (wire (ss_conn s))) pf now r" and ?f = "newFrame cmdSYN sid"
  obtain ws where ws: "\<forall>f \<in> set ws. wire_ok f" "wire (ss_conn s) = encodeFrames ws"
    using assms(1) by (auto simp: framed_def)
  then have "payload_frames ws = [?f]"
    using assms(2,3) by (simp add: outgoing_def decodeFrames_append[of ws "[]", simplified])
  from payload_first[OF this ws(1)] obtain us vs where
    u: "ws = us @ ?f # vs" "\<forall>u \<in> set us. wire_ok u \<and> f_cmd u = cmdWaste" "wire_ok ?f" by blast
  have new: "healthy ?s" "\<not> ss_isClient ?s" "\<not> ss_receivedSettings ?s" "listening ?s" "ss_objs ?s = []" "inp ?s = encodeFrames us @ encodeFrame ?f @ encodeFrames vs"
    using ws(2) u(1) by (simp_all add: NewServerSession_def newSession_def newRecordShaper_def quietConn_def healthy_def listening_def
        flushed_def unbuffered_def Let_def split_beta)
  have fr: "framed ?s" unfolding NewServerSession_def by (rule framed_new) (simp add: quietConn_def)
  let ?t = "setIn (encodeFrame ?f @ encodeFrames vs) ?s"
  have run: "recvLoop md5 ?s = recvLoop md5 ?t" by (rule waste_run[OF new(4,6) u(2)])
  have "unannounced ?f ?t" using new(3) by (simp add: unannounced_def newFrame_def)
  moreover have "healthy ?t" "framed ?t" using new(1) fr by simp_all
  ultimately obtain s1 where "recvLoop md5 ?t = (None, snd (Close s1))" "ss_objs s1 = ss_objs ?t"
    using unannounced_refused[of ?t ?f "encodeFrames vs" md5] new(2) u(3) by auto
  with run new(5) show ?thesis by auto
qed

lemma sample_session_facts:
  "healthy sample_session" "framed sample_session" "ss_objs sample_session = []" "ss_streams sample_session = []"
  "ss_streamId sample_session = 0" "\<not> ss_connBroken sample_session" "ss_activeStreams sample_session = 0"
  "\<not> ss_migActive sample_session" "outgoing sample_session = []"
proof -
  show fr: "framed sample_session"
    unfolding sample_session_def NewClientSession_def by (rule framed_new) (simp add: quietConn_def)
  show "healthy sample_session" "ss_objs sample_session = []" "ss_streams sample_session = []"
    "ss_streamId sample_session = 0" "\<not> ss_connBroken sample_session" "ss_activeStreams sample_session = 0"
    "\<not> ss_migActive sample_session" "outgoing sample_session = []"
    by (simp_all add: sample_session_def NewClientSession_def newSession_def newRecordShaper_def quietConn_def healthy_def listening_def
        flushed_def unbuffered_def outgoing_def payload_frames_def wire_def Let_def split_beta)
qed

lemma early_open:
  "\<exists>s. OpenStream (sample_session\<lparr>ss_activeStreams := 1\<rparr>) = ((Some 0, None), s) \<and> ss_trace s = [] \<and>
    outgoing s = [newFrame cmdSYN 1] \<and> framed s \<and> ss_buffer s = []"
proof -
  define s0 where "s0 = sample_session\<lparr>ss_activeStreams := 1, ss_streamId := 1,
     ss_objs := [\<lparr>st_id = 1, st_dieErr = None, st_synTimer = False, st_frameSeq = 0, st_reported = False, st_mig = False\<rparr>],
     ss_streams := [(1, 0)]\<rparr>"
  have s0: "healthy s0" "framed s0" "outgoing s0 = []"
    using sample_session_facts by (simp_all add: s0_def healthy_def listening_def flushed_def unbuffered_def framed_def outgoing_def)
  have ok: "wire_ok (newFrame cmdSYN 1)" by (simp add: wire_ok_def newFrame_def)
  from control_outgoing[OF s0(1,2) ok] obtain s where
    w: "writeControlFrame (newFrame cmdSYN 1) s0 = ((0, None), s)" "answered s0 s" "framed s" "outgoing s = [newFrame cmdSYN 1]"
    using s0(3) by (auto simp: payload_frames_def newFrame_def)
  have closed: "\<not> IsClosed sample_session" "\<not> ss_buffering s" "ss_buffer s = []" "ss_trace s = []"
    using w(2) sample_session_facts(1) sample_trace
    by (auto simp: answered_def healthy_def listening_def flushed_def unbuffered_def IsClosed_def s0_def)
  moreover have "\<not> (2 :: u32) \<le> 1" by (simp add: word_le_nat_alt)
  ultimately have "OpenStream (sample_session\<lparr>ss_activeStreams := 1\<rparr>) = ((Some 0, None), s\<lparr>ss_buffering := False\<rparr>)"
    using w(1) sample_session_facts
    by (simp add: OpenStream_def IsClosed_def newStream_def Let_def flip: s0_def)
  moreover have "s\<lparr>ss_buffering := False\<rparr> = s" using closed(2) by simp
  ultimately show ?thesis using w closed by simp
qed

text \<open>The pool after a dial, and with the session registered but not run.\<close>

definition pool_dialled :: Client where
  "pool_dialled = sample_pool\<lparr>cl_sessionCounter := 1,
     cl_objs := [\<lparr>ps_session = sample_session, ps_seq = 1, ps_idleSince = 0, ps_opened = []\<rparr>]\<rparr>"

definition pool_listed :: Client where
  "pool_listed = pool_dialled\<lparr>cl_sessions := [(1, 0)]\<rparr>"

lemma pool_listed_simps:
  "cl_objs pool_listed = [\<lparr>ps_session = sample_session, ps_seq = 1, ps_idleSince = 0, ps_opened = []\<rparr>]"
  "cl_sessions pool_listed = [(1, 0)]" "cl_maxSession pool_listed = 1" "\<not> cl_die pool_listed"
  "cl_idleSession pool_listed = NewSkipList"
  by (simp_all add: pool_listed_def pool_dialled_def sample_pool_simps)

lemma new_list: "represents (NewSkipList :: (u64, nat) SkipList) []"
  by (simp add: NewSkipList_def represents_init cmp_ok_def)

lemma system_listed: "system_reachable md5 (pool_listed, [Sweeping, Starting 0, Creating])"
proof -
  let ?u = "quietConn []" and ?r = "system_reachable md5"
  let ?w = "calm\<lparr>w_dialled := Inr ?u\<rparr>"
  have "(NewClientSession ?u sample_pf 100 [])\<lparr>ss_migActive := False\<rparr> = sample_session"
    by (simp add: sample_session_def NewClientSession_def newSession_def Let_def split_beta)
  then have d: "addDialled ?u sample_pool = pool_dialled"
    by (simp add: addDialled_def pool_dialled_def sample_pool_simps Let_def)
  have "?r (sample_pool, [Sweeping] @ Creating # [Creating])"
    using reach_call[OF reach_call[OF sample_system]] by simp
  then have "?r (sample_pool, [Sweeping] @ [Taking] @ [Creating])"
    by (rule reach_calm[rotated 2]) (simp_all add: sample_pool_simps)
  then have "?r (sample_pool, [Sweeping] @ [Counting] @ [Creating])"
    using new_list by (intro reach_calm[OF no_idle]) (simp_all add: sample_pool_simps)
  then have "?r (sample_pool, [Sweeping] @ [Dialling] @ [Creating])"
    by (intro reach_calm[of Counting]) (simp_all add: sample_pool_simps activeSessionCount_def)
  then have "?r (pool_dialled, [Sweeping] @ [Registering 0] @ [Creating])"
    by (rule sys_more) (use d in \<open>simp add: run_thread[of ?w Dialling sample_pool "[Registering 0]" pool_dialled md5 "[Sweeping]" "[Creating]", simplified]
      calm_def world_ok_def quietConn_def sample_pool_simps\<close>)
  then show ?thesis
    using reach_calm[of "Registering 0" pool_dialled "[Starting 0]" pool_listed md5 "[Sweeping]" "[Creating]"]
    by (simp add: pool_listed_def) (simp add: pool_dialled_def sample_pool_simps)
qed

definition pool_bumped :: Client where
  "pool_bumped = pool_listed\<lparr>cl_objs :=
     [\<lparr>ps_session = sample_session\<lparr>ss_activeStreams := 1\<rparr>, ps_seq = 1, ps_idleSince = 0, ps_opened = []\<rparr>]\<rparr>"

text \<open>The second caller has chosen the session and announced a stream.\<close>

lemma system_bumped: "system_reachable md5 (pool_bumped, [Sweeping, Starting 0, Opening OnReused 0])"
proof -
  let ?r = "system_reachable md5" and ?us = "[Sweeping, Starting 0]"
  have l: "leastLoadedSession id pool_listed = Some 0"
    using sample_session_facts(1,6)
    by (simp add: leastLoadedSession_def lighter_def pool_listed_simps unusable_def IsClosed_def healthy_def listening_def)
  have b: "addActive 0 1 pool_listed = pool_bumped"
    using sample_session_facts(7) by (simp add: addActive_def updPooled_def pool_listed_simps pool_bumped_def)
  have "?r (pool_listed, ?us @ Creating # [])" using system_listed by simp
  then have "?r (pool_listed, ?us @ [Taking] @ [])"
    by (rule reach_calm[rotated 2]) (simp_all add: pool_listed_simps)
  then have "?r (pool_listed, ?us @ [Counting] @ [])"
    using new_list by (intro reach_calm[OF no_idle]) (simp_all add: pool_listed_simps)
  then have "?r (pool_listed, ?us @ [Choosing] @ [])"
    by (intro reach_calm[of Counting]) (simp_all add: pool_listed_simps activeSessionCount_def)
  then show ?thesis
    using reach_calm[of Choosing pool_listed "[Bumping OnReused 0]" pool_listed md5 ?us "[]"]
      reach_calm[of "Bumping OnReused 0" pool_listed "[Opening OnReused 0]" pool_bumped md5 ?us "[]"] l b
    by (simp add: calm_def)
qed

text \<open>
  Property C27.  A second caller at the cap is handed the session a first caller has registered but not
  yet run: its stream request goes out before the settings, and the server answers with an alert and
  ends the session.
\<close>

theorem unstarted_session_is_shared:
  "\<exists>c ts k i. system_reachable md5 (c, ts) \<and> Starting k \<in> set ts \<and> Answered (Inr (k, i)) \<in> set ts \<and>
     outgoing (sess c k) = [newFrame cmdSYN 1] \<and>
     (\<forall>pf now r. \<exists>s1. recvLoop md5 (NewServerSession (quietConn (wire (ss_conn (sess c k)))) pf now r) = (None, snd (Close s1))
        \<and> ss_objs s1 = [])"
proof -
  let ?r = "system_reachable md5" and ?us = "[Sweeping, Starting 0]"
  obtain s where s: "OpenStream (sample_session\<lparr>ss_activeStreams := 1\<rparr>) = ((Some 0, None), s)" "ss_trace s = []"
    "outgoing s = [newFrame cmdSYN 1]" "framed s" "ss_buffer s = []" using early_open by blast
  let ?d = "pool_listed\<lparr>cl_objs := [\<lparr>ps_session = s, ps_seq = 1, ps_idleSince = 0, ps_opened = [0]\<rparr>]\<rparr>"
  have "openStep OnReused 0 pool_bumped = ([Answered (Inr (0, 0))], ?d)"
    using s(1,2) by (simp add: openStep_def moveTo_def updPooled_def newEvents_def pool_bumped_def)
  then have "?r (?d, ?us @ [Answered (Inr (0, 0))])"
    using reach_calm[of "Opening OnReused 0" pool_bumped "[Answered (Inr (0, 0))]" ?d md5 ?us "[]"] system_bumped by simp
  then show ?thesis
    using s(3) early_syn_refused[OF s(4,5,3)] by (intro exI[of _ ?d] exI[of _ "?us @ [Answered (Inr (0, 0))]"] exI[of _ 0]) auto
qed

section \<open>A session that is reused while the cleanup closes it\<close>

lemma sample_reopened:
  "\<exists>s. OpenStream (sample_ended\<lparr>ss_activeStreams := 1\<rparr>) = ((Some 1, None), s) \<and> ss_trace s = ss_trace sample_ended \<and>
    ss_activeStreams s = 1 \<and> ss_streams s = [(2, 1)] \<and> length (ss_objs s) = 2 \<and> st_dieErr (ss_objs s ! 1) = None \<and> \<not> unusable s"
proof -
  define s0 where "s0 = sample_ended\<lparr>ss_activeStreams := 1, ss_streamId := 2,
     ss_objs := ss_objs sample_ended @ [\<lparr>st_id = 2, st_dieErr = None, st_synTimer = False, st_frameSeq = 0, st_reported = False,
       st_mig = False\<rparr>], ss_streams := [(2, Suc 0)]\<rparr>"
  have "healthy s0" "wire_ok (newFrame cmdSYN 2)"
    using sample_ended_facts(5) by (simp_all add: s0_def healthy_def listening_def flushed_def unbuffered_def wire_ok_def newFrame_def)
  from control_answered[OF this] obtain s where
    w: "writeControlFrame (newFrame cmdSYN 2) s0 = ((0, None), s)" "answered s0 s" by (auto simp: newFrame_def)
  obtain rs r where s: "s = s0\<lparr>ss_shaper := rs, ss_rand := r\<rparr>" "healthy s" using w(2) by (auto simp: answered_def)
  have "\<not> (2 :: byte) \<le> 0" by (simp add: word_le_nat_alt)
  then have "OpenStream (sample_ended\<lparr>ss_activeStreams := 1\<rparr>) = ((Some 1, None), s\<lparr>ss_buffering := False\<rparr>)"
    using w(1) sample_ended_facts by (simp add: OpenStream_def IsClosed_def newStream_def Let_def flip: s0_def)
  moreover have "s\<lparr>ss_buffering := False\<rparr> = s" using s(2) by (simp add: healthy_def flushed_def unbuffered_def)
  ultimately show ?thesis
    using sample_ended_facts(2,3,7) by (intro exI[of _ s]) (simp add: s(1) s0_def nth_append unusable_def IsClosed_def)
qed

lemma system_late:
  assumes "sessionMoved 0 sample_ended pool_busy = Some (pool_idle sl r)"
  shows "system_reachable md5 (pool_late sl r, [Sweeping, Answered (Inr (0, 0))])"
proof -
  let ?r = "system_reachable md5" and ?ts = "[Sweeping, Answered (Inr (0, 0))]"
  obtain hooks e where m: "moveTo 0 sample_ended pool_busy = (hooks, e)" by fastforce
  note st = sample_idle_step[OF assms]
  have same: "sample_ended\<lparr>ss_activeStreams := ss_activeStreams (sess pool_busy 0)\<rparr> = sample_ended" using st(2) by simp
  have k: "0 < length (cl_objs pool_busy)" by (simp add: pool_busy_def)
  have "system_step md5 (pool_busy, ?ts) (e, ?ts @ hooks)"
    by (rule run_session[OF k _ st(1)]) (simp_all only: same m, simp)
  then have "?r (e, ?ts @ hooks)" by (rule sys_more[OF system_busy])
  moreover have inv: "session_inv (sess pool_busy 0)"
    using pool_reachable_well[OF pool_busy_reachable] k by (auto simp: pool_well_def wellWith_def pool_inv_def pooled_ok_def)
  have "steps md5 (e, ?ts @ hooks @ []) (pool_idle sl r, ?ts @ [])"
    using st(1) by (intro sessionMoved_schedule[OF assms k inv _ _ m]) (simp_all add: sess_step_inv[OF _ inv] grows_step)
  ultimately have "?r (pool_idle sl r, ?ts)" using steps_reach by fastforce
  then show ?thesis unfolding pool_late_def by (rule sys_more) (rule run_world)
qed

text \<open>The cleanup has picked the idle session and released the lock.\<close>

lemma system_swept:
  "\<exists>c. system_reachable md5 (c, [SweptClosing [0], Answered (Inr (0, 0))]) \<and> represents (cl_idleSession c) [] \<and>
     length (cl_objs c) = 1 \<and> sess c 0 = sample_ended\<lparr>ss_activeStreams := 0\<rparr> \<and> cl_sessions c = [(1, 0)] \<and> cl_maxSession c = 1 \<and>
     \<not> cl_die c"
proof -
  obtain sl r where p: "sessionMoved 0 sample_ended pool_busy = Some (pool_idle sl r)" "represents sl [(- 2, 0)]"
    using sample_fallen by blast
  let ?c = "pool_late sl r" and ?rest = "[Answered (Inr (0, 0))]"
  have inv: "pool_inv ?c ([] @ [(- 2, 0)])" using pool_late_reachable(2)[OF p] by simp
  obtain it where it: "Iterate (cl_idleSession ?c) = Some it" "positioned (cl_idleSession ?c) it [] [(- 2, 0)]"
    using positioned_start[OF pool_inv_rep[OF inv]] by auto
  have "sweep ?c 30000000000 0 [(- 2, 0)] = ([0], [])"
    using sample_ended_facts by (simp add: pool_late_simps unusable_def IsClosed_def)
  with cleanupLoop_spec[OF it(2) inv, of 30000000000 0 "[]"] obtain d where
    d: "cleanupLoop 30000000000 0 [] it ?c = Some ([0], d)" "pool_inv d []" "quiet ?c d" by auto
  have "system_reachable md5 (?c, [] @ Sweeping # ?rest)" using system_late[OF p(1)] by simp
  then have "system_reachable md5 (?c, [] @ [SweepingUntil 30000000000] @ ?rest)"
    by (rule reach_calm[rotated 2]) (simp_all add: pool_late_simps)
  then have "system_reachable md5 (d, [] @ [SweptClosing [0]] @ ?rest)"
    by (intro reach_calm[of "SweepingUntil 30000000000"]) (simp_all add: it(1) d(1))
  with d(2,3) pool_inv_rep show ?thesis
    by (intro exI[of _ d]) (auto simp: quiet_def pool_late_simps)
qed

text \<open>
  Property C26.  The cleanup closes sessions after it has released the lock under which it found them idle: a
  caller at the cap can be handed such a session in between, and its fresh stream dies with the session
  although its counter says one.
\<close>

theorem cleanup_closes_reused_session:
  "\<exists>c ts d us k i. system_reachable md5 (c, ts) \<and> SweptClosing [k] \<in> set ts \<and> Answered (Inr (k, i)) \<in> set ts \<and>
     ss_activeStreams (sess c k) = 1 \<and> \<not> unusable (sess c k) \<and> st_dieErr (ss_objs (sess c k) ! i) = None \<and>
     system_step md5 (c, ts) (d, us) \<and> IsClosed (sess d k) \<and> st_dieErr (ss_objs (sess d k) ! i) \<noteq> None"
proof -
  let ?r = "system_reachable md5" and ?us = "[SweptClosing [0], Answered (Inr (0, 0))]"
  obtain c where c: "?r (c, ?us)" "represents (cl_idleSession c) []" "length (cl_objs c) = 1"
    "sess c 0 = sample_ended\<lparr>ss_activeStreams := 0\<rparr>" "cl_sessions c = [(1, 0)]" "cl_maxSession c = 1" "\<not> cl_die c"
    using system_swept by blast
  obtain s where s: "OpenStream (sample_ended\<lparr>ss_activeStreams := 1\<rparr>) = ((Some 1, None), s)" "ss_trace s = ss_trace sample_ended"
    "ss_activeStreams s = 1" "ss_streams s = [(2, 1)]" "length (ss_objs s) = 2" "st_dieErr (ss_objs s ! 1) = None" "\<not> unusable s"
    using sample_reopened by blast
  let ?c = "addActive 0 1 c"
  let ?open = "updPooled 0 (\<lambda>p. p\<lparr>ps_opened := ps_opened p @ [1]\<rparr>) ?c"
  let ?d = "updPooled 0 (\<lambda>p. p\<lparr>ps_session := s\<rparr>) ?open"
  have "sess ?c 0 = sample_ended\<lparr>ss_activeStreams := 1\<rparr>" using c(3,4) by (simp add: addActive_session)
  then have o: "OpenStream (sess ?c 0) = ((Some 1, None), s)" "ss_trace (sess ?open 0) = ss_trace s"
    using s(1,2) c(3) by (simp_all add: addActive_session)
  then have "moveTo 0 s ?open = ([], ?d)" by (simp add: moveTo_def newEvents_def)
  then have o': "openStep OnReused 0 ?c = ([Answered (Inr (0, 1))], ?d)"
    by (simp only: openStep_def o(1) Let_def split option.case) simp
  have d: "sess ?d 0 = s" "length (cl_objs ?d) = 1" using c(3) by (simp_all add: addActive_session)
  have l: "leastLoadedSession id c = Some 0"
    using sample_ended_facts(2,3) c(4,5) by (simp add: leastLoadedSession_def lighter_def unusable_def IsClosed_def)
  have "?r (c, ?us @ Creating # [])" using reach_call[OF c(1)] by simp
  then have "?r (c, ?us @ [Taking] @ [])"
    by (rule reach_calm[rotated 2]) (simp_all add: c(7))
  then have "?r (c, ?us @ [Counting] @ [])"
    using c(2) by (intro reach_calm[OF no_idle]) simp_all
  then have "?r (c, ?us @ [Choosing] @ [])"
    by (intro reach_calm[of Counting]) (simp_all add: c(5,6) activeSessionCount_def)
  then have "?r (?d, ?us @ [Answered (Inr (0, 1))] @ [])"
    using reach_calm[of Choosing c "[Bumping OnReused 0]" c md5 ?us "[]"]
      reach_calm[of "Bumping OnReused 0" c "[Opening OnReused 0]" ?c md5 ?us "[]"]
      reach_calm[of "Opening OnReused 0" ?c "[Answered (Inr (0, 1))]" ?d md5 ?us "[]"] o' l
    by (simp add: calm_def)
  then have r: "?r (?d, [SweptClosing [0], Answered (Inr (0, 0)), Answered (Inr (0, 1))])" (is "?r (_, ?ts)") by simp
  obtain hooks e where e: "closeOne 0 ?d = (hooks, e)" by fastforce
  then have st: "system_step md5 (?d, [] @ SweptClosing [0] # [Answered (Inr (0, 0)), Answered (Inr (0, 1))])
      (e, [] @ (SweptClosing [] # hooks) @ [Answered (Inr (0, 0)), Answered (Inr (0, 1))])" (is "system_step md5 _ (e, ?us')")
    by (intro run_thread[of calm]) (simp_all add: calm_ok)
  have "sess e 0 = snd (Close s)" using e d by (auto simp: closeOne_def moveTo_def)
  moreover have "\<not> ss_closed s" using s(7) by (simp add: unusable_def IsClosed_def)
  then have "IsClosed (snd (Close s))" "st_dieErr (ss_objs (snd (Close s)) ! 1) \<noteq> None"
    using s(4-6) by (simp_all add: Close_def closeLocally_def dieStream_def Let_def split_beta updStream_def emit_def signalIdleReady_def
        setConn_def writeFrameBytes_def IsClosed_def)
  ultimately show ?thesis
    using r st s(3,6,7) d by (intro exI[of _ ?d] exI[of _ ?ts] exI[of _ e] exI[of _ ?us'] exI[of _ 0] exI[of _ 1]) simp
qed

section \<open>A dial under way when the client is closed\<close>

text \<open>
  Property C28.  \<open>Close\<close> closes the sessions of the table and no other: a session whose dial is under way is
  registered and run afterwards and its stream handed out by a closed client, when \<open>Close\<close> and the cleanup
  loop have long ended and no one is left to close it.
\<close>

theorem close_misses_dialling_session:
  "\<exists>c k i. system_reachable md5 (c, [Answered (Inr (k, i))]) \<and> cl_die c \<and> cl_closing c = [] \<and> k \<in> snd ` set (cl_sessions c) \<and>
     \<not> IsClosed (sess c k) \<and> st_dieErr (ss_objs (sess c k) ! i) = None"
proof -
  let ?r = "system_reachable md5" and ?dead = "sample_pool\<lparr>cl_die := True\<rparr>"
  have idle: "represents (cl_idleSession ?dead) []" using new_list by (simp add: sample_pool_simps)
  obtain it where it: "Iterate (cl_idleSession ?dead) = Some it" "positioned (cl_idleSession ?dead) it [] []"
    using positioned_start[OF idle] by blast
  then have swept: "cleanupLoop e 0 [] it ?dead = Some ([], ?dead)" for e
    using positioned_end by (subst cleanupLoop.simps) auto
  have empty: "?dead\<lparr>cl_sessions := []\<rparr> = ?dead" by (simp add: sample_pool_def NewClient_def Let_def)
  have w: "wellWith 0 ?dead"
    using idle by (auto simp: wellWith_def pool_inv_def pool_tables_def sample_pool_simps intro!: exI[of _ "[]"])
  have "?r (sample_pool, [Sweeping] @ Creating # [])" using reach_call[OF sample_system] by simp
  then have "?r (sample_pool, [Sweeping] @ [Taking] @ [])"
    by (rule reach_calm[rotated 2]) (simp_all add: sample_pool_simps)
  then have "?r (sample_pool, [Sweeping] @ [Counting] @ [])"
    using new_list by (intro reach_calm[OF no_idle]) (simp_all add: sample_pool_simps)
  then have "?r (sample_pool, [Sweeping] @ [Dialling] @ [])"
    by (intro reach_calm[of Counting]) (simp_all add: sample_pool_simps activeSessionCount_def)
  then have "?r (sample_pool, [Sweeping, Dialling])" by simp
  then have "?r (sample_pool, [Sweeping, Dialling] @ [ShuttingDown])"
    by (rule sys_more) (rule run_call, simp)
  then have "?r (?dead, [Sweeping, Dialling] @ [Emptying] @ [])"
    by (intro reach_calm[of ShuttingDown]) simp_all
  then have "?r (?dead, [Sweeping, Dialling] @ [Closing []] @ [])"
    by (intro reach_calm[of Emptying ?dead]) (simp_all add: sample_pool_simps empty)
  then have "?r (?dead, [Sweeping, Dialling] @ [] @ [])"
    by (intro reach_calm[of "Closing []" ?dead]) simp_all
  then have "?r (?dead, [] @ [SweepingUntil (cl_now ?dead - cl_idleSessionTimeout ?dead)] @ [Dialling])"
    by (intro reach_calm[of Sweeping ?dead]) simp_all
  then have "?r (?dead, [] @ [SweptClosing []] @ [Dialling])"
    using it(1) swept by (intro reach_calm[of "SweepingUntil (cl_now ?dead - cl_idleSessionTimeout ?dead)" ?dead]) simp_all
  then have r: "?r (?dead, [] @ Dialling # [])"
    using reach_calm[of "SweptClosing []" ?dead "[]" ?dead md5 "[]" "[Dialling]"] by simp
  note c = sample_dialled[of True] note o' = sample_opened[of True]
  let ?listed = "sample_pool\<lparr>cl_die := True, cl_sessionCounter := 1,
     cl_objs := [\<lparr>ps_session = Run sample_session, ps_seq = 1, ps_idleSince = 0, ps_opened = []\<rparr>], cl_sessions := [(1, 0)]\<rparr>"
  have n: "(0 :: nat) + 1 < 2 ^ 38" "\<not> c_closed (quietConn [])" by (simp_all add: quietConn_def)
  have wl: "wellWith (Suc 0) ?listed"
    using runs_Some_D[OF createSession_well[OF w n(1)] c] n(2) by simp
  have "steps md5 (?dead, [] @ Dialling # []) (?listed, [] @ Bumping OnFresh 0 # [])"
    by (rule createSession_schedule[OF c w n])
  also have "steps md5 (?listed, [] @ Bumping OnFresh 0 # []) (pool_busy\<lparr>cl_die := True\<rparr>, [] @ opened OnFresh 0 (Inr 0) # [])"
    by (rule openOn_schedule[OF o' wl]) simp
  finally have "?r (pool_busy\<lparr>cl_die := True\<rparr>, [Answered (Inr (0, 0))])"
    using steps_reach r by (auto simp: opened_def)
  then show ?thesis
    using sample_busy_facts(1)
    by (intro exI[of _ "pool_busy\<lparr>cl_die := True\<rparr>"] exI[of _ 0]) (simp add: pool_busy_def sample_pool_simps IsClosed_def, simp add: sample_busy_def)
qed

section \<open>The promises at the sample\<close>

theorem pool_threads_invariant_witness:
  "ss_activeStreams (sess pool_bumped 0) = 0 + 1 \<and> threadStep calm (Opening OnReused 0) pool_bumped \<noteq> None"
proof -
  have "0 < length (cl_objs pool_bumped)" "ps_opened (cl_objs pool_bumped ! 0) = []" by (simp_all add: pool_bumped_def)
  then show ?thesis
    using pool_threads_invariant[OF system_bumped] calm_ok(1) by fastforce
qed


end
