(* ===== verification/Pipe.thy ===== *)
theory Pipe
  imports Prelude
begin

text \<open>
  Package \<open>pipe\<close>: the synchronous in-memory pipe with deadlines through which the receive loop hands
  data to the reader of a stream (\<open>io_pipe.go\<close>, \<open>deadline.go\<close>).  Reads and writes meet: a write blocks
  until readers have taken all of it.  A call that may block is a start, a meeting and an end, which
  are steps of a relation; where a Go \<open>select\<close> has several ready cases, every one of them is a step.
\<close>

section \<open>Deadlines\<close>

text \<open>
  \<open>pd_timer\<close> is the instant at which a running timer will close \<open>cancel\<close>, \<open>pd_cancelled\<close> tells whether
  \<open>cancel\<close> is closed.  An instant \<open>None\<close> is Go's zero time.
\<close>

record PipeDeadline =
  pd_timer :: "int option"
  pd_cancelled :: bool

definition MakePipeDeadline :: PipeDeadline where
  "MakePipeDeadline = \<lparr>pd_timer = None, pd_cancelled = False\<rparr>"

text \<open>The timer's callback, as soon as its time has come.\<close>

definition fireTimer :: "int \<Rightarrow> PipeDeadline \<Rightarrow> PipeDeadline" where
  "fireTimer now d =
     (case pd_timer d of
        Some t \<Rightarrow> if t \<le> now then \<lparr>pd_timer = None, pd_cancelled = True\<rparr> else d
      | None \<Rightarrow> d)"

definition setDeadline :: "int \<Rightarrow> int option \<Rightarrow> PipeDeadline \<Rightarrow> PipeDeadline" where
  "setDeadline now t d =
     (let d = (fireTimer now d)\<lparr>pd_timer := None\<rparr>; closed = pd_cancelled d
      in case t of
           None \<Rightarrow> if closed then d\<lparr>pd_cancelled := False\<rparr> else d
         | Some t \<Rightarrow>
             if t - now > 0
             then (if closed then d\<lparr>pd_cancelled := False\<rparr> else d)\<lparr>pd_timer := Some t\<rparr>
             else if \<not> closed then d\<lparr>pd_cancelled := True\<rparr> else d)"

text \<open>Whether the channel of \<open>Wait\<close> is closed.\<close>

definition expired :: "PipeDeadline \<Rightarrow> bool" where
  "expired d \<longleftrightarrow> pd_cancelled d"

section \<open>The pipe\<close>

text \<open>
  \<open>p_rd\<close> is a reader in its second \<open>select\<close> with the size of its buffer; \<open>p_wr\<close> is the writer that holds
  \<open>wrMu\<close>: the slice it was called with, how much of it was taken, and the loop's \<open>once\<close>.
\<close>

record pipe =
  p_rd :: "nat option"
  p_wr :: "(bytes \<times> nat \<times> bool) option"
  p_done :: bool
  p_rerr :: "go_error option"
  p_werr :: "go_error option"
  p_readDeadline :: PipeDeadline
  p_writeDeadline :: PipeDeadline

definition newPipe :: pipe where
  "newPipe = \<lparr>p_rd = None, p_wr = None, p_done = False, p_rerr = None, p_werr = None,
     p_readDeadline = MakePipeDeadline, p_writeDeadline = MakePipeDeadline\<rparr>"

text \<open>\<open>onceError.Store\<close>: only the first error stays.\<close>

definition storeOnce :: "go_error \<Rightarrow> go_error option \<Rightarrow> go_error option" where
  "storeOnce err a = (if a \<noteq> None then a else Some err)"

definition closeRead :: "go_error option \<Rightarrow> pipe \<Rightarrow> pipe" where
  "closeRead err p =
     (let err = (case err of None \<Rightarrow> ErrClosedPipe | Some e \<Rightarrow> e)
      in p\<lparr>p_rerr := storeOnce err (p_rerr p), p_done := True\<rparr>)"

definition closeWrite :: "go_error option \<Rightarrow> pipe \<Rightarrow> pipe" where
  "closeWrite err p =
     (let err = (case err of None \<Rightarrow> EOF | Some e \<Rightarrow> e)
      in p\<lparr>p_werr := storeOnce err (p_werr p), p_done := True\<rparr>)"

definition readCloseError :: "pipe \<Rightarrow> go_error" where
  "readCloseError p =
     (case p_werr p of
        Some werr \<Rightarrow> if p_rerr p = None then werr else ErrClosedPipe
      | None \<Rightarrow> ErrClosedPipe)"

definition writeCloseError :: "pipe \<Rightarrow> go_error" where
  "writeCloseError p =
     (case p_rerr p of
        Some rerr \<Rightarrow> if p_werr p = None then rerr else ErrClosedPipe
      | None \<Rightarrow> ErrClosedPipe)"

definition SetReadDeadline :: "int \<Rightarrow> int option \<Rightarrow> pipe \<Rightarrow> go_error option \<times> pipe" where
  "SetReadDeadline now t p =
     (if p_done p then (Some ErrClosedPipe, p)
      else (None, p\<lparr>p_readDeadline := setDeadline now t (p_readDeadline p)\<rparr>))"

definition pipeSetWriteDeadline :: "int \<Rightarrow> int option \<Rightarrow> pipe \<Rightarrow> go_error option \<times> pipe" where
  "pipeSetWriteDeadline now t p =
     (if p_done p then (Some ErrClosedPipe, p)
      else (None, p\<lparr>p_writeDeadline := setDeadline now t (p_writeDeadline p)\<rparr>))"

text \<open>\<open>Stream.SetDeadline\<close>: the stream's own write deadline, then the read deadline of its pipe.\<close>

definition streamSetDeadline ::
    "int \<Rightarrow> int option \<Rightarrow> PipeDeadline \<times> pipe \<Rightarrow> go_error option \<times> PipeDeadline \<times> pipe" where
  "streamSetDeadline now t st =
     (let (wd, p) = st; wd = setDeadline now t wd; (err, p) = SetReadDeadline now t p in (err, wd, p))"

text \<open>The ready error cases of the two \<open>select\<close> statements of a read, and of a write.\<close>

definition readFails :: "pipe \<Rightarrow> go_error \<Rightarrow> bool" where
  "readFails p e \<longleftrightarrow> p_done p \<and> e = readCloseError p \<or> expired (p_readDeadline p) \<and> e = ErrDeadlineExceeded"

definition writeFails :: "pipe \<Rightarrow> go_error \<Rightarrow> bool" where
  "writeFails p e \<longleftrightarrow> p_done p \<and> e = writeCloseError p \<or> expired (p_writeDeadline p) \<and> e = ErrDeadlineExceeded"

text \<open>
  What can be observed: a read returned these bytes and this error, a write of these bytes returned
  this count and error.
\<close>

datatype pevent = PRead bytes "go_error option" | PWrote bytes nat "go_error option" | PTau

inductive pipe_step :: "pipe \<Rightarrow> pevent \<Rightarrow> pipe \<Rightarrow> bool" where
  read_refused: "readFails p e \<Longrightarrow> pipe_step p (PRead [] (Some e)) p"
| read_start: "p_rd p = None \<Longrightarrow> \<not> p_done p \<Longrightarrow> \<not> expired (p_readDeadline p)
    \<Longrightarrow> pipe_step p PTau (p\<lparr>p_rd := Some k\<rparr>)"
| read_abort: "p_rd p = Some k \<Longrightarrow> readFails p e \<Longrightarrow> pipe_step p (PRead [] (Some e)) (p\<lparr>p_rd := None\<rparr>)"
| write_refused: "writeFails p e \<Longrightarrow> pipe_step p (PWrote b 0 (Some e)) p"
| write_start: "p_wr p = None \<Longrightarrow> \<not> p_done p \<Longrightarrow> \<not> expired (p_writeDeadline p)
    \<Longrightarrow> pipe_step p PTau (p\<lparr>p_wr := Some (b, 0, True)\<rparr>)"
| write_abort: "p_wr p = Some (b, n, once) \<Longrightarrow> once \<or> drop n b \<noteq> [] \<Longrightarrow> writeFails p e
    \<Longrightarrow> pipe_step p (PWrote b n (Some e)) (p\<lparr>p_wr := None\<rparr>)"
| write_finish: "p_wr p = Some (b, n, False) \<Longrightarrow> drop n b = []
    \<Longrightarrow> pipe_step p (PWrote b n None) (p\<lparr>p_wr := None\<rparr>)"
| transfer: "p_rd p = Some k \<Longrightarrow> p_wr p = Some (b, n, once) \<Longrightarrow> once \<or> drop n b \<noteq> []
    \<Longrightarrow> nr = min k (length (drop n b))
    \<Longrightarrow> pipe_step p (PRead (take nr (drop n b)) None) (p\<lparr>p_rd := None, p_wr := Some (b, n + nr, False)\<rparr>)"
| reader_closes: "pipe_step p PTau (closeRead err p)"
| writer_closes: "pipe_step p PTau (closeWrite err p)"
| read_deadline: "pipe_step p PTau (snd (SetReadDeadline now t p))"
| write_deadline: "pipe_step p PTau (snd (pipeSetWriteDeadline now t p))"
| time_passes: "pipe_step p PTau (p\<lparr>p_readDeadline := fireTimer now (p_readDeadline p),
    p_writeDeadline := fireTimer now (p_writeDeadline p)\<rparr>)"

inductive_cases pipe_stepE: "pipe_step p ev p'"

inductive pipe_run :: "pipe \<Rightarrow> pevent list \<Rightarrow> pipe \<Rightarrow> bool" where
  run_nil: "pipe_run p [] p"
| run_snoc: "pipe_run p evs q \<Longrightarrow> pipe_step q ev r \<Longrightarrow> pipe_run p (evs @ [ev]) r"

section \<open>Nothing is lost\<close>

text \<open>What the reads returned, and what the finished writes report as taken.\<close>

fun readBytesOf :: "pevent \<Rightarrow> bytes" where
  "readBytesOf (PRead b err) = b"
| "readBytesOf _ = []"

fun takenBytesOf :: "pevent \<Rightarrow> bytes" where
  "takenBytesOf (PWrote b n err) = take n b"
| "takenBytesOf _ = []"

definition pendingBytes :: "pipe \<Rightarrow> bytes" where
  "pendingBytes p = (case p_wr p of Some (b, n, once) \<Rightarrow> take n b | None \<Rightarrow> [])"

fun writeComplete :: "pevent \<Rightarrow> bool" where
  "writeComplete (PWrote b n None) \<longleftrightarrow> n = length b"
| "writeComplete (PWrote b n (Some e)) \<longleftrightarrow> n \<le> length b"
| "writeComplete _ \<longleftrightarrow> True"

definition wr_ok :: "pipe \<Rightarrow> bool" where
  "wr_ok p \<longleftrightarrow> (case p_wr p of Some (b, n, once) \<Rightarrow> n \<le> length b | None \<Rightarrow> True)"

lemma pending_unchanged [simp]:
  "p_wr (closeRead err p) = p_wr p" "p_wr (closeWrite err p) = p_wr p"
  "p_wr (snd (SetReadDeadline now t p)) = p_wr p" "p_wr (snd (pipeSetWriteDeadline now t p)) = p_wr p"
  by (simp_all add: closeRead_def closeWrite_def SetReadDeadline_def pipeSetWriteDeadline_def Let_def)

lemma pipe_step_accounts:
  assumes "pipe_step p ev p'" "wr_ok p"
  shows "wr_ok p'" "writeComplete ev"
    "pendingBytes p @ readBytesOf ev = takenBytesOf ev @ pendingBytes p'"
  using assms
proof (induction rule: pipe_step.induct)
  case (transfer p k b n once nr)
  { case 1 then show ?case using transfer by (auto simp: wr_ok_def) }
  { case 2 then show ?case by simp }
  { case 3 then show ?case using transfer by (auto simp: wr_ok_def pendingBytes_def take_add) }
qed (auto simp: wr_ok_def pendingBytes_def)

text \<open>
  Property C12.  The pipe is a lossless first-in first-out channel: in every run, however reads, writes,
  closes and deadlines interleave, what the reads returned is exactly what the writes report as taken,
  in order, plus the part a write in progress has handed over so far; a write that returns no error has
  handed over all its bytes.
\<close>

theorem pipe_lossless:
  assumes "pipe_run newPipe evs p"
  shows "concat (map readBytesOf evs) = concat (map takenBytesOf evs) @ pendingBytes p \<and> (\<forall>ev \<in> set evs. writeComplete ev)"
proof -
  have "wr_ok p \<and> concat (map readBytesOf evs) = concat (map takenBytesOf evs) @ pendingBytes p \<and> (\<forall>ev \<in> set evs. writeComplete ev)"
    using assms
  proof (induction newPipe evs p rule: pipe_run.induct)
    case run_nil
    then show ?case by (simp add: wr_ok_def pendingBytes_def newPipe_def)
  next
    case (run_snoc evs q ev r)
    with pipe_step_accounts [OF run_snoc.hyps(3)] show ?case by simp
  qed
  then show ?thesis by blast
qed

text \<open>
  A deadline does what it says: once set, it is in force from its instant on and not before
  (an instant that has passed takes effect at once), the zero instant never expires, and setting it again
  replaces the old one even when that had already expired.
\<close>

theorem deadline_in_force:
  assumes "now \<le> later"
  shows "expired (fireTimer later (setDeadline now t d)) \<longleftrightarrow> (case t of None \<Rightarrow> False | Some t \<Rightarrow> t \<le> later)"
  using assms by (auto simp: expired_def fireTimer_def setDeadline_def Let_def split: option.splits)

theorem deadline_in_force_witness:
  "\<not> expired (fireTimer 4 (setDeadline 3 (Some 5) \<lparr>pd_timer = None, pd_cancelled = True\<rparr>))
   \<and> expired (fireTimer 5 (setDeadline 3 (Some 5) MakePipeDeadline))"
  using deadline_in_force [of 3 4 "Some 5" "\<lparr>pd_timer = None, pd_cancelled = True\<rparr>"]
    deadline_in_force [of 3 5 "Some 5" MakePipeDeadline] by simp

text \<open>
  A closed pipe is dead in both directions, and the first error of each side stays.
\<close>

lemma closed_pipe_refuses:
  assumes "p_done p" "pipe_step p ev p'" "p_wr p = None" "p_rd p = None"
  shows "p_done p' \<and> p_wr p' = None \<and> p_rd p' = None \<and> readBytesOf ev = [] \<and> takenBytesOf ev = []"
  using assms(2,1,3,4)
  by (induction rule: pipe_step.induct)
    (auto simp: closeRead_def closeWrite_def SetReadDeadline_def pipeSetWriteDeadline_def Let_def)

theorem pipe_lossless_witness:
  "concat (map readBytesOf [PTau, PTau, PRead [1, 2] None, PTau, PRead [3] None, PWrote [1, 2, 3] 3 None]) = [1, 2, 3]"
proof -
  let ?p1 = "newPipe\<lparr>p_wr := Some ([1, 2, 3], 0, True)\<rparr>"
  let ?p2 = "?p1\<lparr>p_rd := Some 2\<rparr>"
  let ?p3 = "?p2\<lparr>p_rd := None, p_wr := Some ([1, 2, 3], 0 + 2, False)\<rparr>"
  let ?p4 = "?p3\<lparr>p_rd := Some 5\<rparr>"
  let ?p5 = "?p4\<lparr>p_rd := None, p_wr := Some ([1, 2, 3], 2 + 1, False)\<rparr>"
  have s1: "pipe_step newPipe PTau ?p1"
    by (rule write_start) (simp_all add: newPipe_def expired_def MakePipeDeadline_def)
  have s2: "pipe_step ?p1 PTau ?p2"
    by (rule read_start) (simp_all add: newPipe_def expired_def MakePipeDeadline_def)
  have s3: "pipe_step ?p2 (PRead (take 2 (drop 0 [1, 2, 3])) None) ?p3"
    by (rule transfer [where k = 2 and once = True]) simp_all
  have s4: "pipe_step ?p3 PTau ?p4"
    by (rule read_start) (simp_all add: newPipe_def expired_def MakePipeDeadline_def)
  have s5: "pipe_step ?p4 (PRead (take 1 (drop 2 [1, 2, 3])) None) ?p5"
    by (rule transfer [where k = 5 and once = False]) simp_all
  have s6: "pipe_step ?p5 (PWrote [1, 2, 3] 3 None) (?p5\<lparr>p_wr := None\<rparr>)"
    by (rule write_finish) simp_all
  note run_snoc [OF run_snoc [OF run_snoc [OF run_snoc [OF run_snoc [OF run_snoc [OF run_nil s1] s2] s3] s4] s5] s6]
  from pipe_lossless [OF this] show ?thesis by simp
qed

end
