(* ===== verification/Migration.thy ===== *)
theory Migration
  imports MigrationDetect MigRegistry
begin

text \<open>
  The rail-switch of one stream (\<open>session/migration.go\<close>, \<open>migWrite\<close> and \<open>CloseWrite\<close> of
  \<open>session/stream.go\<close>): the state \<open>streamMig\<close> of either side and its operations.  What an operation
  does to the rest of the program is an output: frames and data for the shared session (the mux),
  bytes for the dedicated connection (carrier B), the start of a goroutine.  \<open>writeMu\<close> makes each
  operation one step.
\<close>

section \<open>State\<close>

datatype mout =
    MuxData bytes
  | MuxControl frame
  | RegisterToken migToken
  | CarrierHello bytes
  | CarrierWrite bytes
  | CarrierCloseWrite
  | CarrierClose
  | StartFeeder
  | PipeWrite bytes
  | PipeEOF
  | StartWatchdog

text \<open>
  \<open>mg_bConn\<close> and \<open>mg_bWriteConn\<close> say that the field is not nil (there is one carrier per stream),
  \<open>mg_released\<close> that \<open>closeOnce\<close> has run, \<open>mg_dead\<close> that the stream's \<open>dieErr\<close> is set.
\<close>

record streamMig =
  mg_isClient :: bool
  mg_sid :: u32
  mg_dead :: bool
  mg_detector :: "handshakeDetector option"
  mg_bWriteConn :: bool
  mg_bConn :: bool
  mg_released :: bool
  mg_triggered :: bool
  mg_tapsDone :: bool
  mg_payloadStarted :: bool
  mg_bReady :: bool
  mg_goSeen :: bool
  mg_cutover :: bool
  mg_uplinkFin :: bool
  mg_bWriteHalfClosed :: bool
  mg_bReadHalfClosed :: bool
  mg_out :: "mout list"

definition newStreamMig :: "bool \<Rightarrow> u32 \<Rightarrow> int \<Rightarrow> bool \<Rightarrow> streamMig" where
  "newStreamMig isClient sid bulk tlsOnl =
     \<lparr>mg_isClient = isClient, mg_sid = sid, mg_dead = False,
      mg_detector = (if isClient then None else Some ((newHandshakeDetector bulk)\<lparr>tlsOnly := tlsOnl\<rparr>)),
      mg_bWriteConn = False, mg_bConn = False, mg_released = False, mg_triggered = False, mg_tapsDone = False,
      mg_payloadStarted = False, mg_bReady = False, mg_goSeen = False, mg_cutover = False, mg_uplinkFin = False,
      mg_bWriteHalfClosed = False, mg_bReadHalfClosed = False, mg_out = []\<rparr>"

definition mput :: "mout \<Rightarrow> streamMig \<Rightarrow> streamMig" where
  "mput x sm = sm\<lparr>mg_out := mg_out sm @ [x]\<rparr>"

section \<open>The offer\<close>

definition BeginMigrationPayload :: "streamMig \<Rightarrow> streamMig" where
  "BeginMigrationPayload sm = sm\<lparr>mg_payloadStarted := True\<rparr>"

text \<open>\<open>tok\<close> is what \<open>rand.Read\<close> fills in, \<open>None\<close> its failure; \<open>reg\<close> says that the session has a registry.\<close>

definition serverMaybeTrigger :: "migToken option \<Rightarrow> bool \<Rightarrow> streamMig \<Rightarrow> streamMig" where
  "serverMaybeTrigger tok reg sm =
     (case mg_detector sm of
        None \<Rightarrow> sm
      | Some d \<Rightarrow>
          if mg_tapsDone sm then sm
          else if \<not> Ready d then sm
          else if mg_triggered sm then sm
          else let sm = sm\<lparr>mg_triggered := True, mg_tapsDone := True\<rparr>
               in case tok of
                    None \<Rightarrow> sm
                  | Some t \<Rightarrow>
                      let sm = (if reg then mput (RegisterToken t) sm else sm)
                      in mput (MuxControl ((newFrame cmdMigrateReady (mg_sid sm))\<lparr>f_data := t\<rparr>)) sm)"

definition observeServerRead :: "migToken option \<Rightarrow> bool \<Rightarrow> bytes \<Rightarrow> streamMig \<Rightarrow> streamMig" where
  "observeServerRead tok reg p sm =
     (case mg_detector sm of
        None \<Rightarrow> sm
      | Some d \<Rightarrow>
          if mg_tapsDone sm \<or> \<not> mg_payloadStarted sm then sm
          else let d = observeUplink p d; sm = sm\<lparr>mg_detector := Some d\<rparr>
               in if Aborted d then sm\<lparr>mg_tapsDone := True\<rparr> else serverMaybeTrigger tok reg sm)"

definition observeServerWrite :: "bytes \<Rightarrow> streamMig \<Rightarrow> streamMig" where
  "observeServerWrite p sm =
     (case mg_detector sm of
        None \<Rightarrow> sm
      | Some d \<Rightarrow>
          if mg_tapsDone sm \<or> \<not> mg_payloadStarted sm then sm
          else let d = observeDownlink p d; sm = sm\<lparr>mg_detector := Some d\<rparr>
               in if Aborted d then sm\<lparr>mg_tapsDone := True\<rparr> else sm)"

definition migWrite :: "migToken option \<Rightarrow> bool \<Rightarrow> bytes \<Rightarrow> streamMig \<Rightarrow> streamMig" where
  "migWrite tok reg b sm =
     (if mg_bWriteConn sm then mput (CarrierWrite b) sm
      else let sm = (if \<not> mg_isClient sm then observeServerWrite b sm else sm);
               sm = mput (MuxData b) sm
           in if \<not> mg_isClient sm then serverMaybeTrigger tok reg sm else sm)"

text \<open>
  \<open>Stream.Read\<close>, given what the pipe answers: a stream that has died reports its own error when there are
  no bytes, and a server's payload passes the tap.
\<close>

definition streamRead ::
    "migToken option \<Rightarrow> bool \<Rightarrow> go_error option \<Rightarrow> bytes \<times> go_error option \<Rightarrow> streamMig
      \<Rightarrow> (bytes \<times> go_error option) \<times> streamMig" where
  "streamRead tok reg dieErr answer sm =
     (let (b, err) = answer;
          err = (if b = [] \<and> dieErr \<noteq> None then dieErr else err);
          sm = (if b \<noteq> [] \<and> \<not> mg_isClient sm then observeServerRead tok reg b sm else sm)
      in ((b, err), sm))"

section \<open>Ending\<close>

definition closeCarrier :: "streamMig \<Rightarrow> streamMig" where
  "closeCarrier sm =
     (if mg_released sm then sm
      else let sm = (if mg_bConn sm then mput CarrierClose sm else sm)
           in sm\<lparr>mg_released := True\<rparr>)"

definition maybeFullCloseCarrier :: "streamMig \<Rightarrow> streamMig" where
  "maybeFullCloseCarrier sm =
     (if mg_bWriteHalfClosed sm \<and> mg_bReadHalfClosed sm then closeCarrier sm else sm)"

definition closeOnStreamEnd :: "streamMig \<Rightarrow> streamMig" where
  "closeOnStreamEnd sm =
     (if \<not> mg_bWriteConn sm then closeCarrier sm
      else let sm = (if \<not> mg_bWriteHalfClosed sm
                     then mput CarrierCloseWrite (sm\<lparr>mg_bWriteHalfClosed := True\<rparr>) else sm)
           in mput StartWatchdog (maybeFullCloseCarrier sm))"

text \<open>The part of \<open>dieOnce\<close> that concerns the migration state.\<close>

definition streamEnds :: "streamMig \<Rightarrow> streamMig" where
  "streamEnds sm = (if mg_dead sm then sm else closeOnStreamEnd (sm\<lparr>mg_dead := True\<rparr>))"

definition migCloseWrite :: "streamMig \<Rightarrow> streamMig" where
  "migCloseWrite sm =
     (if \<not> mg_bWriteConn sm then streamEnds sm
      else if mg_bWriteHalfClosed sm then sm
      else maybeFullCloseCarrier (mput CarrierCloseWrite (sm\<lparr>mg_bWriteHalfClosed := True\<rparr>)))"

section \<open>The cut-over\<close>

definition maybeClientCutover :: "streamMig \<Rightarrow> streamMig" where
  "maybeClientCutover sm =
     (if \<not> mg_bReady sm \<or> \<not> mg_goSeen sm then sm
      else if mg_cutover sm then sm
      else let sm = sm\<lparr>mg_cutover := True\<rparr>;
               sm = (if \<not> mg_dead sm
                     then (mput (MuxControl (newFrame cmdUplinkFin (mg_sid sm))) sm)\<lparr>mg_bWriteConn := mg_bConn sm\<rparr>
                     else sm)
           in mput StartFeeder sm)"

text \<open>
  \<open>clientStartCarrier\<close> with the outcome of the dial and of the first write on B.  Between presenting the
  token and marking the carrier ready no lock is held, so the two halves are separate definitions.
\<close>

definition clientPresents :: "bytes \<Rightarrow> streamMig \<Rightarrow> streamMig" where
  "clientPresents hello sm = mput (CarrierHello hello) (sm\<lparr>mg_bConn := True\<rparr>)"

definition clientCarrierReady :: "bool \<Rightarrow> streamMig \<Rightarrow> streamMig" where
  "clientCarrierReady wrote sm =
     (if \<not> wrote then closeCarrier sm else maybeClientCutover (sm\<lparr>mg_bReady := True\<rparr>))"

definition clientStartCarrier :: "bool \<Rightarrow> bool \<Rightarrow> bytes \<Rightarrow> streamMig \<Rightarrow> streamMig" where
  "clientStartCarrier dialled wrote hello sm =
     (if \<not> dialled then sm else clientCarrierReady wrote (clientPresents hello sm))"

definition clientOnMigrateGo :: "streamMig \<Rightarrow> streamMig" where
  "clientOnMigrateGo sm = maybeClientCutover (sm\<lparr>mg_goSeen := True\<rparr>)"

definition serverAttachCarrier :: "streamMig \<Rightarrow> streamMig" where
  "serverAttachCarrier sm =
     (if mg_dead sm then mput CarrierClose sm
      else (mput (MuxControl (newFrame cmdMigrateGo (mg_sid sm))) sm)
             \<lparr>mg_bConn := True, mg_bReady := True, mg_bWriteConn := True\<rparr>)"

definition serverOnUplinkFin :: "streamMig \<Rightarrow> streamMig" where
  "serverOnUplinkFin sm =
     (if mg_uplinkFin sm then sm
      else let sm = sm\<lparr>mg_uplinkFin := True\<rparr>
           in if mg_bConn sm then mput StartFeeder sm else sm)"

text \<open>
  One round of \<open>carrierToPipe\<close>: the bytes and the error of the read, the error of the write into the
  stream's pipe.  The answer says whether the loop goes on; \<open>readFailure\<close> is its \<open>readErr\<close>.
\<close>

definition readFailure :: "bytes \<Rightarrow> go_error option \<Rightarrow> go_error option \<Rightarrow> go_error option" where
  "readFailure b err werr = (if b \<noteq> [] \<and> werr \<noteq> None then werr else err)"

definition carrierToPipe :: "bytes \<Rightarrow> go_error option \<Rightarrow> go_error option \<Rightarrow> streamMig \<Rightarrow> bool \<times> streamMig" where
  "carrierToPipe b err werr sm =
     (let sm = (if b \<noteq> [] then mput (PipeWrite b) sm else sm)
      in case readFailure b err werr of
           None \<Rightarrow> (True, sm)
         | Some e \<Rightarrow>
             if e = EOF
             then (False, maybeFullCloseCarrier (mput PipeEOF (sm\<lparr>mg_bReadHalfClosed := True\<rparr>)))
             else (False, streamEnds (closeCarrier sm)))"

end
