(* ===== verification/Rail.thy ===== *)
theory Rail
  imports Prelude "HOL-Library.Sublist"
begin

text \<open>
  The contract of the rail-switch for one direction of a stream, independent of how the two sides
  coordinate: data leaves first on the shared session, then, behind one barrier, on the dedicated
  connection.  \<open>session/migration.go\<close> promises that the bytes ``append with no gap, overlap or reorder'';
  here this is a consequence of the rules of one
  transition system, proved once and used for both directions.
\<close>

section \<open>The switch as a transition system\<close>

text \<open>
  \<open>rl_mux\<close> holds the frames in flight, \<open>None\<close> being the barrier, \<open>rl_B\<close> the bytes in flight on the
  carrier.  \<open>rl_clean\<close>: the barrier was processed by a live receiver; \<open>rl_started\<close>: the decision to read
  the carrier has been taken; \<open>rl_feed\<close>: its reader runs; \<open>rl_eof\<close>: its reader has seen a clean end.
\<close>

record rail =
  rl_mux :: "bytes option list"
  rl_B :: bytes
  rl_switched :: bool
  rl_ended :: bool
  rl_clean :: bool
  rl_started :: bool
  rl_feed :: bool
  rl_alive :: bool
  rl_eof :: bool
  rl_written :: bytes
  rl_read :: bytes

definition railStart :: rail where
  "railStart = \<lparr>rl_mux = [], rl_B = [], rl_switched = False, rl_ended = False, rl_clean = False, rl_started = False,
     rl_feed = False, rl_alive = True, rl_eof = False, rl_written = [], rl_read = []\<rparr>"

inductive rail_step :: "rail \<Rightarrow> rail \<Rightarrow> bool" where
  write_mux: "\<not> rl_switched r \<Longrightarrow>
    rail_step r (r\<lparr>rl_mux := rl_mux r @ [Some b], rl_written := rl_written r @ b\<rparr>)"
| write_carrier: "rl_switched r \<Longrightarrow> \<not> rl_ended r \<Longrightarrow>
    rail_step r (r\<lparr>rl_B := rl_B r @ b, rl_written := rl_written r @ b\<rparr>)"
| switch: "\<not> rl_switched r \<Longrightarrow> rail_step r (r\<lparr>rl_mux := rl_mux r @ [None], rl_switched := True\<rparr>)"
| half_close: "rl_switched r \<Longrightarrow> rail_step r (r\<lparr>rl_ended := True\<rparr>)"
| data: "rl_mux r = Some b # q \<Longrightarrow>
    rail_step r (r\<lparr>rl_mux := q, rl_read := (if rl_alive r then rl_read r @ b else rl_read r)\<rparr>)"
| barrier: "rl_mux r = None # q \<Longrightarrow> rail_step r (r\<lparr>rl_mux := q, rl_clean := rl_clean r \<or> rl_alive r\<rparr>)"
| start: "rl_clean r \<Longrightarrow> \<not> rl_started r \<Longrightarrow> rail_step r (r\<lparr>rl_started := True, rl_feed := f\<rparr>)"
| feed: "rl_feed r \<Longrightarrow> rl_alive r \<Longrightarrow> rl_B r = b @ rest \<Longrightarrow>
    rail_step r (r\<lparr>rl_B := rest, rl_read := rl_read r @ b\<rparr>)"
| feed_ends: "rl_feed r \<Longrightarrow> rl_B r = [] \<Longrightarrow> rl_ended r \<Longrightarrow> rail_step r (r\<lparr>rl_feed := False, rl_eof := True\<rparr>)"
| feed_fails: "rl_feed r \<Longrightarrow> rail_step r (r\<lparr>rl_B := rest, rl_feed := False, rl_alive := False\<rparr>)"
| die: "rail_step r (r\<lparr>rl_alive := False\<rparr>)"

section \<open>What the switch keeps\<close>

definition rail_data :: "bytes option list \<Rightarrow> bytes" where
  "rail_data q = concat (map (case_option [] id) q)"

lemma rail_data_simps [simp]:
  "rail_data [] = []" "rail_data (Some b # q) = b @ rail_data q" "rail_data (None # q) = rail_data q"
  "rail_data (q @ q') = rail_data q @ rail_data q'"
  by (simp_all add: rail_data_def)

text \<open>Before the switch there is no barrier, afterwards at most one, and nothing behind it.\<close>

definition rail_shape :: "rail \<Rightarrow> bool" where
  "rail_shape r \<longleftrightarrow>
     (if rl_switched r then (\<exists>ds. rl_mux r = ds @ [None] \<and> None \<notin> set ds \<and> \<not> rl_clean r) \<or> rl_mux r = []
      else None \<notin> set (rl_mux r) \<and> rl_B r = [] \<and> \<not> rl_ended r \<and> \<not> rl_clean r)"

text \<open>
  \<open>rail_complete\<close>: nothing has been dropped so far.  A dead receiver that did not process the barrier
  never starts to feed; one that did has emptied the mux.
\<close>

definition rail_complete :: "rail \<Rightarrow> bool" where
  "rail_complete r \<longleftrightarrow> rl_written r = rl_read r @ rail_data (rl_mux r) @ rl_B r"

definition rail_inv :: "rail \<Rightarrow> bool" where
  "rail_inv r \<longleftrightarrow>
     rail_shape r \<and> prefix (rl_read r) (rl_written r) \<and>
     (rl_started r \<longrightarrow> rl_clean r) \<and> (rl_feed r \<longrightarrow> rl_started r) \<and> (rl_clean r \<longrightarrow> rl_switched r) \<and>
     (rl_alive r \<or> rl_feed r \<or> rl_clean r \<and> \<not> rl_started r \<longrightarrow> rail_complete r) \<and>
     (rl_eof r \<longrightarrow> rl_read r = rl_written r \<and> \<not> rl_feed r \<and> rl_started r \<and> rl_ended r \<and> rl_mux r = [] \<and> rl_B r = [])"

lemmas rail_inv_unfold = rail_inv_def rail_shape_def rail_complete_def

lemma rail_shape_read [simp]: "rail_shape (r\<lparr>rl_mux := q, rl_read := x\<rparr>) = rail_shape (r\<lparr>rl_mux := q\<rparr>)"
  by (simp add: rail_shape_def)

lemma rail_shape_head:
  assumes "rail_shape r"
  shows "rl_mux r = None # q \<Longrightarrow> rl_switched r \<and> q = [] \<and> \<not> rl_clean r"
    and "rl_mux r = Some b # q \<Longrightarrow> \<not> rl_clean r \<and> rail_shape (r\<lparr>rl_mux := q\<rparr>)"
proof -
  show "rl_switched r \<and> q = [] \<and> \<not> rl_clean r" if "rl_mux r = None # q"
    using assms that by (auto simp: rail_shape_def Cons_eq_append_conv split: if_splits)
  show "\<not> rl_clean r \<and> rail_shape (r\<lparr>rl_mux := q\<rparr>)" if "rl_mux r = Some b # q"
    using assms that by (auto simp: rail_shape_def Cons_eq_append_conv split: if_splits)
qed

lemma rail_inv_start: "rail_inv railStart"
  by (simp add: rail_inv_unfold railStart_def)

lemma rail_inv_step:
  assumes "rail_step r r'" and "rail_inv r"
  shows "rail_inv r'"
  using assms
proof (cases rule: rail_step.cases)
  case (data b q)
  with assms(2) show ?thesis
    using rail_shape_head(2)[of r b q]
    by (auto simp: rail_inv_def rail_complete_def prefix_def)
next
  case (barrier q)
  then have q: "rl_switched r" "q = []" "\<not> rl_clean r"
    using assms(2) rail_shape_head(1)[of r q] by (auto simp: rail_inv_def)
  with barrier assms(2) show ?thesis
    unfolding rail_inv_def rail_complete_def by (auto simp: rail_shape_def)
next
  case (feed b rest)
  with assms(2) have r: "rl_switched r" "rl_mux r = []" "\<not> rl_eof r"  "rl_clean r" "rl_started r" "rl_written r = rl_read r @ b @ rest"
    by (auto simp: rail_inv_unfold)
  with feed show ?thesis
    by (simp add: rail_inv_unfold)
next
  case feed_ends
  with assms(2) have "rl_switched r" "rl_mux r = []" "rl_clean r" "rl_started r" "rl_written r = rl_read r"
    by (auto simp: rail_inv_unfold)
  with feed_ends show ?thesis
    by (simp add: rail_inv_unfold)
next
  case (feed_fails rest)
  with assms(2) have "rl_switched r" "rl_mux r = []" "rl_clean r" "rl_started r" "\<not> rl_eof r"
      "prefix (rl_read r) (rl_written r)"
    by (auto simp: rail_inv_unfold)
  with feed_fails show ?thesis
    by (simp add: rail_inv_unfold)
qed (auto simp: rail_inv_unfold prefix_def split: if_splits)

lemma rail_invD:
  assumes "rail_inv r"
  shows "prefix (rl_read r) (rl_written r)"
    and "rl_alive r \<Longrightarrow> rl_written r = rl_read r @ rail_data (rl_mux r) @ rl_B r"
    and "rl_eof r \<Longrightarrow> rl_read r = rl_written r"
    and "rl_clean r \<Longrightarrow> rl_switched r"
    and "None \<in> set (rl_mux r) \<Longrightarrow> rl_switched r \<and> \<not> rl_clean r"
proof -
  show "None \<in> set (rl_mux r) \<Longrightarrow> rl_switched r \<and> \<not> rl_clean r"
    using assms by (cases "rl_switched r") (auto simp: rail_inv_def rail_shape_def)
qed (use assms in \<open>simp_all add: rail_inv_def rail_complete_def\<close>)

section \<open>Refinements of the switch\<close>

text \<open>
  A system implements the contract when each of its steps is, seen through \<open>view\<close>, a sequence of steps
  of the switch (none, if it does not concern this direction).  \<open>inv\<close> is the system's own invariant.
\<close>

locale rail_refinement =
  fixes step :: "'s \<Rightarrow> 's \<Rightarrow> bool" and inv :: "'s \<Rightarrow> bool" and view :: "'s \<Rightarrow> rail"
  assumes step_inv: "inv s \<Longrightarrow> step s t \<Longrightarrow> inv t"
    and step_view: "inv s \<Longrightarrow> step s t \<Longrightarrow> rail_step\<^sup>*\<^sup>* (view s) (view t)"
begin

lemma run_simulates:
  assumes "step\<^sup>*\<^sup>* s t" and "inv s" and "rail_inv (view s)"
  shows "inv t \<and> rail_inv (view t)"
  using assms(1)
proof (induction rule: rtranclp_induct)
  case (step t u)
  from step_view[OF _ step(2)] step(3) have "rail_step\<^sup>*\<^sup>* (view t) (view u)"
    by blast
  then have "rail_inv (view u)"
    by (induction rule: rtranclp_induct) (use step(3) rail_inv_step in blast)+
  with step_inv[OF _ step(2)] step(3) show ?case
    by blast
qed (use assms in blast)

lemma run_inv:
  assumes "step\<^sup>*\<^sup>* s t" and "inv s" and "view s = railStart"
  shows "inv t" and "rail_inv (view t)"
  using run_simulates[OF assms(1,2)] assms(3) rail_inv_start by simp_all

text \<open>What the reader has is always a prefix of what was written; while it lives, the rest is in flight.\<close>

lemmas run_lossless = rail_invD[OF run_inv(2)]

end

end
