(* ===== verification/Migration_Order.thy ===== *)
theory Migration_Order
  imports Migration Rail
begin

text \<open>
  The two sides of a migrating stream together: what either side writes reaches the other side's reader
  completely and in order, across the switch from the shared session to the dedicated connection.  The
  mux and the carrier are first-in first-out channels; goroutines interleave freely, and either side may
  end the stream or lose the carrier at any time.  Both directions refine the switch of theory Rail.
\<close>

section \<open>The pair\<close>

text \<open>
  \<open>pr_ready\<close>: the client has received a token and may dial; \<open>pr_dialled\<close>: it has presented the token but
  not yet marked the carrier ready; \<open>pr_hello\<close>: the carrier's opening frame is on its way to the server.
  \<open>pr_upFeed\<close> and \<open>pr_downFeed\<close>: the goroutine \<open>carrierToPipe\<close> runs at the server or the client.
\<close>

record pair =
  pr_client :: streamMig
  pr_server :: streamMig
  pr_upMux :: "mout list"
  pr_downMux :: "mout list"
  pr_upB :: bytes
  pr_downB :: bytes
  pr_ready :: bool
  pr_dialled :: bool
  pr_hello :: bool
  pr_upFeed :: bool
  pr_downFeed :: bool
  pr_upWritten :: bytes
  pr_downWritten :: bytes
  pr_upRead :: bytes
  pr_downRead :: bytes

definition newPair :: "u32 \<Rightarrow> int \<Rightarrow> bool \<Rightarrow> pair" where
  "newPair sid bulk tls =
     \<lparr>pr_client = newStreamMig True sid bulk tls, pr_server = newStreamMig False sid bulk tls, pr_upMux = [],
      pr_downMux = [], pr_upB = [], pr_downB = [], pr_ready = False, pr_dialled = False, pr_hello = False,
      pr_upFeed = False, pr_downFeed = False, pr_upWritten = [], pr_downWritten = [],
      pr_upRead = [], pr_downRead = []\<rparr>"

fun onMux :: "mout \<Rightarrow> bool" where
  "onMux (MuxData b) = True"
| "onMux (MuxControl f) = True"
| "onMux _ = False"

fun onB :: "mout \<Rightarrow> bytes" where
  "onB (CarrierWrite b) = b"
| "onB _ = []"

text \<open>Run an operation of the client or the server and hand its outputs to the channels.\<close>

definition clientDoes :: "(streamMig \<Rightarrow> streamMig) \<Rightarrow> pair \<Rightarrow> pair" where
  "clientDoes f p =
     (let sm = f ((pr_client p)\<lparr>mg_out := []\<rparr>); out = mg_out sm
      in p\<lparr>pr_client := sm, pr_upMux := pr_upMux p @ filter onMux out, pr_upB := pr_upB p @ concat (map onB out),
           pr_downFeed := pr_downFeed p \<or> StartFeeder \<in> set out\<rparr>)"

definition serverDoes :: "(streamMig \<Rightarrow> streamMig) \<Rightarrow> pair \<Rightarrow> pair" where
  "serverDoes f p =
     (let sm = f ((pr_server p)\<lparr>mg_out := []\<rparr>); out = mg_out sm
      in p\<lparr>pr_server := sm, pr_downMux := pr_downMux p @ filter onMux out, pr_downB := pr_downB p @ concat (map onB out),
           pr_upFeed := pr_upFeed p \<or> StartFeeder \<in> set out\<rparr>)"

text \<open>A write is accepted by a live stream unless the carrier it goes to is closed for writing.\<close>

definition accepts :: "streamMig \<Rightarrow> bool" where
  "accepts sm \<longleftrightarrow> \<not> mg_dead sm \<and> \<not> (mg_bWriteConn sm \<and> (mg_bWriteHalfClosed sm \<or> mg_released sm))"

text \<open>
  A dead side neither writes nor reads: the session has dropped the stream, so frames that still arrive
  are discarded.  The feeder sees the end of the carrier only once the peer has closed its half and every
  byte before has been read; a failure may lose whatever is still on the carrier.
\<close>

inductive pair_step :: "pair \<Rightarrow> pair \<Rightarrow> bool" where
  client_writes: "accepts (pr_client p) \<Longrightarrow>
    pair_step p ((clientDoes (migWrite None False b) p)\<lparr>pr_upWritten := pr_upWritten p @ b\<rparr>)"
| server_writes: "accepts (pr_server p) \<Longrightarrow>
    pair_step p ((serverDoes (migWrite tok reg b) p)\<lparr>pr_downWritten := pr_downWritten p @ b\<rparr>)"
| server_taps: "pair_step p (serverDoes (observeServerRead tok reg b) p)"
| payload_begins: "pair_step p (serverDoes BeginMigrationPayload p)"
| dial_fails: "pr_ready p \<Longrightarrow> pair_step p (p\<lparr>pr_ready := False\<rparr>)"
| client_presents: "pr_ready p \<Longrightarrow>
    pair_step p ((clientDoes (clientPresents h) p)\<lparr>pr_ready := False, pr_dialled := True, pr_hello := True\<rparr>)"
| carrier_ready: "pr_dialled p \<Longrightarrow> pair_step p ((clientDoes (clientCarrierReady wrote) p)\<lparr>pr_dialled := False\<rparr>)"
| token_unknown: "pr_hello p \<Longrightarrow> pair_step p (p\<lparr>pr_hello := False\<rparr>)"
| server_attaches: "pr_hello p \<Longrightarrow> pair_step p ((serverDoes serverAttachCarrier p)\<lparr>pr_hello := False\<rparr>)"
| client_data: "pr_downMux p = MuxData b # q \<Longrightarrow>
    pair_step p (p\<lparr>pr_downMux := q, pr_downRead := (if mg_dead (pr_client p) then pr_downRead p else pr_downRead p @ b)\<rparr>)"
| client_ready: "pr_downMux p = MuxControl f # q \<Longrightarrow> f_cmd f = cmdMigrateReady \<Longrightarrow>
    pair_step p (p\<lparr>pr_downMux := q, pr_ready := pr_ready p \<or> \<not> mg_dead (pr_client p)\<rparr>)"
| client_go: "pr_downMux p = MuxControl f # q \<Longrightarrow> f_cmd f = cmdMigrateGo \<Longrightarrow>
    pair_step p ((if mg_dead (pr_client p) then p else clientDoes clientOnMigrateGo p)\<lparr>pr_downMux := q\<rparr>)"
| server_data: "pr_upMux p = MuxData b # q \<Longrightarrow>
    pair_step p (p\<lparr>pr_upMux := q, pr_upRead := (if mg_dead (pr_server p) then pr_upRead p else pr_upRead p @ b)\<rparr>)"
| server_fin: "pr_upMux p = MuxControl f # q \<Longrightarrow> f_cmd f = cmdUplinkFin \<Longrightarrow>
    pair_step p ((if mg_dead (pr_server p) then p else serverDoes serverOnUplinkFin p)\<lparr>pr_upMux := q\<rparr>)"
| client_feeds: "pr_downFeed p \<Longrightarrow> \<not> mg_dead (pr_client p) \<Longrightarrow> pr_downB p = b @ rest \<Longrightarrow>
    pair_step p ((clientDoes (\<lambda>sm. snd (carrierToPipe b None None sm)) p)\<lparr>pr_downB := rest, pr_downRead := pr_downRead p @ b\<rparr>)"
| server_feeds: "pr_upFeed p \<Longrightarrow> \<not> mg_dead (pr_server p) \<Longrightarrow> pr_upB p = b @ rest \<Longrightarrow>
    pair_step p ((serverDoes (\<lambda>sm. snd (carrierToPipe b None None sm)) p)\<lparr>pr_upB := rest, pr_upRead := pr_upRead p @ b\<rparr>)"
| client_eof: "pr_downFeed p \<Longrightarrow> pr_downB p = [] \<Longrightarrow> mg_bWriteHalfClosed (pr_server p) \<Longrightarrow>
    pair_step p ((clientDoes (\<lambda>sm. snd (carrierToPipe [] (Some EOF) None sm)) p)\<lparr>pr_downFeed := False\<rparr>)"
| server_eof: "pr_upFeed p \<Longrightarrow> pr_upB p = [] \<Longrightarrow> mg_bWriteHalfClosed (pr_client p) \<Longrightarrow>
    pair_step p ((serverDoes (\<lambda>sm. snd (carrierToPipe [] (Some EOF) None sm)) p)\<lparr>pr_upFeed := False\<rparr>)"
| client_feed_fails: "pr_downFeed p \<Longrightarrow> readFailure b err werr = Some e \<Longrightarrow> e \<noteq> EOF \<Longrightarrow>
    pair_step p ((clientDoes (\<lambda>sm. snd (carrierToPipe b err werr sm)) p)\<lparr>pr_downFeed := False, pr_downB := rest\<rparr>)"
| server_feed_fails: "pr_upFeed p \<Longrightarrow> readFailure b err werr = Some e \<Longrightarrow> e \<noteq> EOF \<Longrightarrow>
    pair_step p ((serverDoes (\<lambda>sm. snd (carrierToPipe b err werr sm)) p)\<lparr>pr_upFeed := False, pr_upB := rest\<rparr>)"
| client_half_closes: "pair_step p (clientDoes migCloseWrite p)"
| server_half_closes: "pair_step p (serverDoes migCloseWrite p)"
| client_ends: "pair_step p (clientDoes streamEnds p)"
| server_ends: "pair_step p (serverDoes streamEnds p)"
| client_watchdog: "mg_dead (pr_client p) \<Longrightarrow> pair_step p (clientDoes closeCarrier p)"
| server_watchdog: "mg_dead (pr_server p) \<Longrightarrow> pair_step p (serverDoes closeCarrier p)"

section \<open>Both directions as a switch\<close>

text \<open>What a frame in flight is for the direction whose barrier is \<open>cmd\<close>.\<close>

fun railFrame :: "byte \<Rightarrow> mout \<Rightarrow> bytes option list" where
  "railFrame cmd (MuxData b) = [Some b]"
| "railFrame cmd (MuxControl f) = (if f_cmd f = cmd then [None] else [])"
| "railFrame cmd _ = []"

definition upRail :: "pair \<Rightarrow> rail" where
  "upRail p = \<lparr>rl_mux = concat (map (railFrame cmdUplinkFin) (pr_upMux p)), rl_B = pr_upB p,
     rl_switched = mg_bWriteConn (pr_client p), rl_ended = mg_bWriteHalfClosed (pr_client p),
     rl_clean = mg_uplinkFin (pr_server p), rl_started = mg_uplinkFin (pr_server p), rl_feed = pr_upFeed p,
     rl_alive = (\<not> mg_dead (pr_server p)), rl_eof = mg_bReadHalfClosed (pr_server p),
     rl_written = pr_upWritten p, rl_read = pr_upRead p\<rparr>"

definition downRail :: "pair \<Rightarrow> rail" where
  "downRail p = \<lparr>rl_mux = concat (map (railFrame cmdMigrateGo) (pr_downMux p)), rl_B = pr_downB p,
     rl_switched = mg_bWriteConn (pr_server p), rl_ended = mg_bWriteHalfClosed (pr_server p),
     rl_clean = mg_goSeen (pr_client p), rl_started = mg_cutover (pr_client p), rl_feed = pr_downFeed p,
     rl_alive = (\<not> mg_dead (pr_client p)), rl_eof = mg_bReadHalfClosed (pr_client p),
     rl_written = pr_downWritten p, rl_read = pr_downRead p\<rparr>"

text \<open>Only one token is ever on offer, so at most one carrier is attached.\<close>

definition isOffer :: "mout \<Rightarrow> bool" where
  "isOffer x \<longleftrightarrow> (case x of MuxControl f \<Rightarrow> f_cmd f = cmdMigrateReady | _ \<Rightarrow> False)"

definition offers :: "pair \<Rightarrow> nat" where
  "offers p = length (filter isOffer (pr_downMux p)) + of_bool (pr_ready p) + of_bool (pr_hello p)
     + of_bool (mg_bWriteConn (pr_server p))"

definition pair_inv :: "pair \<Rightarrow> bool" where
  "pair_inv p \<longleftrightarrow>
     mg_isClient (pr_client p) \<and> \<not> mg_isClient (pr_server p) \<and>
     offers p \<le> of_bool (mg_triggered (pr_server p)) \<and>
     (mg_bReady (pr_client p) \<or> pr_dialled p \<longrightarrow> mg_bConn (pr_client p)) \<and>
     (mg_bWriteConn (pr_client p) \<longrightarrow> mg_cutover (pr_client p)) \<and>
     (mg_cutover (pr_client p) \<longrightarrow> mg_goSeen (pr_client p)) \<and>
     (mg_bWriteHalfClosed (pr_client p) \<longrightarrow> mg_bWriteConn (pr_client p)) \<and>
     (mg_bWriteHalfClosed (pr_server p) \<longrightarrow> mg_bWriteConn (pr_server p)) \<and>
     (mg_bWriteConn (pr_server p) \<longrightarrow> mg_bConn (pr_server p))"


lemma newPair_view:
  "pair_inv (newPair sid bulk tls)" "upRail (newPair sid bulk tls) = railStart"
  "downRail (newPair sid bulk tls) = railStart"
  by (simp_all add: pair_inv_def offers_def upRail_def downRail_def newPair_def newStreamMig_def railStart_def)

section \<open>Operations that leave both channels alone\<close>

text \<open>
  \<open>tame\<close>: all the operation may do is note evidence, offer a token at most once, end the stream and close
  the halves of a carrier in use.
\<close>

definition quiet :: "mout \<Rightarrow> bool" where
  "quiet x \<longleftrightarrow> railFrame cmdUplinkFin x = [] \<and> railFrame cmdMigrateGo x = [] \<and> onB x = [] \<and> x \<noteq> StartFeeder"

definition tameOutput :: "streamMig \<Rightarrow> streamMig \<Rightarrow> mout list \<Rightarrow> bool" where
  "tameOutput sm t o' \<longleftrightarrow>
     mg_out t = mg_out sm @ o' \<and> list_all quiet o' \<and>
     length (filter isOffer o') + of_bool (mg_triggered sm) \<le> (of_bool (mg_triggered t) :: nat)"

definition tameState :: "streamMig \<Rightarrow> streamMig \<Rightarrow> bool" where
  "tameState sm t \<longleftrightarrow>
     mg_isClient t = mg_isClient sm \<and> mg_bWriteConn t = mg_bWriteConn sm \<and> (mg_bConn sm \<longrightarrow> mg_bConn t) \<and>
     mg_bReady t = mg_bReady sm \<and> mg_goSeen t = mg_goSeen sm \<and> mg_cutover t = mg_cutover sm \<and>
     mg_uplinkFin t = mg_uplinkFin sm \<and> mg_bReadHalfClosed t = mg_bReadHalfClosed sm \<and>
     (mg_dead sm \<longrightarrow> mg_dead t) \<and> (mg_bWriteHalfClosed sm \<longrightarrow> mg_bWriteHalfClosed t) \<and>
     (mg_bWriteHalfClosed t \<longrightarrow> mg_bWriteHalfClosed sm \<or> mg_bWriteConn sm)"

definition tame :: "streamMig \<Rightarrow> streamMig \<Rightarrow> bool" where
  "tame sm t \<longleftrightarrow> (\<exists>o'. tameOutput sm t o') \<and> tameState sm t"

lemmas tame_unfold = tame_def tameOutput_def tameState_def

lemma tame_refl [simp, intro]: "tame sm sm"
  by (simp add: tame_unfold)

lemma tame_trans:
  assumes "tame sm t" and "tame t u"
  shows "tame sm u"
proof -
  from assms obtain x y where xy: "tameOutput sm t x" "tameOutput t u y"
    by (auto simp: tame_def)
  then have "tameOutput sm u (x @ y)"
    by (simp add: tameOutput_def)
  moreover have "tameState sm u"
    using assms by (simp add: tame_def tameState_def) blast
  ultimately show ?thesis
    by (auto simp: tame_def)
qed

lemma tame_mput: "quiet x \<Longrightarrow> \<not> isOffer x \<Longrightarrow> tame sm (mput x sm)"
  by (simp add: tame_unfold mput_def)

lemma tame_closeCarrier: "tame sm (closeCarrier sm)"
  by (simp add: tame_unfold closeCarrier_def mput_def quiet_def isOffer_def)

lemma tame_maybeFullCloseCarrier: "tame sm (maybeFullCloseCarrier sm)"
  by (simp add: maybeFullCloseCarrier_def tame_closeCarrier)

lemma tame_halfClose:
  "mg_bWriteConn sm \<Longrightarrow> tame sm (mput CarrierCloseWrite (sm\<lparr>mg_bWriteHalfClosed := True\<rparr>))"
  by (simp add: tame_unfold mput_def quiet_def isOffer_def)

lemma tame_closeOnStreamEnd: "tame sm (closeOnStreamEnd sm)"
proof (cases "mg_bWriteConn sm")
  case True
  let ?t = "if \<not> mg_bWriteHalfClosed sm then mput CarrierCloseWrite (sm\<lparr>mg_bWriteHalfClosed := True\<rparr>) else sm"
  have "tame sm ?t"
    using True by (simp add: tame_halfClose)
  then show ?thesis
    using True tame_trans[OF tame_trans[OF _ tame_maybeFullCloseCarrier] tame_mput[of StartWatchdog]]
    by (simp add: closeOnStreamEnd_def Let_def quiet_def isOffer_def)
qed (simp add: closeOnStreamEnd_def tame_closeCarrier)

lemma tame_streamEnds: "tame sm (streamEnds sm)"
proof -
  have "tame sm (sm\<lparr>mg_dead := True\<rparr>)"
    by (simp add: tame_unfold)
  from tame_trans[OF this tame_closeOnStreamEnd] show ?thesis
    by (simp add: streamEnds_def)
qed

lemma tame_migCloseWrite: "tame sm (migCloseWrite sm)"
  using tame_trans[OF tame_halfClose tame_maybeFullCloseCarrier]
  by (simp add: migCloseWrite_def tame_streamEnds)

lemma tame_clientPresents: "tame sm (clientPresents h sm)"
  by (simp add: tame_unfold clientPresents_def mput_def quiet_def isOffer_def)

lemma tame_serverMaybeTrigger: "tame sm (serverMaybeTrigger tok reg sm)"
  by (simp add: serverMaybeTrigger_def Let_def split: option.split)
    (auto simp: tame_unfold mput_def quiet_def isOffer_def newFrame_def)

lemma tame_detector: "tame sm (sm\<lparr>mg_detector := d\<rparr>)" "tame sm (sm\<lparr>mg_detector := d, mg_tapsDone := True\<rparr>)"
  "tame sm (sm\<lparr>mg_payloadStarted := True\<rparr>)"
  by (simp_all add: tame_unfold)

lemma tame_taps:
  "tame sm (observeServerRead tok reg b sm)" "tame sm (observeServerWrite b sm)" "tame sm (BeginMigrationPayload sm)"
  by (auto simp: observeServerRead_def observeServerWrite_def BeginMigrationPayload_def Let_def tame_detector
      tame_trans[OF tame_detector(1) tame_serverMaybeTrigger] split: option.split)

lemma tame_carrierToPipe_fails:
  "readFailure b err werr = Some e \<Longrightarrow> e \<noteq> EOF \<Longrightarrow> tame sm (snd (carrierToPipe b err werr sm))"
  using tame_trans[OF tame_mput[of "PipeWrite b" sm] tame_trans[OF tame_closeCarrier tame_streamEnds]]
    tame_trans[OF tame_closeCarrier tame_streamEnds]
  by (simp add: carrierToPipe_def readFailure_def Let_def quiet_def isOffer_def)

section \<open>Simulation\<close>

lemma quiet_filter:
  assumes "list_all quiet o'"
  shows "concat (map (railFrame cmdUplinkFin) (filter onMux o')) = []"
    and "concat (map (railFrame cmdMigrateGo) (filter onMux o')) = []"
    and "concat (map onB o') = []" and "StartFeeder \<notin> set o'"
  using assms by (induction o') (auto simp: quiet_def)

lemma offer_onMux [simp]: "onMux x \<and> isOffer x \<longleftrightarrow> isOffer x"
  by (cases x) (simp_all add: isOffer_def)

lemma rail_half_close:
  assumes "e \<Longrightarrow> rl_switched r \<or> rl_ended r"
  shows "rail_step\<^sup>*\<^sup>* r (r\<lparr>rl_ended := rl_ended r \<or> e\<rparr>)"
proof (cases "rl_switched r \<and> e")
  case False
  with assms have "r\<lparr>rl_ended := rl_ended r \<or> e\<rparr> = r"
    by (cases r) auto
  then show ?thesis
    by simp
qed (use rail_step.half_close[of r] in auto)

lemma rail_die: "rail_step\<^sup>*\<^sup>* r (r\<lparr>rl_alive := rl_alive r \<and> a\<rparr>)"
  using rail_step.die[of r] by (cases a) auto

text \<open>A tame operation shows as a half-close of its own direction and as the death of the other's reader.\<close>

lemma tame_client:
  assumes t: "tame ((pr_client p)\<lparr>mg_out := []\<rparr>) (f ((pr_client p)\<lparr>mg_out := []\<rparr>))"
  defines "sm \<equiv> f ((pr_client p)\<lparr>mg_out := []\<rparr>)"
  shows "upRail (clientDoes f p) = (upRail p)\<lparr>rl_ended := rl_ended (upRail p) \<or> mg_bWriteHalfClosed sm\<rparr>"
    and "downRail (clientDoes f p) = (downRail p)\<lparr>rl_alive := rl_alive (downRail p) \<and> \<not> mg_dead sm\<rparr>"
    and "rail_step\<^sup>*\<^sup>* (upRail p) (upRail (clientDoes f p))"
    and "rail_step\<^sup>*\<^sup>* (downRail p) (downRail (clientDoes f p))"
proof -
  from t obtain o' where "tameOutput ((pr_client p)\<lparr>mg_out := []\<rparr>) sm o'" "tameState ((pr_client p)\<lparr>mg_out := []\<rparr>) sm"
    unfolding tame_def sm_def by blast
  then have o': "list_all quiet o'" "mg_out sm = o'" and st: "tameState (pr_client p) sm"
    by (simp_all add: tameOutput_def tameState_def)
  have f: "f ((pr_client p)\<lparr>mg_out := []\<rparr>) = sm"
    by (simp add: sm_def)
  have m: "(mg_bWriteHalfClosed (pr_client p) \<or> mg_bWriteHalfClosed sm) = mg_bWriteHalfClosed sm"
      "(\<not> mg_dead (pr_client p) \<and> \<not> mg_dead sm) = (\<not> mg_dead sm)"
    using st by (auto simp: tameState_def)
  note simps = clientDoes_def Let_def f o'(2) m quiet_filter[OF o'(1)]
  show up: "upRail (clientDoes f p) = (upRail p)\<lparr>rl_ended := rl_ended (upRail p) \<or> mg_bWriteHalfClosed sm\<rparr>"
    using st by (simp add: upRail_def tameState_def simps del: cmdUplinkFin_def)
  show down: "downRail (clientDoes f p) = (downRail p)\<lparr>rl_alive := rl_alive (downRail p) \<and> \<not> mg_dead sm\<rparr>"
    using st by (simp add: downRail_def tameState_def simps del: cmdMigrateGo_def)
  show "rail_step\<^sup>*\<^sup>* (upRail p) (upRail (clientDoes f p))"
    unfolding up using st by (intro rail_half_close) (auto simp: upRail_def tameState_def)
  show "rail_step\<^sup>*\<^sup>* (downRail p) (downRail (clientDoes f p))"
    unfolding down by (rule rail_die)
qed

lemma tame_server:
  assumes t: "tame ((pr_server p)\<lparr>mg_out := []\<rparr>) (f ((pr_server p)\<lparr>mg_out := []\<rparr>))"
  defines "sm \<equiv> f ((pr_server p)\<lparr>mg_out := []\<rparr>)"
  shows "downRail (serverDoes f p) = (downRail p)\<lparr>rl_ended := rl_ended (downRail p) \<or> mg_bWriteHalfClosed sm\<rparr>"
    and "upRail (serverDoes f p) = (upRail p)\<lparr>rl_alive := rl_alive (upRail p) \<and> \<not> mg_dead sm\<rparr>"
    and "rail_step\<^sup>*\<^sup>* (downRail p) (downRail (serverDoes f p))"
    and "rail_step\<^sup>*\<^sup>* (upRail p) (upRail (serverDoes f p))"
proof -
  from t obtain o' where "tameOutput ((pr_server p)\<lparr>mg_out := []\<rparr>) sm o'" "tameState ((pr_server p)\<lparr>mg_out := []\<rparr>) sm"
    unfolding tame_def sm_def by blast
  then have o': "list_all quiet o'" "mg_out sm = o'" and st: "tameState (pr_server p) sm"
    by (simp_all add: tameOutput_def tameState_def)
  have f: "f ((pr_server p)\<lparr>mg_out := []\<rparr>) = sm"
    by (simp add: sm_def)
  have m: "(mg_bWriteHalfClosed (pr_server p) \<or> mg_bWriteHalfClosed sm) = mg_bWriteHalfClosed sm"
      "(\<not> mg_dead (pr_server p) \<and> \<not> mg_dead sm) = (\<not> mg_dead sm)"
    using st by (auto simp: tameState_def)
  note simps = serverDoes_def Let_def f o'(2) m quiet_filter[OF o'(1)]
  show down: "downRail (serverDoes f p) = (downRail p)\<lparr>rl_ended := rl_ended (downRail p) \<or> mg_bWriteHalfClosed sm\<rparr>"
    using st by (simp add: downRail_def tameState_def simps del: cmdMigrateGo_def)
  show up: "upRail (serverDoes f p) = (upRail p)\<lparr>rl_alive := rl_alive (upRail p) \<and> \<not> mg_dead sm\<rparr>"
    using st by (simp add: upRail_def tameState_def simps del: cmdUplinkFin_def)
  show "rail_step\<^sup>*\<^sup>* (downRail p) (downRail (serverDoes f p))"
    unfolding down using st by (intro rail_half_close) (auto simp: downRail_def tameState_def)
  show "rail_step\<^sup>*\<^sup>* (upRail p) (upRail (serverDoes f p))"
    unfolding up by (rule rail_die)
qed

lemma tame_inv_client:
  assumes "tame ((pr_client p)\<lparr>mg_out := []\<rparr>) (f ((pr_client p)\<lparr>mg_out := []\<rparr>))" and "pair_inv p"
  shows "pair_inv (clientDoes f p)"
  using assms by (simp add: pair_inv_def offers_def clientDoes_def Let_def tame_def tameState_def) blast

lemma tame_inv_server:
  assumes t: "tame ((pr_server p)\<lparr>mg_out := []\<rparr>) (f ((pr_server p)\<lparr>mg_out := []\<rparr>))" and "pair_inv p"
  shows "pair_inv (serverDoes f p)"
proof -
  define sm where "sm = f ((pr_server p)\<lparr>mg_out := []\<rparr>)"
  from t have o': "length (filter isOffer (mg_out sm)) + of_bool (mg_triggered (pr_server p)) \<le> (of_bool (mg_triggered sm) :: nat)"
    and st: "tameState (pr_server p) sm"
    by (auto simp: tame_unfold sm_def)
  have "offers (serverDoes f p) = offers p + length (filter isOffer (mg_out sm))"
    using st by (simp add: offers_def serverDoes_def Let_def tameState_def flip: sm_def)
  then have "offers (serverDoes f p) \<le> of_bool (mg_triggered sm)"
    using o' assms(2) by (simp add: pair_inv_def)
  then show ?thesis
    using assms(2) st by (simp add: pair_inv_def serverDoes_def Let_def tameState_def flip: sm_def) blast
qed

lemmas tame_ops = tame_taps tame_streamEnds tame_migCloseWrite tame_closeCarrier tame_clientPresents
  tame_carrierToPipe_fails

text \<open>The steps that move data or a barrier, one lemma each; \<open>pair_rails\<close> is what is to be shown of them.\<close>

definition pair_rails :: "pair \<Rightarrow> pair \<Rightarrow> bool" where
  "pair_rails p q \<longleftrightarrow>
     pair_inv q \<and> rail_step\<^sup>*\<^sup>* (upRail p) (upRail q) \<and> rail_step\<^sup>*\<^sup>* (downRail p) (downRail q)"

lemmas pair_rails_unfold = pair_rails_def pair_inv_def offers_def upRail_def downRail_def clientDoes_def
  serverDoes_def Let_def mput_def newFrame_def isOffer_def

lemma client_writes_rails:
  assumes "accepts (pr_client p)" and "pair_inv p"
  shows "pair_rails p ((clientDoes (migWrite None False b) p)\<lparr>pr_upWritten := pr_upWritten p @ b\<rparr>)"
    (is "pair_rails p ?q")
proof -
  have "rail_step (upRail p) (upRail ?q)"
  proof (cases "mg_bWriteConn (pr_client p)")
    case True
    with assms show ?thesis
      using rail_step.write_carrier[of "upRail p" b]
      by (simp add: pair_rails_unfold migWrite_def accepts_def)
  next
    case False
    with assms show ?thesis
      using rail_step.write_mux[of "upRail p" b]
      by (simp add: pair_rails_unfold migWrite_def accepts_def)
  qed
  moreover have "pair_inv ?q" "downRail ?q = downRail p"
    using assms by (auto simp: pair_rails_unfold migWrite_def)
  ultimately show ?thesis
    by (simp add: pair_rails_def)
qed

lemma server_muxWrite_rails:
  assumes t: "tame ((pr_server p)\<lparr>mg_out := []\<rparr>) t" and u: "tame (mput (MuxData b) t) u"
    and f: "f ((pr_server p)\<lparr>mg_out := []\<rparr>) = u"
    and mux: "\<not> mg_bWriteConn (pr_server p)" and inv: "pair_inv p"
  shows "pair_rails p ((serverDoes f p)\<lparr>pr_downWritten := pr_downWritten p @ b\<rparr>)" (is "pair_rails p ?q")
proof -
  obtain x y where x: "tameOutput ((pr_server p)\<lparr>mg_out := []\<rparr>) t x" and y: "tameOutput (mput (MuxData b) t) u y"
    using t u by (auto simp: tame_def)
  then have out: "mg_out u = x @ MuxData b # y" and q: "list_all quiet x" "list_all quiet y"
    and trig: "length (filter isOffer x) + length (filter isOffer y) + of_bool (mg_triggered (pr_server p))
                 \<le> (of_bool (mg_triggered u) :: nat)"
    by (simp_all add: tameOutput_def mput_def)
  have st: "tameState (pr_server p) u"
    using t u by (simp add: tame_def tameState_def mput_def) blast
  have closed: "\<not> mg_bWriteHalfClosed (pr_server p)" "\<not> mg_bWriteHalfClosed u" "\<not> mg_bWriteConn u"
    using st mux inv by (auto simp: tameState_def pair_inv_def)
  note quiet = quiet_filter[OF q(1)] quiet_filter[OF q(2)]
  have "downRail ?q = (downRail p)\<lparr>rl_mux := rl_mux (downRail p) @ [Some b], rl_written := rl_written (downRail p) @ b\<rparr>"
    using st closed mux
    by (simp add: downRail_def serverDoes_def Let_def f out tameState_def quiet del: cmdMigrateGo_def)
  with rail_step.write_mux[of "downRail p" b] have "rail_step (downRail p) (downRail ?q)"
    using mux by (simp add: downRail_def)
  moreover have "upRail ?q = (upRail p)\<lparr>rl_alive := rl_alive (upRail p) \<and> \<not> mg_dead u\<rparr>"
    using st by (auto simp: upRail_def serverDoes_def Let_def f out tameState_def quiet simp del: cmdUplinkFin_def)
  with rail_die[of "upRail p"] have "rail_step\<^sup>*\<^sup>* (upRail p) (upRail ?q)"
    by simp
  moreover have "offers ?q = offers p + length (filter isOffer x) + length (filter isOffer y)"
    using closed mux by (simp add: offers_def serverDoes_def Let_def f out) (simp add: isOffer_def)
  then have "pair_inv ?q"
    using trig inv st closed by (simp add: pair_inv_def serverDoes_def Let_def f tameState_def)
  ultimately show ?thesis
    by (simp add: pair_rails_def)
qed

lemma server_writes_rails:
  assumes "accepts (pr_server p)" and "pair_inv p"
  shows "pair_rails p ((serverDoes (migWrite tok reg b) p)\<lparr>pr_downWritten := pr_downWritten p @ b\<rparr>)"
    (is "pair_rails p ?q")
proof (cases "mg_bWriteConn (pr_server p)")
  case True
  with assms have "rail_step (downRail p) (downRail ?q)"
    using rail_step.write_carrier[of "downRail p" b]
    by (simp add: pair_rails_unfold migWrite_def accepts_def)
  moreover have "pair_inv ?q" "upRail ?q = upRail p"
    using assms True by (simp_all add: pair_rails_unfold migWrite_def)
  ultimately show ?thesis
    by (simp add: pair_rails_def)
next
  case False
  let ?sm = "(pr_server p)\<lparr>mg_out := []\<rparr>"
  have "mg_isClient (mput (MuxData b) (observeServerWrite b ?sm)) = False"
    using assms(2) tame_taps(2)[of ?sm b] by (simp add: pair_inv_def tame_def tameState_def mput_def)
  then have m: "migWrite tok reg b ?sm = serverMaybeTrigger tok reg (mput (MuxData b) (observeServerWrite b ?sm))"
    using False assms(2) by (simp add: migWrite_def pair_inv_def)
  show ?thesis
    by (rule server_muxWrite_rails[where t = "observeServerWrite b ?sm"
          and u = "serverMaybeTrigger tok reg (mput (MuxData b) (observeServerWrite b ?sm))"])
      (fact tame_taps tame_serverMaybeTrigger m False assms)+
qed

lemma server_attaches_rails:
  assumes "pr_hello p" and inv: "pair_inv p"
  shows "pair_rails p ((serverDoes serverAttachCarrier p)\<lparr>pr_hello := False\<rparr>)" (is "pair_rails p ?q")
proof (cases "mg_dead (pr_server p)")
  case True
  with inv show ?thesis
    by (simp add: pair_rails_unfold serverAttachCarrier_def)
next
  case False
  have off: "\<not> mg_bWriteConn (pr_server p)" "mg_triggered (pr_server p)"
    using inv assms(1) by (auto simp: pair_inv_def offers_def of_bool_def split: if_splits)
  with rail_step.switch[of "downRail p"] False have "rail_step (downRail p) (downRail ?q)"
    by (simp add: pair_rails_unfold serverAttachCarrier_def)
  moreover have "upRail ?q = upRail p" "pair_inv ?q"
    using inv assms(1) False off by (simp_all add: pair_rails_unfold serverAttachCarrier_def)
  ultimately show ?thesis
    by (simp add: pair_rails_def)
qed


lemma pair_rails_trans:
  "pair_rails p q \<Longrightarrow> pair_rails q r \<Longrightarrow> pair_rails p r"
  unfolding pair_rails_def by (meson rtranclp_trans)

lemma cutover_rails:
  assumes inv: "pair_inv p"
  shows "pair_rails p (clientDoes maybeClientCutover p)" (is "pair_rails p ?q")
proof (cases "mg_bReady (pr_client p) \<and> mg_goSeen (pr_client p) \<and> \<not> mg_cutover (pr_client p)")
  case True
  then have c: "mg_bConn (pr_client p)" "\<not> mg_bWriteConn (pr_client p)"
    using inv by (auto simp: pair_inv_def)
  have "rail_step\<^sup>*\<^sup>* (upRail p) (upRail ?q)"
  proof (cases "mg_dead (pr_client p)")
    case False
    with True c show ?thesis
      using rail_step.switch[of "upRail p"] by (simp add: pair_rails_unfold maybeClientCutover_def r_into_rtranclp)
  qed (use True c in \<open>simp add: pair_rails_unfold maybeClientCutover_def\<close>)
  moreover have "rail_step (downRail p) (downRail ?q)"
    using True rail_step.start[of "downRail p" True]
    by (cases "mg_dead (pr_client p)") (simp_all add: pair_rails_unfold maybeClientCutover_def)
  moreover have "pair_inv ?q"
    using True inv by (auto simp: pair_rails_unfold maybeClientCutover_def)
  ultimately show ?thesis
    by (simp add: pair_rails_def)
next
  case False
  with inv show ?thesis
    by (auto simp: pair_rails_unfold maybeClientCutover_def)
qed

lemma out_swap:
  "sm\<lparr>mg_out := xs, mg_bReady := b\<rparr> = sm\<lparr>mg_bReady := b, mg_out := xs\<rparr>"
  "sm\<lparr>mg_out := xs, mg_goSeen := b\<rparr> = sm\<lparr>mg_goSeen := b, mg_out := xs\<rparr>"
  "sm\<lparr>mg_out := xs, mg_bReadHalfClosed := b\<rparr> = sm\<lparr>mg_bReadHalfClosed := b, mg_out := xs\<rparr>"
  by simp_all

lemma carrier_ready_rails:
  assumes "pr_dialled p" and inv: "pair_inv p"
  shows "pair_rails p ((clientDoes (clientCarrierReady wrote) p)\<lparr>pr_dialled := False\<rparr>)" (is "pair_rails p ?q")
proof (cases wrote)
  case True
  let ?p = "p\<lparr>pr_client := (pr_client p)\<lparr>mg_bReady := True\<rparr>, pr_dialled := False\<rparr>"
  from True have "?q = clientDoes maybeClientCutover ?p"
    by (cases p) (simp add: clientDoes_def clientCarrierReady_def Let_def out_swap)
  moreover have "pair_inv ?p" "upRail ?p = upRail p" "downRail ?p = downRail p"
    using assms by (simp_all add: pair_inv_def offers_def upRail_def downRail_def)
  ultimately show ?thesis
    using cutover_rails[of ?p] by (simp add: pair_rails_def)
next
  case False
  then have q: "?q = (clientDoes closeCarrier p)\<lparr>pr_dialled := False\<rparr>"
    by (simp add: clientDoes_def clientCarrierReady_def)
  have drop: "pair_inv r \<Longrightarrow> pair_inv (r\<lparr>pr_dialled := False\<rparr>)" "upRail (r\<lparr>pr_dialled := False\<rparr>) = upRail r"
      "downRail (r\<lparr>pr_dialled := False\<rparr>) = downRail r" for r
    by (simp_all add: pair_inv_def offers_def upRail_def downRail_def)
  show ?thesis
    unfolding q pair_rails_def
    using tame_inv_client[of p closeCarrier] tame_client(3,4)[of p closeCarrier] inv by (simp add: drop tame_closeCarrier)
qed

lemma client_go_rails:
  assumes go: "pr_downMux p = MuxControl f # q" "f_cmd f = cmdMigrateGo" and inv: "pair_inv p"
  shows "pair_rails p ((if mg_dead (pr_client p) then p else clientDoes clientOnMigrateGo p)\<lparr>pr_downMux := q\<rparr>)"
proof -
  let ?p = "p\<lparr>pr_client := (pr_client p)\<lparr>mg_goSeen := mg_goSeen (pr_client p) \<or> \<not> mg_dead (pr_client p)\<rparr>, pr_downMux := q\<rparr>"
  have "rail_step (downRail p) (downRail ?p)"
    using go rail_step.barrier[of "downRail p" "concat (map (railFrame cmdMigrateGo) q)"] by (simp add: downRail_def)
  moreover have "pair_inv ?p" "upRail ?p = upRail p"
    using go inv by (auto simp: pair_inv_def offers_def isOffer_def upRail_def)
  ultimately have *: "pair_rails p ?p" "pair_inv ?p"
    by (simp_all add: pair_rails_def)
  show ?thesis
  proof (cases "mg_dead (pr_client p)")
    case True
    with * show ?thesis
      by simp
  next
    case False
    then have "(clientDoes clientOnMigrateGo p)\<lparr>pr_downMux := q\<rparr> = clientDoes maybeClientCutover ?p"
      by (cases p) (simp add: clientDoes_def clientOnMigrateGo_def Let_def out_swap)
    with pair_rails_trans[OF * (1) cutover_rails[OF * (2)]] False show ?thesis
      by simp
  qed
qed

lemma server_fin_rails:
  assumes fin: "pr_upMux p = MuxControl f # q" "f_cmd f = cmdUplinkFin" and inv: "pair_inv p"
  shows "pair_rails p ((if mg_dead (pr_server p) then p else serverDoes serverOnUplinkFin p)\<lparr>pr_upMux := q\<rparr>)"
    (is "pair_rails p ?q")
proof -
  let ?r = "(upRail p)\<lparr>rl_mux := concat (map (railFrame cmdUplinkFin) q), rl_clean := rl_clean (upRail p) \<or> rl_alive (upRail p)\<rparr>"
  have "rail_step (upRail p) ?r"
    using fin by (intro rail_step.barrier) (simp add: upRail_def)
  moreover have "rail_step\<^sup>*\<^sup>* ?r (upRail ?q)"
  proof (cases "mg_dead (pr_server p) \<or> mg_uplinkFin (pr_server p)")
    case True
    then show ?thesis
      by (auto simp: upRail_def serverDoes_def serverOnUplinkFin_def Let_def)
  next
    case False
    then show ?thesis
      using rail_step.start[of ?r "pr_upFeed p \<or> mg_bConn (pr_server p)"]
      by (auto simp: upRail_def serverDoes_def serverOnUplinkFin_def Let_def mput_def intro!: r_into_rtranclp)
  qed
  moreover have "pair_inv ?q" "downRail ?q = downRail p"
    using inv by (auto simp: pair_rails_unfold serverOnUplinkFin_def)
  ultimately show ?thesis
    by (simp add: pair_rails_def converse_rtranclp_into_rtranclp)
qed


subsection \<open>The carrier's readers\<close>

lemma tame_PipeWrite: "tame sm (snd (carrierToPipe b None None sm))"
  by (simp add: carrierToPipe_def readFailure_def tame_mput quiet_def isOffer_def)

lemma feeds_rails:
  assumes inv: "pair_inv p"
  shows "pr_downFeed p \<Longrightarrow> \<not> mg_dead (pr_client p) \<Longrightarrow> pr_downB p = b @ rest \<Longrightarrow> pair_rails p
      ((clientDoes (\<lambda>sm. snd (carrierToPipe b None None sm)) p)\<lparr>pr_downB := rest, pr_downRead := pr_downRead p @ b\<rparr>)"
    and "pr_upFeed p \<Longrightarrow> \<not> mg_dead (pr_server p) \<Longrightarrow> pr_upB p = b @ rest \<Longrightarrow> pair_rails p
      ((serverDoes (\<lambda>sm. snd (carrierToPipe b None None sm)) p)\<lparr>pr_upB := rest, pr_upRead := pr_upRead p @ b\<rparr>)"
  using inv rail_step.feed[of "downRail p" b rest] rail_step.feed[of "upRail p" b rest]
  by (auto simp: pair_rails_unfold carrierToPipe_def readFailure_def intro!: r_into_rtranclp)

lemma eof_out:
  fixes sm :: streamMig
  defines "sm' \<equiv> snd (carrierToPipe [] (Some EOF) None (sm\<lparr>mg_out := []\<rparr>))"
  shows "list_all quiet (mg_out sm')" "filter isOffer (mg_out sm') = []" "mg_bReadHalfClosed sm'"
    "tameState (sm\<lparr>mg_bReadHalfClosed := True\<rparr>) sm'" "mg_triggered sm' = mg_triggered sm" "mg_dead sm' = mg_dead sm"
    "mg_bWriteHalfClosed sm' = mg_bWriteHalfClosed sm"
  by (simp_all add: sm'_def carrierToPipe_def readFailure_def maybeFullCloseCarrier_def closeCarrier_def mput_def
      Let_def quiet_def isOffer_def tameState_def)

lemma client_eof_rails:
  assumes "pr_downFeed p" "pr_downB p = []" "mg_bWriteHalfClosed (pr_server p)" and inv: "pair_inv p"
  shows "pair_rails p ((clientDoes (\<lambda>sm. snd (carrierToPipe [] (Some EOF) None sm)) p)\<lparr>pr_downFeed := False\<rparr>)"
    (is "pair_rails p ?q")
proof -
  note sm = eof_out[of "pr_client p"]
  note quiet = quiet_filter[OF sm(1)]
  have "rail_step (downRail p) (downRail ?q)"
    using assms sm rail_step.feed_ends[of "downRail p"]
    by (simp add: downRail_def clientDoes_def Let_def tameState_def quiet del: cmdMigrateGo_def)
  moreover have "upRail ?q = upRail p"
    using sm by (simp add: upRail_def clientDoes_def Let_def tameState_def quiet del: cmdUplinkFin_def)
  moreover have "pair_inv ?q"
    using sm inv by (simp add: pair_inv_def offers_def clientDoes_def Let_def tameState_def)
  ultimately show ?thesis
    by (simp add: pair_rails_def)
qed

lemma server_eof_rails:
  assumes "pr_upFeed p" "pr_upB p = []" "mg_bWriteHalfClosed (pr_client p)" and inv: "pair_inv p"
  shows "pair_rails p ((serverDoes (\<lambda>sm. snd (carrierToPipe [] (Some EOF) None sm)) p)\<lparr>pr_upFeed := False\<rparr>)"
    (is "pair_rails p ?q")
proof -
  note sm = eof_out[of "pr_server p"]
  note quiet = quiet_filter[OF sm(1)]
  have "rail_step (upRail p) (upRail ?q)"
    using assms sm rail_step.feed_ends[of "upRail p"]
    by (simp add: upRail_def serverDoes_def Let_def tameState_def quiet del: cmdUplinkFin_def)
  moreover have "downRail ?q = downRail p"
    using sm by (simp add: downRail_def serverDoes_def Let_def tameState_def quiet del: cmdMigrateGo_def)
  moreover have "pair_inv ?q"
    using sm inv by (simp add: pair_inv_def offers_def serverDoes_def Let_def tameState_def)
  ultimately show ?thesis
    by (simp add: pair_rails_def)
qed


lemma client_fails_rails:
  assumes feed: "pr_downFeed p" and t: "tame ((pr_client p)\<lparr>mg_out := []\<rparr>) (f ((pr_client p)\<lparr>mg_out := []\<rparr>))"
    and dead: "mg_dead (f ((pr_client p)\<lparr>mg_out := []\<rparr>))" and inv: "pair_inv p"
  shows "pair_rails p ((clientDoes f p)\<lparr>pr_downFeed := False, pr_downB := rest\<rparr>)" (is "pair_rails p ?q")
proof -
  let ?r = "clientDoes f p"
  have "downRail ?q = (downRail p)\<lparr>rl_B := rest, rl_feed := False, rl_alive := False\<rparr>"
    using tame_client(2)[of p f, OF t] dead by (simp add: downRail_def)
  then have "rail_step (downRail p) (downRail ?q)"
    using rail_step.feed_fails[of "downRail p" rest] feed by (simp add: downRail_def)
  moreover have "upRail ?q = upRail ?r" "pair_inv ?q = pair_inv ?r"
    by (simp_all add: upRail_def pair_inv_def offers_def)
  ultimately show ?thesis
    using tame_client(3)[of p f, OF t] tame_inv_client[of p f, OF t inv] by (simp add: pair_rails_def)
qed

lemma server_fails_rails:
  assumes feed: "pr_upFeed p" and t: "tame ((pr_server p)\<lparr>mg_out := []\<rparr>) (f ((pr_server p)\<lparr>mg_out := []\<rparr>))"
    and dead: "mg_dead (f ((pr_server p)\<lparr>mg_out := []\<rparr>))" and inv: "pair_inv p"
  shows "pair_rails p ((serverDoes f p)\<lparr>pr_upFeed := False, pr_upB := rest\<rparr>)" (is "pair_rails p ?q")
proof -
  let ?r = "serverDoes f p"
  have "upRail ?q = (upRail p)\<lparr>rl_B := rest, rl_feed := False, rl_alive := False\<rparr>"
    using tame_server(2)[of p f, OF t] dead by (simp add: upRail_def)
  then have "rail_step (upRail p) (upRail ?q)"
    using rail_step.feed_fails[of "upRail p" rest] feed by (simp add: upRail_def)
  moreover have "downRail ?q = downRail ?r" "pair_inv ?q = pair_inv ?r"
    by (simp_all add: downRail_def pair_inv_def offers_def)
  ultimately show ?thesis
    using tame_server(3)[of p f, OF t] tame_inv_server[of p f, OF t inv] by (simp add: pair_rails_def)
qed

lemma dead_streamEnds: "mg_dead (streamEnds sm)"
  using tame_closeOnStreamEnd[of "sm\<lparr>mg_dead := True\<rparr>"]
  by (simp add: streamEnds_def tame_def tameState_def)

lemma dead_after_failure: "readFailure b err werr = Some e \<Longrightarrow> e \<noteq> EOF \<Longrightarrow> mg_dead (snd (carrierToPipe b err werr sm))"
  by (simp add: carrierToPipe_def Let_def dead_streamEnds)

lemma tame_rails:
  "tame ((pr_client p)\<lparr>mg_out := []\<rparr>) (f ((pr_client p)\<lparr>mg_out := []\<rparr>)) \<Longrightarrow> pair_inv p \<Longrightarrow> pair_rails p (clientDoes f p)"
  "tame ((pr_server p)\<lparr>mg_out := []\<rparr>) (f ((pr_server p)\<lparr>mg_out := []\<rparr>)) \<Longrightarrow> pair_inv p \<Longrightarrow> pair_rails p (serverDoes f p)"
  using tame_client(3,4)[of p f] tame_server(3,4)[of p f] tame_inv_client[of p f] tame_inv_server[of p f]
  by (simp_all add: pair_rails_def)

lemma presents_rails:
  assumes "pr_ready p" and inv: "pair_inv p"
  shows "pair_rails p ((clientDoes (clientPresents h) p)\<lparr>pr_ready := False, pr_dialled := True, pr_hello := True\<rparr>)"
  using assms by (auto simp: pair_rails_unfold clientPresents_def)

lemma data_rails:
  assumes inv: "pair_inv p"
  shows "pr_downMux p = MuxData b # q \<Longrightarrow> pair_rails p
      (p\<lparr>pr_downMux := q, pr_downRead := (if mg_dead (pr_client p) then pr_downRead p else pr_downRead p @ b)\<rparr>)"
    and "pr_upMux p = MuxData b # q \<Longrightarrow> pair_rails p
      (p\<lparr>pr_upMux := q, pr_upRead := (if mg_dead (pr_server p) then pr_upRead p else pr_upRead p @ b)\<rparr>)"
    and "pr_downMux p = MuxControl f # q \<Longrightarrow> f_cmd f = cmdMigrateReady \<Longrightarrow>
      pair_rails p (p\<lparr>pr_downMux := q, pr_ready := pr_ready p \<or> \<not> mg_dead (pr_client p)\<rparr>)"
    and "pair_rails p (p\<lparr>pr_ready := False\<rparr>)" "pair_rails p (p\<lparr>pr_hello := False\<rparr>)"
  using inv rail_step.data[of "downRail p" b "concat (map (railFrame cmdMigrateGo) q)"]
    rail_step.data[of "upRail p" b "concat (map (railFrame cmdUplinkFin) q)"]
  by (auto simp: pair_rails_unfold of_bool_def intro!: r_into_rtranclp split: if_splits)

lemma pair_step_rails:
  assumes "pair_step p q" and inv: "pair_inv p"
  shows "pair_rails p q"
  using assms(1)
  by (cases rule: pair_step.cases)
    (simp_all add: inv tame_rails tame_ops client_writes_rails server_writes_rails data_rails presents_rails
      carrier_ready_rails server_attaches_rails client_go_rails server_fin_rails feeds_rails client_eof_rails
      server_eof_rails client_fails_rails server_fails_rails dead_after_failure del: cmdMigrateGo_def cmdUplinkFin_def
      cmdMigrateReady_def)

interpretation uplink: rail_refinement pair_step pair_inv upRail
  by unfold_locales (simp_all add: pair_step_rails[unfolded pair_rails_def])

interpretation downlink: rail_refinement pair_step pair_inv downRail
  by unfold_locales (simp_all add: pair_step_rails[unfolded pair_rails_def])

end
