(* ===== verification/Migration_Run.thy ===== *)
theory Migration_Run
  imports Migration_Order
begin

text \<open>
  What the rail-switch guarantees: a complete run from the first byte to the clean end of the carried
  direction, and the properties of \<open>session/migration.go\<close> that rest on the two refinements.
\<close>

section \<open>A run\<close>

definition bigUp :: bytes where "bigUp = 0x17 # replicate 2047 0"

lemma bigUp_verdict:
  "Ready (observeUplink bigUp (newHandshakeDetector 2048))" "\<not> Aborted (observeUplink bigUp (newHandshakeDetector 2048))"
  by (simp_all add: bigUp_def observeUplink_def newHandshakeDetector_def addBulk_def Ready_def Aborted_def Let_def resolveMinBulk_def)

text \<open>The server's half of a run: payload, an offer, the carrier, and data on it.\<close>

lemma sample_offer:
  "\<exists>p. pair_step\<^sup>*\<^sup>* (newPair 7 2048 False) p \<and> pr_downMux p = [MuxControl ((newFrame cmdMigrateReady 7)\<lparr>f_data := t\<rparr>)] \<and>
     pr_client p = newStreamMig True 7 2048 False \<and> \<not> mg_isClient (pr_server p) \<and> mg_sid (pr_server p) = 7 \<and>
     mg_tapsDone (pr_server p) \<and> \<not> mg_dead (pr_server p) \<and> \<not> mg_bWriteConn (pr_server p) \<and>
     \<not> mg_uplinkFin (pr_server p) \<and> \<not> mg_bWriteHalfClosed (pr_server p) \<and> \<not> mg_released (pr_server p) \<and>
     mg_detector (pr_server p) \<noteq> None \<and>
     pr_upMux p = [] \<and> pr_upB p = [] \<and> pr_downB p = [] \<and> pr_upRead p = [] \<and> pr_downRead p = [] \<and>
     pr_upWritten p = [] \<and> pr_downWritten p = []"
proof -
  let ?p0 = "newPair 7 2048 False"
  let ?p1 = "serverDoes BeginMigrationPayload ?p0"
  let ?p2 = "serverDoes (observeServerRead (Some t) True bigUp) ?p1"
  have d: "(newHandshakeDetector 2048)\<lparr>tlsOnly := False\<rparr> = newHandshakeDetector 2048"
    by (simp add: newHandshakeDetector_def)
  have "pair_step\<^sup>*\<^sup>* ?p0 ?p2"
    by (meson pair_step.payload_begins pair_step.server_taps rtranclp.rtrancl_refl rtranclp.rtrancl_into_rtrancl)
  then show ?thesis
    by (intro exI[of _ ?p2])
      (simp add: newPair_def newStreamMig_def serverDoes_def BeginMigrationPayload_def observeServerRead_def
        serverMaybeTrigger_def mput_def Let_def d bigUp_verdict)
qed


lemmas sample_defs = clientDoes_def serverDoes_def clientPresents_def clientCarrierReady_def clientOnMigrateGo_def
  maybeClientCutover_def serverAttachCarrier_def serverOnUplinkFin_def migWrite_def observeServerWrite_def
  serverMaybeTrigger_def newStreamMig_def mput_def Let_def newFrame_def

lemma sample_cutover:
  "\<exists>p. pair_step\<^sup>*\<^sup>* (newPair 7 2048 False) p \<and> mg_bWriteConn (pr_client p) \<and> mg_bWriteConn (pr_server p) \<and>
     mg_isClient (pr_client p) \<and>
     \<not> mg_dead (pr_client p) \<and> \<not> mg_bWriteHalfClosed (pr_client p) \<and> \<not> mg_released (pr_client p) \<and>
     \<not> mg_isClient (pr_server p) \<and> mg_bConn (pr_server p) \<and> \<not> mg_dead (pr_server p) \<and> \<not> mg_uplinkFin (pr_server p) \<and>
     \<not> mg_bWriteHalfClosed (pr_server p) \<and> \<not> mg_released (pr_server p) \<and> pr_downFeed p \<and>
     pr_downMux p = [] \<and> pr_upMux p = [MuxData [4], MuxControl (newFrame cmdUplinkFin 7)] \<and> pr_upB p = [] \<and> pr_downB p = [] \<and>
     pr_upRead p = [] \<and> pr_downRead p = [] \<and> pr_upWritten p = [4] \<and> pr_downWritten p = []"
proof -
  obtain p where run: "pair_step\<^sup>*\<^sup>* (newPair 7 2048 False) p"
    and mux: "pr_downMux p = [MuxControl ((newFrame cmdMigrateReady 7)\<lparr>f_data := replicate 16 3\<rparr>)]"
    and p: "pr_client p = newStreamMig True 7 2048 False" "\<not> mg_isClient (pr_server p)" "mg_sid (pr_server p) = 7"
      "mg_tapsDone (pr_server p)" "\<not> mg_dead (pr_server p)" "\<not> mg_bWriteConn (pr_server p)"
      "\<not> mg_uplinkFin (pr_server p)" "\<not> mg_bWriteHalfClosed (pr_server p)" "\<not> mg_released (pr_server p)"
      "pr_upMux p = []" "pr_upB p = []" "pr_downB p = []" "pr_upRead p = []" "pr_downRead p = []"
      "pr_upWritten p = []" "pr_downWritten p = []"
    using sample_offer[of "replicate 16 3"] by blast
  let ?q1 = "p\<lparr>pr_downMux := [], pr_ready := pr_ready p \<or> \<not> mg_dead (pr_client p)\<rparr>"
  let ?q2 = "(clientDoes (clientPresents []) ?q1)\<lparr>pr_ready := False, pr_dialled := True, pr_hello := True\<rparr>"
  let ?q3 = "(clientDoes (migWrite None False [4]) ?q2)\<lparr>pr_upWritten := pr_upWritten ?q2 @ [4]\<rparr>"
  let ?q4 = "(serverDoes serverAttachCarrier ?q3)\<lparr>pr_hello := False\<rparr>"
  let ?q5 = "(if mg_dead (pr_client ?q4) then ?q4 else clientDoes clientOnMigrateGo ?q4)\<lparr>pr_downMux := []\<rparr>"
  let ?q6 = "(clientDoes (clientCarrierReady True) ?q5)\<lparr>pr_dialled := False\<rparr>"
  have "pair_step p ?q1"
    using mux by (intro pair_step.client_ready) (auto simp: newFrame_def)
  moreover have "pair_step ?q1 ?q2"
    using p by (intro pair_step.client_presents) (simp add: newStreamMig_def)
  moreover have "pair_step ?q2 ?q3"
    using p by (intro pair_step.client_writes) (simp add: sample_defs accepts_def)
  moreover have "pair_step ?q3 ?q4"
    by (intro pair_step.server_attaches) (simp add: sample_defs)
  moreover have "pr_downMux ?q4 = [MuxControl (newFrame cmdMigrateGo 7)]"
    using p by (simp add: sample_defs)
  then have "pair_step ?q4 ?q5"
    by (intro pair_step.client_go) (auto simp: newFrame_def)
  moreover have "pair_step ?q5 ?q6"
    using p by (intro pair_step.carrier_ready) (simp add: sample_defs)
  ultimately have "pair_step\<^sup>*\<^sup>* (newPair 7 2048 False) ?q6"
    using run by (meson rtranclp.rtrancl_into_rtrancl)
  then show ?thesis
    using p by (intro exI[of _ ?q6]) (simp add: sample_defs)
qed


lemma sample_run:
  "\<exists>p. pair_step\<^sup>*\<^sup>* (newPair 7 2048 False) p \<and> pr_upWritten p = [4, 9] \<and> mg_bReadHalfClosed (pr_server p) \<and>
     pr_downWritten p = [1, 2] \<and> mg_dead (pr_client p) = False \<and> pr_downB p = [2] \<and> pr_downMux p = []"
proof -
  obtain p where run: "pair_step\<^sup>*\<^sup>* (newPair 7 2048 False) p"
    and p: "mg_bWriteConn (pr_client p)" "mg_bWriteConn (pr_server p)" "mg_isClient (pr_client p)" "\<not> mg_dead (pr_client p)"
      "\<not> mg_bWriteHalfClosed (pr_client p)" "\<not> mg_released (pr_client p)" "\<not> mg_isClient (pr_server p)"
      "mg_bConn (pr_server p)" "\<not> mg_dead (pr_server p)" "\<not> mg_uplinkFin (pr_server p)"
      "\<not> mg_bWriteHalfClosed (pr_server p)" "\<not> mg_released (pr_server p)" "pr_downFeed p" "pr_downMux p = []"
      "pr_upMux p = [MuxData [4], MuxControl (newFrame cmdUplinkFin 7)]" "pr_upB p = []" "pr_downB p = []"
      "pr_upRead p = []" "pr_downRead p = []" "pr_upWritten p = [4]" "pr_downWritten p = []"
    using sample_cutover by blast
  let ?q1 = "p\<lparr>pr_upMux := [MuxControl (newFrame cmdUplinkFin 7)],
    pr_upRead := (if mg_dead (pr_server p) then pr_upRead p else pr_upRead p @ [4])\<rparr>"
  let ?q2 = "(if mg_dead (pr_server ?q1) then ?q1 else serverDoes serverOnUplinkFin ?q1)\<lparr>pr_upMux := []\<rparr>"
  let ?q3 = "(clientDoes (migWrite None False [9]) ?q2)\<lparr>pr_upWritten := pr_upWritten ?q2 @ [9]\<rparr>"
  let ?q4 = "(serverDoes (\<lambda>sm. snd (carrierToPipe [9] None None sm)) ?q3)\<lparr>pr_upB := [], pr_upRead := pr_upRead ?q3 @ [9]\<rparr>"
  let ?q5 = "clientDoes migCloseWrite ?q4"
  let ?q6 = "(serverDoes (\<lambda>sm. snd (carrierToPipe [] (Some EOF) None sm)) ?q5)\<lparr>pr_upFeed := False\<rparr>"
  let ?q7 = "(serverDoes (migWrite None True [1, 2]) ?q6)\<lparr>pr_downWritten := pr_downWritten ?q6 @ [1, 2]\<rparr>"
  let ?q8 = "(clientDoes (\<lambda>sm. snd (carrierToPipe [1] None None sm)) ?q7)\<lparr>pr_downB := [2], pr_downRead := pr_downRead ?q7 @ [1]\<rparr>"
  note defs = sample_defs migCloseWrite_def maybeFullCloseCarrier_def carrierToPipe_def readFailure_def accepts_def
    closeCarrier_def
  have "pair_step p ?q1"
    using p by (intro pair_step.server_data) simp
  moreover have "pair_step ?q1 ?q2"
    by (intro pair_step.server_fin[of _ "newFrame cmdUplinkFin 7"]) (simp_all add: newFrame_def)
  moreover have "pair_step ?q2 ?q3"
    using p by (intro pair_step.client_writes) (simp add: defs)
  moreover have "pair_step ?q3 ?q4"
    using p by (intro pair_step.server_feeds) (simp_all add: defs)
  moreover have "pair_step ?q4 ?q5"
    by (intro pair_step.client_half_closes)
  moreover have "pair_step ?q5 ?q6"
    using p by (intro pair_step.server_eof) (simp_all add: defs)
  moreover have "pair_step ?q6 ?q7"
    using p by (intro pair_step.server_writes) (simp add: defs)
  moreover have "pair_step ?q7 ?q8"
    using p by (intro pair_step.client_feeds) (simp_all add: defs)
  ultimately have "pair_step\<^sup>*\<^sup>* (newPair 7 2048 False) ?q8"
    using run by (meson rtranclp.rtrancl_into_rtrancl)
  then show ?thesis
    using p by (intro exI[of _ ?q8]) (simp add: defs)
qed

section \<open>Order and completeness\<close>

definition muxBytes :: "mout list \<Rightarrow> bytes" where
  "muxBytes q = concat (map (\<lambda>x. case x of MuxData b \<Rightarrow> b | _ \<Rightarrow> []) q)"

lemma rail_data_frames: "rail_data (concat (map (railFrame cmd) q)) = muxBytes q"
proof (induction q)
  case (Cons x q)
  then show ?case
    by (cases x) (simp_all add: muxBytes_def)
qed (simp add: muxBytes_def)

text \<open>
  Property C2.  The rail-switch loses, duplicates and reorders nothing.  Whatever the interleaving of
  writers, readers, offer, dial, barriers, half-closes, failures and the end of either side: what a reader
  has got is a prefix of what the other side wrote; as long as the reader's side lives, the rest is in
  flight, first on the mux, then on the carrier; and a reader that is told the carrier has ended has read
  everything.
\<close>

theorem migration_lossless:
  assumes "pair_step\<^sup>*\<^sup>* (newPair sid bulk tls) p"
  shows "prefix (pr_upRead p) (pr_upWritten p) \<and> prefix (pr_downRead p) (pr_downWritten p) \<and>
    (mg_dead (pr_server p) \<or> pr_upWritten p = pr_upRead p @ muxBytes (pr_upMux p) @ pr_upB p) \<and>
    (mg_dead (pr_client p) \<or> pr_downWritten p = pr_downRead p @ muxBytes (pr_downMux p) @ pr_downB p) \<and>
    (mg_bReadHalfClosed (pr_server p) \<longrightarrow> pr_upRead p = pr_upWritten p) \<and>
    (mg_bReadHalfClosed (pr_client p) \<longrightarrow> pr_downRead p = pr_downWritten p)"
  using uplink.run_lossless[OF assms newPair_view(1,2)] downlink.run_lossless[OF assms newPair_view(1,3)]
  by (auto simp: upRail_def downRail_def rail_data_frames simp del: cmdMigrateGo_def cmdUplinkFin_def)

theorem migration_lossless_witness:
  "\<exists>p. pair_step\<^sup>*\<^sup>* (newPair 7 2048 False) p \<and> pr_upRead p = [4, 9] \<and> pr_downRead p = [1]"
proof -
  obtain p where "pair_step\<^sup>*\<^sup>* (newPair 7 2048 False) p" "pr_upWritten p = [4, 9]" "mg_bReadHalfClosed (pr_server p)"
    "pr_downWritten p = [1, 2]" "mg_dead (pr_client p) = False" "pr_downB p = [2]" "pr_downMux p = []"
    using sample_run by blast
  with migration_lossless[of 7 2048 False p] show ?thesis
    by (auto simp: muxBytes_def)
qed

text \<open>
  Property C19.  The uplink barrier always finds its carrier: while a \<open>cmdUplinkFin\<close> is on its way, the
  server has attached the carrier and not yet seen a barrier, so processing it starts the reader.
\<close>

theorem uplink_barrier_starts_reader:
  assumes "pair_step\<^sup>*\<^sup>* (newPair sid bulk tls) p" and "MuxControl f \<in> set (pr_upMux p)" and "f_cmd f = cmdUplinkFin"
  shows "StartFeeder \<in> set (mg_out (serverOnUplinkFin (pr_server p)))"
proof -
  note up = uplink.run_inv[OF assms(1) newPair_view(1,2)] and down = downlink.run_inv[OF assms(1) newPair_view(1,3)]
  have "railFrame cmdUplinkFin (MuxControl f) = [None]"
    using assms(3) by simp
  with assms(2) have "None \<in> set (rl_mux (upRail p))"
    by (force simp: upRail_def)
  with rail_invD(5)[OF up(2)] have "mg_bWriteConn (pr_client p)" "\<not> mg_uplinkFin (pr_server p)"
    by (simp_all add: upRail_def)
  moreover from this have "mg_goSeen (pr_client p)"
    using up(1) by (simp add: pair_inv_def)
  with rail_invD(4)[OF down(2)] have "mg_bConn (pr_server p)"
    using up(1) by (simp add: downRail_def pair_inv_def)
  ultimately show ?thesis
    by (simp add: serverOnUplinkFin_def Let_def mput_def)
qed

theorem uplink_barrier_starts_reader_witness:
  "\<exists>p. pair_step\<^sup>*\<^sup>* (newPair 7 2048 False) p \<and> StartFeeder \<in> set (mg_out (serverOnUplinkFin (pr_server p)))"
proof -
  obtain p where "pair_step\<^sup>*\<^sup>* (newPair 7 2048 False) p" "pr_upMux p = [MuxData [4], MuxControl (newFrame cmdUplinkFin 7)]"
    using sample_cutover by blast
  with uplink_barrier_starts_reader[of 7 2048 False p "newFrame cmdUplinkFin 7"] show ?thesis
    by (auto simp: newFrame_def)
qed

section \<open>Ending\<close>

lemmas mig_close_defs = closeCarrier_def maybeFullCloseCarrier_def closeOnStreamEnd_def streamEnds_def
  migCloseWrite_def carrierToPipe_def

definition graceful :: "streamMig \<Rightarrow> bool" where
  "graceful sm \<longleftrightarrow> mg_bWriteConn sm \<and>
     (CarrierClose \<in> set (mg_out sm) \<longrightarrow> mg_bWriteHalfClosed sm \<and> mg_bReadHalfClosed sm)"

lemma graceful_simps [simp]:
  "x \<noteq> CarrierClose \<Longrightarrow> graceful (mput x sm) = graceful sm"
  "graceful (sm\<lparr>mg_dead := a\<rparr>) = graceful sm"
  "graceful sm \<Longrightarrow> graceful (sm\<lparr>mg_bWriteHalfClosed := True\<rparr>)"
  "graceful sm \<Longrightarrow> graceful (sm\<lparr>mg_bReadHalfClosed := True\<rparr>)"
  "graceful sm \<Longrightarrow> graceful (maybeFullCloseCarrier sm)"
  by (simp_all add: graceful_def mput_def maybeFullCloseCarrier_def closeCarrier_def)

lemma graceful_ends:
  assumes "graceful sm"
  shows "graceful (streamEnds sm)" "graceful (migCloseWrite sm)" "graceful (snd (carrierToPipe b (Some EOF) None sm))"
proof -
  have "mg_bWriteConn sm"
    using assms by (simp add: graceful_def)
  with assms show "graceful (streamEnds sm)" "graceful (migCloseWrite sm)"
      "graceful (snd (carrierToPipe b (Some EOF) None sm))"
    by (simp_all add: streamEnds_def closeOnStreamEnd_def migCloseWrite_def carrierToPipe_def readFailure_def Let_def)
qed



definition clientOp :: "(streamMig \<Rightarrow> streamMig) \<Rightarrow> bool" where
  "clientOp f \<longleftrightarrow> f \<in> {streamEnds, migCloseWrite, closeCarrier, clientOnMigrateGo}
     \<or> (\<exists>b err werr. f = (\<lambda>sm. snd (carrierToPipe b err werr sm))) \<or> (\<exists>b. f = migWrite None False b)"

text \<open>The carrier's close has been spent: \<open>closeOnce\<close> has run while there was nothing to close.\<close>

definition spent :: "streamMig \<Rightarrow> bool" where
  "spent sm \<longleftrightarrow> mg_isClient sm \<and> mg_released sm \<and> mg_bConn sm \<and> CarrierClose \<notin> set (mg_out sm)"

lemma spent_mput [simp]: "spent (mput x sm) \<longleftrightarrow> spent sm \<and> x \<noteq> CarrierClose"
  by (auto simp: spent_def mput_def)

lemma spent_upd [simp]:
  "spent (sm\<lparr>mg_dead := a\<rparr>) = spent sm" "spent (sm\<lparr>mg_bWriteHalfClosed := a\<rparr>) = spent sm"
  "spent (sm\<lparr>mg_bReadHalfClosed := a\<rparr>) = spent sm" "spent (sm\<lparr>mg_goSeen := a\<rparr>) = spent sm"
  "spent (sm\<lparr>mg_cutover := a\<rparr>) = spent sm" "spent (sm\<lparr>mg_bWriteConn := a\<rparr>) = spent sm"
  by (simp_all add: spent_def)

lemma spent_closing [simp]:
  assumes "spent sm"
  shows "spent (closeCarrier sm)" "spent (maybeFullCloseCarrier sm)" "spent (closeOnStreamEnd sm)" "spent (streamEnds sm)"
    "spent (migCloseWrite sm)" "spent (maybeClientCutover sm)"
proof -
  have c: "spent s \<Longrightarrow> spent (closeCarrier s)" "spent s \<Longrightarrow> spent (maybeFullCloseCarrier s)" for s
    by (simp_all add: closeCarrier_def maybeFullCloseCarrier_def spent_def)
  then have e: "spent s \<Longrightarrow> spent (closeOnStreamEnd s)" "spent s \<Longrightarrow> spent (streamEnds s)" for s
    by (simp_all add: closeOnStreamEnd_def streamEnds_def Let_def)
  show "spent (closeCarrier sm)" "spent (maybeFullCloseCarrier sm)" "spent (closeOnStreamEnd sm)" "spent (streamEnds sm)"
    "spent (migCloseWrite sm)" "spent (maybeClientCutover sm)"
    using assms c e by (simp_all add: migCloseWrite_def maybeClientCutover_def Let_def)
qed

lemma spent_clientOp:
  assumes "clientOp f" and "spent sm"
  shows "spent (f sm)"
proof -
  have "mg_isClient sm" and m: "spent s \<Longrightarrow> mg_isClient (mput x s)" for s x
    using assms(2) by (simp_all add: spent_def mput_def)
  with assms show ?thesis
    unfolding clientOp_def
    by (auto simp: carrierToPipe_def Let_def clientOnMigrateGo_def migWrite_def split: option.split)
qed

text \<open>
  Property C21.  A carrier whose dial outlives its stream is never closed.  \<open>closeCarrier\<close> runs when the
  stream ends, while there is no connection yet; its \<open>closeOnce\<close> is then spent, so whatever the client
  does afterwards, the connection the dial brings is not closed (not even when its first write fails).
\<close>

theorem early_end_leaks_carrier:
  assumes "list_all clientOp ops"
  shows "let t = fold (\<lambda>f. f) ops (clientStartCarrier True wrote hello (streamEnds (newStreamMig True sid bulk tls)))
         in mg_bConn t \<and> CarrierClose \<notin> set (mg_out t)"
proof -
  define s where "s = clientStartCarrier True wrote hello (streamEnds (newStreamMig True sid bulk tls))"
  have "spent s"
    by (simp add: s_def clientStartCarrier_def clientCarrierReady_def clientPresents_def maybeClientCutover_def
        newStreamMig_def mig_close_defs mput_def Let_def spent_def)
  with assms(1) have "spent (fold (\<lambda>f. f) ops s)"
    by (induction ops arbitrary: s) (simp_all add: spent_clientOp)
  then show ?thesis
    by (simp add: s_def Let_def spent_def)
qed

theorem early_end_leaks_carrier_witness:
  "CarrierClose \<notin> set (mg_out (closeCarrier (clientStartCarrier True False [1] (streamEnds (newStreamMig True 7 0 False)))))"
  using early_end_leaks_carrier[where ops = "[closeCarrier]" and wrote = False and hello = "[1]" and sid = 7 and bulk = 0
      and tls = False]
  by (simp add: clientOp_def Let_def)

section \<open>The offer rests on evidence\<close>

text \<open>What reaches the server's taps, and the payload the detector may see of it.\<close>

datatype tapEvent = TapBegin | TapRead "migToken option" bytes | TapWrite "migToken option" bytes

fun tap :: "bool \<Rightarrow> streamMig \<Rightarrow> tapEvent \<Rightarrow> streamMig" where
  "tap reg sm TapBegin = BeginMigrationPayload sm"
| "tap reg sm (TapRead tok b) = observeServerRead tok reg b sm"
| "tap reg sm (TapWrite tok b) = migWrite tok reg b sm"

fun tapSeen :: "tapEvent \<Rightarrow> observation list" where
  "tapSeen TapBegin = []"
| "tapSeen (TapRead tok b) = [Up b]"
| "tapSeen (TapWrite tok b) = [Down b]"

definition payload :: "tapEvent list \<Rightarrow> observation list" where
  "payload es = concat (map tapSeen (dropWhile (\<lambda>e. e \<noteq> TapBegin) es))"

lemma payload_snoc:
  "payload (es @ [e]) = payload es @ (if TapBegin \<in> set es then tapSeen e else [])"
proof (cases "TapBegin \<in> set es")
  case False
  then have "dropWhile (\<lambda>e. e \<noteq> TapBegin) es = []"
    by auto
  then have nil: "payload es = []"
    by (simp only: payload_def list.map concat.simps)
  from False have "dropWhile (\<lambda>e. e \<noteq> TapBegin) (es @ [e]) = dropWhile (\<lambda>e. e \<noteq> TapBegin) [e]"
    by (intro dropWhile_append2) auto
  then have "payload (es @ [e]) = concat (map tapSeen (dropWhile (\<lambda>e. e \<noteq> TapBegin) [e]))"
    by (simp only: payload_def)
  with nil False show ?thesis
    by (cases e) simp_all
qed (simp add: payload_def dropWhile_append1)

lemma observeAll_snoc: "observeAll d (evs @ [e]) = observe (observeAll d evs) e"
  by (simp add: observeAll_def)

definition offer_inv :: "int \<Rightarrow> bool \<Rightarrow> tapEvent list \<Rightarrow> streamMig \<Rightarrow> bool" where
  "offer_inv bulk tls es sm \<longleftrightarrow>
     \<not> mg_isClient sm \<and> \<not> mg_bWriteConn sm \<and> mg_payloadStarted sm = (TapBegin \<in> set es) \<and>
     (mg_triggered sm \<longrightarrow> mg_tapsDone sm) \<and> length (filter isOffer (mg_out sm)) \<le> of_bool (mg_triggered sm) \<and>
     (\<exists>evs. prefix evs (payload es) \<and> (mg_tapsDone sm \<or> evs = payload es) \<and>
        mg_detector sm = Some (observeAll ((newHandshakeDetector bulk)\<lparr>tlsOnly := tls\<rparr>) evs) \<and>
        (mg_triggered sm \<longrightarrow> Ready (observeAll ((newHandshakeDetector bulk)\<lparr>tlsOnly := tls\<rparr>) evs)))"

lemma offer_inv_done:
  assumes "offer_inv bulk tls es sm" and "mg_tapsDone sm"
  shows "offer_inv bulk tls (es @ [e]) (tap reg sm e)"
proof -
  have more: "prefix evs (payload es) \<Longrightarrow> prefix evs (payload (es @ [e]))" for evs
    by (simp add: payload_snoc)
  have t: "mg_isClient (tap reg sm e) = mg_isClient sm" "mg_bWriteConn (tap reg sm e) = mg_bWriteConn sm"
    "mg_triggered (tap reg sm e) = mg_triggered sm" "mg_tapsDone (tap reg sm e)"
    "filter isOffer (mg_out (tap reg sm e)) = filter isOffer (mg_out sm)" "mg_detector (tap reg sm e) = mg_detector sm"
    "mg_payloadStarted (tap reg sm e) = (TapBegin \<in> set (es @ [e]))"
    using assms
    by (cases e; simp add: offer_inv_def BeginMigrationPayload_def observeServerRead_def observeServerWrite_def
        migWrite_def serverMaybeTrigger_def mput_def isOffer_def split: option.split)+
  show ?thesis
    using assms(1) more unfolding offer_inv_def t by (meson t(4))
qed

lemma offer_inv_step:
  assumes inv: "offer_inv bulk tls es sm" and live: "\<not> mg_tapsDone sm"
  shows "offer_inv bulk tls (es @ [e]) (tap reg sm e)"
proof -
  let ?d = "\<lambda>evs. observeAll ((newHandshakeDetector bulk)\<lparr>tlsOnly := tls\<rparr>) evs"
  have d: "mg_detector sm = Some (?d (payload es))" "\<not> mg_triggered sm" "mg_payloadStarted sm = (TapBegin \<in> set es)"
    using inv live by (auto simp: offer_inv_def)
  note defs = BeginMigrationPayload_def observeServerRead_def observeServerWrite_def migWrite_def serverMaybeTrigger_def
    mput_def Let_def isOffer_def newFrame_def observeAll_snoc payload_snoc
  have flags: "\<not> mg_isClient sm" "\<not> mg_bWriteConn sm" "filter isOffer (mg_out sm) = []"
    using inv d by (auto simp: offer_inv_def)
  have "mg_detector (tap reg sm e) = Some (?d (payload (es @ [e])))"
    using live d flags by (cases e) (auto simp: defs split: option.split)
  moreover have "mg_triggered (tap reg sm e) \<longrightarrow> Ready (?d (payload (es @ [e]))) \<and> mg_tapsDone (tap reg sm e)"
    using live d flags by (cases e) (auto simp: defs split: option.split)
  moreover have "length (filter isOffer (mg_out (tap reg sm e))) \<le> of_bool (mg_triggered (tap reg sm e))"
    using live d flags by (cases e) (auto simp: defs split: option.split)
  moreover have "\<not> mg_isClient (tap reg sm e) \<and> \<not> mg_bWriteConn (tap reg sm e) \<and>
      mg_payloadStarted (tap reg sm e) = (TapBegin \<in> set (es @ [e]))"
    using live d flags by (cases e) (auto simp: defs split: option.split)
  ultimately show ?thesis
    unfolding offer_inv_def by blast
qed

lemma offer_inv_run: "offer_inv bulk tls es (foldl (tap reg) (newStreamMig False sid bulk tls) es)"
proof (induction es rule: rev_induct)
  case Nil
  then show ?case
    by (simp add: offer_inv_def newStreamMig_def payload_def observeAll_def)
next
  case (snoc e es)
  then show ?case
    using offer_inv_done[OF snoc] offer_inv_step[OF snoc] by auto
qed

text \<open>
  Property C18.  The server offers the rail-switch at most once per stream, and only on evidence: some
  beginning of the payload (never the destination header) satisfies the detector's gate, a completed inner
  TLS handshake with enough bulk after it or, unless restricted to TLS, enough bulk of an opaque flow.
\<close>

theorem offer_only_on_evidence:
  "let sm = foldl (tap reg) (newStreamMig False sid bulk tls) es; offers = filter isOffer (mg_out sm)
   in offers = [] \<or> length offers = 1 \<and>
      (\<exists>evs. prefix evs (payload es) \<and>
         (tls_gate evs (resolveMinBulk bulk) \<or> \<not> tls \<and> bulk_gate evs (resolveMinBulk bulk)))"
proof -
  define sm where "sm = foldl (tap reg) (newStreamMig False sid bulk tls) es"
  let ?d = "\<lambda>evs. observeAll ((newHandshakeDetector bulk)\<lparr>tlsOnly := tls\<rparr>) evs"
  from offer_inv_run[of bulk tls es reg sid] obtain evs where evs: "prefix evs (payload es)"
    and len: "length (filter isOffer (mg_out sm)) \<le> of_bool (mg_triggered sm)"
    and ready: "mg_triggered sm \<longrightarrow> Ready (?d evs)"
    unfolding offer_inv_def sm_def by blast
  have "tls_gate evs (resolveMinBulk bulk) \<or> \<not> tls \<and> bulk_gate evs (resolveMinBulk bulk)" if "Ready (?d evs)"
    using that run_inv_observeAll [where evs = evs and n = bulk and t = tls]
    by (auto simp: run_inv_def Ready_def)
  then show ?thesis
    using evs len ready unfolding Let_def sm_def[symmetric]
    by (cases "mg_triggered sm"; cases "filter isOffer (mg_out sm)") auto
qed

end
