(* ===== verification/Spec2Isabelle.thy ===== *)
theory Spec2Isabelle
  imports Session_Guard Session_Loops MigrationDetect Proxy Pool_Races Pipe Migration_Run
begin

text \<open>
  A model of anytls-x, a TLS-camouflaged proxy protocol: a client and a server exchange frames
  over one TLS connection, multiplex streams over it, shape the sizes of what they write, and may move a
  long stream to a connection of its own (the ``rail-switch'').

  The theories follow the source:

  \<^item> Prelude: bytes, big-endian words, the errors the code compares by identity, lists; Go\_Strings: the
    functions of \<open>strings\<close> and \<open>strconv\<close> the source uses; Conn: a connection as a log of what was written
    (complete, partial and failed writes, write deadlines) with its unread input.
  \<^item> Util: \<open>util/rand.go\<close> (random draws come from a stream of words) and \<open>util/string_map.go\<close>.
  \<^item> Frame: \<open>session/frame.go\<close>; Padding: \<open>padding/padding.go\<close>; RecordShaper: \<open>session/record_shaper.go\<close>.
  \<^item> MigrationDetect: \<open>session/migration_detect.go\<close>, with a byte-at-a-time reference scanner and the gates
    a cut-over needs stated over the observed traffic.
  \<^item> SkipList, SkipList\_Links, SkipList\_Map: \<open>skiplist/\<close> on a heap of nodes; its invariant; the refinement
    to a sorted map, and the interface \<open>ordered_map\<close> it provides.
  \<^item> Session: state, writers, opening and closing of \<open>session/session.go\<close> and the stream operations of
    \<open>session/stream.go\<close>; Session\_Recv: the receive loop, settings, idle loop and heartbeats.
    Session\_Write: what writing puts on the wire; Session\_Inv, Session\_Life: the invariant of every
    reachable session; Session\_Demux, Session\_Exchange, Session\_Flight: two sessions facing each
    other; Session\_Guard: what must not happen; Session\_Loops: the two background loops, which are
    schedules of the session's steps.
  \<^item> Pipe: \<open>pipe/\<close>, readers and writers as steps of a rendezvous.
  \<^item> MigRegistry, Migration: \<open>session/migration.go\<close> and the migration paths of \<open>session/stream.go\<close>.
    Rail: the contract of the rail-switch for one direction, a transition system with its invariant and
    the interface \<open>rail_refinement\<close>; Migration\_Order: both sides of a stream with their channels, and the
    two interpretations; Migration\_Run: a complete run and the properties.
  \<^item> Service: \<open>service.go\<close> and the authentication packet of \<open>client.go\<close>, who is let in and what the connection
    delivers.
  \<^item> Pool: the sessions of a client, \<open>session/client.go\<close>, over the session and the skip list (through the
    laws of \<open>ordered_map\<close>).  Session\_Trace: what a session reports to it, the contract \<open>die_hooks\<close>; Pool\_Inv, Pool\_Ops, Pool\_Cleanup: each
    operation returns and keeps the invariant; Pool\_Life: the steps of a pool and its promises;
    Pool\_Sample: a pool that is first busy, then idle.  Proxy: the public client of \<open>client.go\<close>.
  \<^item> Pool\_Threads: the same operations and die hooks as threads that run from one shared access to the
    next.  Pool\_Threads\_Inv, Pool\_Threads\_Steps, Pool\_System: the invariant, which accounts for what every
    thread still owes, and that no step breaks it or crashes; Pool\_Schedule: the operations of Pool are
    schedules of it; Pool\_Races: three schedules in which overlapping operations do harm.

  State is a record per struct; an operation takes and returns it.  Goroutines interleave at the
  granularity of operations, loop iterations and timer firings, which is what the source's mutexes
  make atomic; interleavings are step relations (\<open>sess_step\<close>, \<open>pipe_step\<close>,
  \<open>pair_step\<close>, \<open>pool_step\<close>), and for the pool also at the granularity of its lock sections and atomic
  accesses (\<open>system_step\<close>).  Errors are
  values, a panic or a loop that does not end is \<open>None\<close>.  Machine words keep their width; lengths and
  counters the source keeps in \<open>int\<close> are \<open>int\<close> or \<open>nat\<close>, with \<open>wrap64\<close> where they may overflow.  Code that
  calls out of the session (hooks, stream acceptor, pipes, migration) is recorded as events; the pool
  runs its hooks from them, after the operation that caused them (they read nothing an operation would
  still change).

  Loops that consume a list or a buffer are structural or have a measure; the searches of the skip list
  and the drain of an iterator may not end on a corrupted list and are \<open>partial_function (option)\<close>, with
  theorems that they do end on every reachable list.  \<open>recvLoop\<close> ends because each iteration consumes
  input.  The bound \<open>2 ^ 38\<close> on the size of a skip list, and so on the sessions a client dials, is where
  its level generator may exceed the node table.

  Parameters: MD5 and SHA-256, the dialer, the address serialiser, the order of a map iteration, the packet
  buffer's capacity and what the network delivers.

  Not modelled: logging and the handlers called by the service; TLS and TCP themselves (a connection is
  a byte stream); the interleaving of two operations inside one session, which its mutexes \<open>connLock\<close> and
  \<open>streamLock\<close> do not make atomic as a whole (each operation is one step there); that the flags and
  counters of several sessions read under one pool lock may change between the reads.
\<close>

end
